(* ===== verification/Prelude.thy ===== *)
theory Prelude
  imports Main "HOL-Library.Word" "HOL-Library.Multiset" "HOL-Library.Monad_Syntax"
begin

text \<open>
  What the components share: machine integers at their width, the option monad in which the
  operations are written (\<^term>\<open>None\<close> is a run that does not go on: an access outside its
  object, a deadlock on a mutex, or \<open>exit(1)\<close>), byte-addressed memory, byte buffers with
  \<open>memcpy\<close>, the little-endian layout of C integers, and the ascending search that every
  allocator of the repository uses.
\<close>

unbundle bit_operations_syntax

section \<open>Machine integers\<close>

type_synonym u8 = "8 word"
type_synonym u16 = "16 word"
type_synonym u32 = "32 word"
type_synonym u64 = "64 word"

named_theorems bit_laws \<open>what reading a bit after a bitmap update gives\<close>
named_theorems mem_laws \<open>loads after stores\<close>
named_theorems monad_laws \<open>running a sequence of operations\<close>

lemma mod_8_less [simp]: "(i :: nat) mod 8 < 32" "(i :: nat) mod 8 < 8"
  by (simp_all add: less_le_trans [OF mod_less_divisor])

lemma unat_drop_bit: "unat (drop_bit k (w :: 'a::len word)) = unat w div 2 ^ k"
proof -
  have "unat (drop_bit k w) = drop_bit k (unat w)" by (simp add: unsigned_drop_bit_eq take_bit_nat_eq_self)
  then show ?thesis by (simp only: drop_bit_eq_div)
qed

lemma unat_u32_bound: "unat (w :: u32) < 4294967296"
  using unsigned_less [of w] by simp

lemma unat_u8_bound: "unat (w :: u8) < 256"
  using unsigned_less [of w] by simp

lemma unat_of_nat_small: "n < 2 ^ LENGTH('a) \<Longrightarrow> unat (of_nat n :: 'a::len word) = n"
  by (simp add: unsigned_of_nat take_bit_nat_eq_self)

lemma sint_of_nat_u32:
  assumes "n < 2 ^ 31"
  shows "sint (of_nat n :: u32) = int n"
proof -
  have "sint (of_int (int n) :: u32) = int n"
    using assms by (simp only: signed_of_int) (simp add: signed_take_bit_int_eq_self)
  then show ?thesis by simp
qed

lemma sint_of_nat_u64:
  assumes "n < 2 ^ 63"
  shows "sint (of_nat n :: u64) = int n"
proof -
  have "sint (of_int (int n) :: u64) = int n"
    using assms by (simp only: signed_of_int) (simp add: signed_take_bit_int_eq_self)
  then show ?thesis by simp
qed

lemma unat_ucast64 [simp]: "unat (ucast (w :: u32) :: u64) = unat w"
proof -
  have "unat w < 2 ^ 64" using unat_u32_bound [of w] by simp
  then show ?thesis by (simp only: unsigned_ucast_eq) (simp add: take_bit_nat_eq_self)
qed

section \<open>Operations that may stop\<close>

definition ensure :: "bool \<Rightarrow> unit option" where
  "ensure c = (if c then Some () else None)"

lemma bind_ensure [simp, monad_laws]:
  "Option.bind (ensure c) f = (if c then f () else None)"
  by (simp add: ensure_def)

lemma ensure_Some [simp]: "ensure c = Some u \<longleftrightarrow> c"
  by (simp add: ensure_def)

section \<open>The ascending search of the allocators\<close>

text \<open>
  \<open>first_clear p i n\<close> is the loop \<open>for (; i < n; i++) if (!p(i)) return i; return -1\<close>.
\<close>

function first_clear :: "(nat \<Rightarrow> bool) \<Rightarrow> nat \<Rightarrow> nat \<Rightarrow> nat option" where
  "first_clear p i n =
     (if i < n then if p i then first_clear p (Suc i) n else Some i else None)"
  by pat_completeness auto
termination
  by (relation "measure (\<lambda>(p, i, n). n - i)") auto

declare first_clear.simps [simp del]

lemma first_clear_Some:
  "first_clear p i n = Some k \<longleftrightarrow> i \<le> k \<and> k < n \<and> \<not> p k \<and> (\<forall>j. i \<le> j \<and> j < k \<longrightarrow> p j)"
proof (induction p i n rule: first_clear.induct)
  case (1 p i n)
  show ?case
  proof (cases "i < n \<and> p i")
    case True
    with 1 have "first_clear p i n = Some k \<longleftrightarrow>
        Suc i \<le> k \<and> k < n \<and> \<not> p k \<and> (\<forall>j. Suc i \<le> j \<and> j < k \<longrightarrow> p j)"
      by (simp add: first_clear.simps [of p i n])
    also have "\<dots> \<longleftrightarrow> i \<le> k \<and> k < n \<and> \<not> p k \<and> (\<forall>j. i \<le> j \<and> j < k \<longrightarrow> p j)"
      using True by (metis Suc_leD Suc_leI le_eq_less_or_eq)
    finally show ?thesis .
  next
    case False
    then show ?thesis
      using le_neq_implies_less by (auto simp: first_clear.simps [of p i n])
  qed
qed

lemma first_clear_None:
  "first_clear p i n = None \<longleftrightarrow> (\<forall>j. i \<le> j \<and> j < n \<longrightarrow> p j)"
proof (induction p i n rule: first_clear.induct)
  case (1 p i n)
  show ?case
  proof (cases "i < n \<and> p i")
    case True
    with 1 have "first_clear p i n = None \<longleftrightarrow> (\<forall>j. Suc i \<le> j \<and> j < n \<longrightarrow> p j)"
      by (simp add: first_clear.simps [of p i n])
    with True show ?thesis by (metis Suc_leD Suc_leI le_eq_less_or_eq)
  next
    case False
    then show ?thesis by (auto simp: first_clear.simps [of p i n])
  qed
qed

lemma first_clear_cong:
  assumes "\<And>j. i \<le> j \<Longrightarrow> j < n \<Longrightarrow> p j = q j"
  shows "first_clear p i n = first_clear q i n"
proof (cases "first_clear q i n")
  case None
  then have "first_clear p i n = None" using assms by (auto simp: first_clear_None)
  with None show ?thesis by simp
next
  case (Some k)
  then have "first_clear p i n = Some k" using assms by (auto simp: first_clear_Some)
  with Some show ?thesis by simp
qed

section \<open>Little-endian integers\<close>

primrec le_enc :: "nat \<Rightarrow> nat \<Rightarrow> u8 list" where
  "le_enc 0 n = []"
| "le_enc (Suc k) n = of_nat n # le_enc k (n div 256)"

primrec le_dec :: "u8 list \<Rightarrow> nat" where
  "le_dec [] = 0"
| "le_dec (b # bs) = unat b + 256 * le_dec bs"

lemma length_le_enc [simp]: "length (le_enc k n) = k"
  by (induction k arbitrary: n) auto

lemma le_dec_enc: "le_dec (le_enc k n) = n mod 256 ^ k"
proof (induction k arbitrary: n)
  case 0
  then show ?case by simp
next
  case (Suc k)
  have "n mod 256 + 256 * (n div 256 mod 256 ^ k) = n mod (256 * 256 ^ k)"
    by (metis add.commute mod_mult2_eq)
  with Suc show ?case by (simp add: unat_of_nat)
qed

lemma le_dec_bound: "le_dec bs < 256 ^ length bs"
proof (induction bs)
  case Nil
  then show ?case by simp
next
  case (Cons b bs)
  have "unat b < 256" using unsigned_less [of b] by simp
  with Cons show ?case by simp
qed

lemma le_enc_dec: "length bs = k \<Longrightarrow> le_enc k (le_dec bs) = bs"
proof (induction bs arbitrary: k)
  case Nil
  then show ?case by simp
next
  case (Cons b bs)
  have lt: "unat b < 256" using unsigned_less [of b] by simp
  have "(256 :: u8) = 0" by simp
  then have "(256 :: u8) * x = 0" for x by (simp only: mult_zero_left)
  then have "(of_nat (unat b + 256 * le_dec bs) :: u8) = b"
    by simp
  moreover have "(unat b + 256 * le_dec bs) div 256 = le_dec bs" using lt by simp
  ultimately show ?case using Cons by auto
qed

section \<open>Byte-addressed memory\<close>

type_synonym memory = "nat \<Rightarrow> u8"

definition load_bytes :: "memory \<Rightarrow> nat \<Rightarrow> nat \<Rightarrow> u8 list" where
  "load_bytes m a n = map (\<lambda>i. m (a + i)) [0..<n]"

definition store_bytes :: "memory \<Rightarrow> nat \<Rightarrow> u8 list \<Rightarrow> memory" where
  "store_bytes m a bs = (\<lambda>i. if a \<le> i \<and> i < a + length bs then bs ! (i - a) else m i)"

definition fill_bytes :: "memory \<Rightarrow> nat \<Rightarrow> nat \<Rightarrow> u8 \<Rightarrow> memory" where
  "fill_bytes m a n v = (\<lambda>i. if a \<le> i \<and> i < a + n then v else m i)"

lemma length_load_bytes [simp]: "length (load_bytes m a n) = n"
  by (simp add: load_bytes_def)

lemma nth_load_bytes [simp]: "i < n \<Longrightarrow> load_bytes m a n ! i = m (a + i)"
  by (simp add: load_bytes_def)

lemma load_bytes_cong:
  "(\<And>i. a \<le> i \<Longrightarrow> i < a + n \<Longrightarrow> m i = m' i) \<Longrightarrow> load_bytes m a n = load_bytes m' a n"
  by (simp add: load_bytes_def)

lemma load_bytes_add: "load_bytes m a (n + k) = load_bytes m a n @ load_bytes m (a + n) k"
  by (rule nth_equalityI) (auto simp: nth_append)

lemma store_bytes_in [mem_laws]:
  "a \<le> i \<Longrightarrow> i < a + length bs \<Longrightarrow> store_bytes m a bs i = bs ! (i - a)"
  by (simp add: store_bytes_def)

lemma store_bytes_out [mem_laws]:
  "i < a \<or> a + length bs \<le> i \<Longrightarrow> store_bytes m a bs i = m i"
  by (auto simp: store_bytes_def)

lemma load_store_same [simp, mem_laws]:
  "length bs = n \<Longrightarrow> load_bytes (store_bytes m a bs) a n = bs"
  by (rule nth_equalityI) (auto simp: store_bytes_def)

lemma load_store_other [mem_laws]:
  "a + n \<le> b \<or> b + length bs \<le> a \<Longrightarrow> load_bytes (store_bytes m b bs) a n = load_bytes m a n"
  by (rule load_bytes_cong) (auto simp: store_bytes_def)

lemma load_fill_same: "load_bytes (fill_bytes m a n v) a n = replicate n v"
  by (rule nth_equalityI) (auto simp: fill_bytes_def)

lemma load_fill_other [mem_laws]:
  "a + n \<le> b \<or> b + k \<le> a \<Longrightarrow> load_bytes (fill_bytes m b k v) a n = load_bytes m a n"
  by (rule load_bytes_cong) (auto simp: fill_bytes_def)

text \<open>The values of a C \<open>int\<close>; arithmetic that leaves them is undefined.\<close>

definition int_ok :: "int \<Rightarrow> bool" where
  "int_ok x \<longleftrightarrow> - 2147483648 \<le> x \<and> x \<le> 2147483647"

section \<open>Byte buffers\<close>

text \<open>\<open>splice_at buf off src\<close> is \<open>memcpy(buf + off, src, length src)\<close>.\<close>

definition splice_at :: "'a list \<Rightarrow> nat \<Rightarrow> 'a list \<Rightarrow> 'a list" where
  "splice_at buf off src = take off buf @ src @ drop (off + length src) buf"

definition chunk :: "nat \<Rightarrow> nat \<Rightarrow> 'a list \<Rightarrow> 'a list" where
  "chunk off n buf = take n (drop off buf)"

lemma length_splice_at [simp]:
  "off + length src \<le> length buf \<Longrightarrow> length (splice_at buf off src) = length buf"
  by (simp add: splice_at_def)

lemma nth_splice_at:
  "off + length src \<le> length buf \<Longrightarrow>
   i < length buf \<Longrightarrow> splice_at buf off src ! i = (if off \<le> i \<and> i < off + length src then src ! (i - off) else buf ! i)"
  by (auto simp: splice_at_def nth_append min_def)

lemma length_chunk [simp]: "off + n \<le> length buf \<Longrightarrow> length (chunk off n buf) = n"
  by (simp add: chunk_def)

lemma chunk_splice_same [simp, mem_laws]:
  "off + length src \<le> length buf \<Longrightarrow> n = length src \<Longrightarrow> chunk off n (splice_at buf off src) = src"
  by (simp add: chunk_def splice_at_def)

lemma chunk_splice_other [mem_laws]:
  assumes "off + length src \<le> length buf" "o2 + n \<le> length buf"
    and "o2 + n \<le> off \<or> off + length src \<le> o2"
  shows "chunk o2 n (splice_at buf off src) = chunk o2 n buf"
  using assms by (intro nth_equalityI) (auto simp: chunk_def nth_splice_at)

end
