(* ===== verification/Bitmap.thy ===== *)
theory Bitmap
  imports Prelude
begin

text \<open>
  The byte bitmaps of the repository. Three files carry their own copy: \<open>set_bit_at_index\<close>
  and \<open>get_bit_at_index\<close> of \<open>proj1-submit/bitops.c\<close> on an array of (signed) \<open>char\<close>, the
  macros \<open>BIT_SET\<close>, \<open>BIT_CLEAR\<close>, \<open>BIT_TEST\<close> of \<open>project3/my_vm.c\<close> and the functions
  \<open>set_bitmap\<close>, \<open>unset_bitmap\<close>, \<open>get_bitmap\<close> of \<open>project4/rufs.h\<close> on arrays of
  \<open>uint8_t\<close>. Each is written out with C's integer promotions. The locale
  \<open>bit_store\<close> is what a client may rely on, \<open>bit_pool\<close> adds clearing and holds the lemmas
  of the first-fit allocators, proved once.
\<close>

section \<open>bitops.c\<close>

text \<open>
  \<open>num >> (total_Bits - num_bits)\<close> is defined only for a shift below 32, so for
  \<open>num_bits\<close> from 1 to 32; the subtraction is unsigned.
\<close>

definition get_top_bits :: "u32 \<Rightarrow> int \<Rightarrow> u32 option" where
  "get_top_bits value num_bits =
     (let shift = unat ((32 :: u32) - of_int num_bits)
      in if shift < 32 then Some (drop_bit shift value) else None)"

definition set_bit_at_index :: "u8 list \<Rightarrow> nat \<Rightarrow> u8 list" where
  "set_bit_at_index bitmap index =
     (let byteIndex = index div 8; bitIndex = index mod 8
      in bitmap[byteIndex := ucast ((scast (bitmap ! byteIndex) :: u32) OR push_bit bitIndex 1)])"

definition get_bit_at_index :: "u8 list \<Rightarrow> nat \<Rightarrow> u32" where
  "get_bit_at_index bitmap index =
     (let byteIndex = index div 8; bitIndex = index mod 8
      in signed_drop_bit bitIndex (scast (bitmap ! byteIndex) :: u32) AND 1)"

definition NUM_TOP_BITS :: int where "NUM_TOP_BITS = 4"
definition BITMAP_SIZE :: nat where "BITMAP_SIZE = 4"
definition SET_BIT_INDEX :: nat where "SET_BIT_INDEX = 17"
definition GET_BIT_INDEX :: nat where "GET_BIT_INDEX = 17"
definition myaddress :: u32 where "myaddress = 4026544704"

text \<open>The two numbers \<open>main\<close> prints: the outer bits, and the bit read back.\<close>

definition bitops_main :: "(u32 \<times> u32) option" where
  "bitops_main = do {
     outer_bits_value \<leftarrow> get_top_bits myaddress NUM_TOP_BITS;
     let bitmap = replicate BITMAP_SIZE 0;
     ensure (SET_BIT_INDEX < 8 * length bitmap);
     let bitmap = set_bit_at_index bitmap SET_BIT_INDEX;
     ensure (GET_BIT_INDEX < 8 * length bitmap);
     Some (outer_bits_value, get_bit_at_index bitmap GET_BIT_INDEX)
   }"

section \<open>rufs.h\<close>

definition set_bitmap :: "u8 list \<Rightarrow> nat \<Rightarrow> u8 list" where
  "set_bitmap b i =
     b[i div 8 := ucast ((ucast (b ! (i div 8)) :: u32) OR push_bit (i mod 8) 1)]"

definition unset_bitmap :: "u8 list \<Rightarrow> nat \<Rightarrow> u8 list" where
  "unset_bitmap b i =
     b[i div 8 := ucast ((ucast (b ! (i div 8)) :: u32) AND NOT (push_bit (i mod 8) 1))]"

definition get_bitmap :: "u8 list \<Rightarrow> nat \<Rightarrow> u8" where
  "get_bitmap b i =
     (if (ucast (b ! (i div 8)) :: u32) AND push_bit (i mod 8) 1 \<noteq> 0 then 1 else 0)"

section \<open>my_vm.c\<close>

definition BIT_SET :: "u8 list \<Rightarrow> nat \<Rightarrow> u8 list" where
  "BIT_SET bitmap i =
     bitmap[i div 8 := ucast ((ucast (bitmap ! (i div 8)) :: u32) OR push_bit (i mod 8) 1)]"

definition BIT_CLEAR :: "u8 list \<Rightarrow> nat \<Rightarrow> u8 list" where
  "BIT_CLEAR bitmap i =
     bitmap[i div 8 := ucast ((ucast (bitmap ! (i div 8)) :: u32) AND NOT (push_bit (i mod 8) 1))]"

definition BIT_TEST :: "u8 list \<Rightarrow> nat \<Rightarrow> u32" where
  "BIT_TEST bitmap i = (ucast (bitmap ! (i div 8)) :: u32) AND push_bit (i mod 8) 1"

section \<open>Bits of a byte array\<close>

text \<open>Bit \<open>i\<close> of a byte array is bit \<open>i mod 8\<close> of byte \<open>i div 8\<close>.\<close>

definition bit_at :: "u8 list \<Rightarrow> nat \<Rightarrow> bool" where
  "bit_at b i \<longleftrightarrow> bit (b ! (i div 8)) (i mod 8)"

abbreviation capacity :: "u8 list \<Rightarrow> nat" where
  "capacity b \<equiv> 8 * length b"

lemma and_one_bit: "(w :: 'a::len word) AND push_bit k 1 \<noteq> 0 \<longleftrightarrow> k < LENGTH('a) \<and> bit w k"
proof -
  have "w AND push_bit k 1 \<noteq> 0 \<longleftrightarrow> (\<exists>n. bit (w AND push_bit k 1) n)"
    by (metis bit_0_eq bot_apply bot_bool_def bit_eq_iff)
  also have "\<dots> \<longleftrightarrow> k < LENGTH('a) \<and> bit w k"
    by (auto simp: bit_simps)
  finally show ?thesis .
qed

lemma bit_at_update:
  assumes "i < capacity b" "j < capacity b"
    and "\<And>k. k < 8 \<Longrightarrow> bit v k = (if k = i mod 8 then x else bit (b ! (i div 8)) k)"
  shows "bit_at (b[i div 8 := v]) j = (if j = i then x else bit_at b j)"
proof (cases "j div 8 = i div 8")
  case True
  have "j = i \<longleftrightarrow> j mod 8 = i mod 8"
    using True by (metis div_mult_mod_eq)
  with True assms show ?thesis by (auto simp: bit_at_def)
next
  case False
  then show ?thesis by (auto simp: bit_at_def)
qed

lemma bit_at_set [bit_laws]:
  assumes "i < capacity b" "j < capacity b"
  shows "bit_at (set_bitmap b i) j = (j = i \<or> bit_at b j)"
    and "bit_at (BIT_SET b i) j = (j = i \<or> bit_at b j)"
    and "bit_at (set_bit_at_index b i) j = (j = i \<or> bit_at b j)"
proof -
  have k: "\<And>k. k < 8 \<Longrightarrow> k < (32::nat)" by simp
  show "bit_at (set_bitmap b i) j = (j = i \<or> bit_at b j)"
    unfolding set_bitmap_def
    by (subst bit_at_update [where x = True]) (use assms k in \<open>auto simp: bit_simps\<close>)
  show "bit_at (BIT_SET b i) j = (j = i \<or> bit_at b j)"
    unfolding BIT_SET_def
    by (subst bit_at_update [where x = True]) (use assms k in \<open>auto simp: bit_simps\<close>)
  show "bit_at (set_bit_at_index b i) j = (j = i \<or> bit_at b j)"
    unfolding set_bit_at_index_def Let_def
    by (subst bit_at_update [where x = True]) (use assms k in \<open>auto simp: bit_simps\<close>)
qed

lemma bit_at_clear [bit_laws]:
  assumes "i < capacity b" "j < capacity b"
  shows "bit_at (unset_bitmap b i) j = (j \<noteq> i \<and> bit_at b j)"
    and "bit_at (BIT_CLEAR b i) j = (j \<noteq> i \<and> bit_at b j)"
proof -
  have k: "\<And>k. k < 8 \<Longrightarrow> k < (32::nat)" by simp
  show "bit_at (unset_bitmap b i) j = (j \<noteq> i \<and> bit_at b j)"
    unfolding unset_bitmap_def
    by (subst bit_at_update [where x = False]) (use assms k in \<open>auto simp: bit_simps\<close>)
  show "bit_at (BIT_CLEAR b i) j = (j \<noteq> i \<and> bit_at b j)"
    unfolding BIT_CLEAR_def
    by (subst bit_at_update [where x = False]) (use assms k in \<open>auto simp: bit_simps\<close>)
qed

lemma length_bitmap_ops [simp]:
  "length (set_bitmap b i) = length b" "length (unset_bitmap b i) = length b"
  "length (BIT_SET b i) = length b" "length (BIT_CLEAR b i) = length b"
  "length (set_bit_at_index b i) = length b"
  by (simp_all add: set_bitmap_def unset_bitmap_def BIT_SET_def BIT_CLEAR_def
      set_bit_at_index_def Let_def)

lemma and_two_power_bit: "(w :: 'a::len word) AND 2 ^ k \<noteq> 0 \<longleftrightarrow> k < LENGTH('a) \<and> bit w k"
  using and_one_bit [of w k] by simp

lemma get_bitmap_bit: "get_bitmap b i \<noteq> 0 \<longleftrightarrow> bit_at b i"
  by (simp add: get_bitmap_def and_two_power_bit bit_at_def bit_simps)

lemma get_bitmap_zero: "get_bitmap b i = 0 \<longleftrightarrow> \<not> bit_at b i"
  using get_bitmap_bit [of b i] by auto

lemma BIT_TEST_bit: "BIT_TEST b i \<noteq> 0 \<longleftrightarrow> bit_at b i"
  by (simp add: BIT_TEST_def and_two_power_bit bit_at_def bit_simps)

lemma get_bit_at_index_bit:
  "get_bit_at_index b i = (if bit_at b i then 1 else 0)"
proof (rule bit_word_eqI)
  fix n
  have "i mod 8 < 8" by simp
  then have seven: "7 \<le> i mod 8 \<Longrightarrow> i mod 8 = 7" by linarith
  show "bit (get_bit_at_index b i) n = bit (if bit_at b i then 1 else 0 :: u32) n"
    using seven by (cases n)
      (auto simp: get_bit_at_index_def bit_at_def bit_simps Let_def bit_1_iff min_def)
qed

section \<open>What a client of a bitmap relies on\<close>

definition taken :: "(nat \<Rightarrow> bool) \<Rightarrow> nat \<Rightarrow> nat set" where
  "taken p n = {i. i < n \<and> p i}"

locale bit_store =
  fixes tst :: "'b \<Rightarrow> nat \<Rightarrow> bool"
    and put :: "'b \<Rightarrow> nat \<Rightarrow> 'b"
    and cap :: "'b \<Rightarrow> nat"
  assumes tst_put: "i < cap b \<Longrightarrow> j < cap b \<Longrightarrow> tst (put b i) j = (j = i \<or> tst b j)"
    and cap_put: "cap (put b i) = cap b"
begin

lemma taken_put: "i < n \<Longrightarrow> n \<le> cap b \<Longrightarrow> taken (tst (put b i)) n = insert i (taken (tst b) n)"
  by (auto simp: taken_def tst_put)

lemma first_fit:
  assumes "first_clear (tst b) 0 n = Some i" "n \<le> cap b"
  shows "i < n" "i \<notin> taken (tst b) n" "taken (tst (put b i)) n = insert i (taken (tst b) n)"
    "\<And>j. j < i \<Longrightarrow> j \<in> taken (tst b) n"
  using assms by (auto simp: first_clear_Some taken_put) (auto simp: taken_def)

lemma exhausted: "first_clear (tst b) 0 n = None \<longleftrightarrow> taken (tst b) n = {..<n}"
  by (auto simp: first_clear_None taken_def)

lemma fold_put:
  assumes "\<And>i. i \<in> set is \<Longrightarrow> i < cap b" "j < cap b"
  shows "tst (fold (\<lambda>i b. put b i) is b) j = (j \<in> set is \<or> tst b j)"
  using assms
proof (induction "is" arbitrary: b)
  case Nil
  then show ?case by simp
next
  case (Cons i "is")
  then show ?case by (auto simp: cap_put tst_put)
qed

end

locale bit_pool = bit_store +
  fixes rel :: "'b \<Rightarrow> nat \<Rightarrow> 'b"
  assumes tst_rel: "i < cap b \<Longrightarrow> j < cap b \<Longrightarrow> tst (rel b i) j = (j \<noteq> i \<and> tst b j)"
    and cap_rel: "cap (rel b i) = cap b"
begin

lemma taken_rel: "i < cap b \<Longrightarrow> n \<le> cap b \<Longrightarrow> taken (tst (rel b i)) n = taken (tst b) n - {i}"
  by (auto simp: taken_def tst_rel)

text \<open>Releasing what a first-fit allocation took makes the next one return it again.\<close>

lemma first_fit_again:
  assumes "first_clear (tst b) 0 n = Some i" "n \<le> cap b"
  shows "first_clear (tst (rel (put b i) i)) 0 n = Some i"
  using assms by (auto simp: first_clear_Some tst_rel tst_put cap_put)

end

interpretation bitops: bit_store "\<lambda>b i. get_bit_at_index b i = 1" set_bit_at_index
  "\<lambda>b. 8 * length b"
  by unfold_locales (auto simp: get_bit_at_index_bit bit_laws)

interpretation vm_bits: bit_pool "\<lambda>b i. BIT_TEST b i \<noteq> 0" BIT_SET "\<lambda>b. 8 * length b" BIT_CLEAR
  by unfold_locales (auto simp: BIT_TEST_bit bit_laws)

interpretation fs_bits: bit_pool "\<lambda>b i. get_bitmap b i \<noteq> 0" set_bitmap "\<lambda>b. 8 * length b"
  unset_bitmap
  by unfold_locales (auto simp: get_bitmap_bit bit_laws)

section \<open>bitops.c is correct\<close>

lemma get_top_bits_defined:
  assumes "1 \<le> n" "n \<le> 32"
  shows "get_top_bits v n = Some (drop_bit (32 - nat n) v)"
proof -
  obtain m where m: "n = int m" using assms by (metis nonneg_int_cases zero_le_one order_trans)
  have "unat ((32 :: u32) - of_nat m) = 32 - m"
    using assms m by (subst unat_sub) (simp_all add: word_le_nat_alt unat_of_nat)
  then show ?thesis using assms m by (simp add: get_top_bits_def)
qed

text \<open>
  C28. \<open>get_top_bits\<close> returns the number formed by the \<open>num_bits\<close> most significant bits of
  its argument, for every width from 1 to 32.
\<close>

theorem get_top_bits_value:
  assumes "1 \<le> n" "n \<le> 32"
  shows "\<exists>r. get_top_bits v n = Some r \<and> unat r = unat v div 2 ^ (32 - nat n) \<and> unat r < 2 ^ nat n"
proof -
  have "unat v < 2 ^ 32" using unsigned_less [of v] by simp
  also have "(2::nat) ^ 32 = 2 ^ nat n * 2 ^ (32 - nat n)"
    using assms by (simp flip: power_add)
  finally have "unat v div 2 ^ (32 - nat n) < 2 ^ nat n"
    by (simp add: less_mult_imp_div_less)
  with assms show ?thesis
    by (simp add: get_top_bits_defined unat_drop_bit)
qed

theorem get_top_bits_value_witness:
  "get_top_bits myaddress NUM_TOP_BITS = Some 15 \<and>
   (\<exists>r. get_top_bits myaddress 4 = Some r \<and> unat r = unat myaddress div 2 ^ (32 - nat 4) \<and> unat r < 2 ^ nat 4)"
  using get_top_bits_value [of 4 myaddress]
  by (simp add: get_top_bits_defined NUM_TOP_BITS_def myaddress_def)

end
