(* ===== verification/MinHeap.thy ===== *)
theory MinHeap
  imports Prelude
begin

text \<open>
  The binary min-heap of \<open>project2-release/thread-worker.h\<close>: the thread control block, the heap
  record, \<open>heapResize\<close>, \<open>enqueue\<close>, \<open>dequeue\<close>, \<open>searchByTID\<close>, \<open>removeNode\<close>, and
  \<open>initHeap\<close> of \<open>thread-worker.c\<close>. The heap holds pointers; the order is that of the
  \<open>timeQuant\<close> fields they point to, read through the store of control blocks. The locale
  \<open>prio_queue\<close> is the contract the schedulers use, interpreted on these operations.
\<close>

section \<open>Data\<close>

type_synonym tptr = nat

datatype status = READY | RUNNING | BLOCKED | FINISHED

text \<open>
  A \<open>ucontext_t\<close> is what \<open>makecontext\<close> or a context switch last stored in it: an entry point with
  its argument and its stack, or the point where a thread was suspended.
\<close>

datatype ucontext = Fresh (entry: u64) (entry_arg: u64) (ss_sp: u64) | Suspended

record tcb =
  tID :: int
  state :: status
  ctx :: ucontext
  stack :: u64
  priority :: int
  pc :: int
  next_tcb :: "tptr option"
  retValue :: u64
  timeQuant :: int

type_synonym tcbs = "tptr \<Rightarrow> tcb"

text \<open>
  \<open>arr\<close> is the block \<open>malloc\<close> or \<open>realloc\<close> returned, one entry per slot; slots at or above
  \<open>threads\<close> hold nothing of interest.
\<close>

record minHeap =
  arr :: "tptr list"
  threads :: nat
  threshold :: nat

section \<open>Operations\<close>

text \<open>
  \<open>initHeap\<close> and \<open>heapResize\<close> depend on whether the C library has the memory: \<open>avail\<close> tells
  it for a request in bytes. Slots not yet written hold the null pointer here; no operation
  reads them (lemma \<open>heap_inv\<close> and the theorems below never mention them).
\<close>

definition initHeap :: "(nat \<Rightarrow> bool) \<Rightarrow> minHeap \<Rightarrow> nat \<Rightarrow> int \<times> minHeap" where
  "initHeap avail h capacity =
     (if \<not> avail (8 * capacity) then (-1, h\<lparr>arr := []\<rparr>)
      else (0, h\<lparr>arr := replicate capacity 0, threads := 0, threshold := capacity\<rparr>))"

text \<open>
  The capacity is an \<open>int\<close> that the code doubles: the model is about capacities below \<open>2 ^ 30\<close>, eight
  gigabytes of pointers, where the doubling does not overflow.
\<close>

definition heapResize :: "(nat \<Rightarrow> bool) \<Rightarrow> minHeap \<Rightarrow> int \<times> minHeap" where
  "heapResize avail h =
     (let doubleThreshold = threshold h * 2
      in if \<not> avail (8 * doubleThreshold) then (-1, h)
         else (0, h\<lparr>arr := take doubleThreshold (arr h) @ replicate (doubleThreshold - length (arr h)) 0,
                   threshold := doubleThreshold\<rparr>))"

definition parent_of :: "nat \<Rightarrow> nat" where
  "parent_of idx = (idx - 1) div 2"

definition swap :: "'a list \<Rightarrow> nat \<Rightarrow> nat \<Rightarrow> 'a list" where
  "swap a i j = a[i := a ! j, j := a ! i]"

function sift_up :: "tcbs \<Rightarrow> tptr list \<Rightarrow> nat \<Rightarrow> tptr list" where
  "sift_up st a idx =
     (if idx > 0 then
        let parent = parent_of idx in
        if timeQuant (st (a ! idx)) \<ge> timeQuant (st (a ! parent)) then a
        else sift_up st (swap a idx parent) parent
      else a)"
  by pat_completeness auto
termination
  by (relation "measure (\<lambda>(st, a, idx). idx)") (auto simp: parent_of_def)

definition enqueue :: "(nat \<Rightarrow> bool) \<Rightarrow> tcbs \<Rightarrow> minHeap \<Rightarrow> tptr \<Rightarrow> (int \<times> minHeap) option" where
  "enqueue avail st h node =
     (let (r, h) = (if threads h = threshold h then heapResize avail h else (0, h))
      in if r = -1 then Some (-1, h)
         else do {
           let idx = threads h;
           ensure (idx < length (arr h));
           Some (0, h\<lparr>arr := sift_up st ((arr h)[idx := node]) idx, threads := threads h + 1\<rparr>)
         })"

definition smallest_of :: "tcbs \<Rightarrow> tptr list \<Rightarrow> nat \<Rightarrow> nat \<Rightarrow> nat" where
  "smallest_of st a n index =
     (let left = 2 * index + 1; right = 2 * index + 2; smallest = index;
          smallest = (if timeQuant (st (a ! left)) < timeQuant (st (a ! smallest)) then left else smallest)
      in if right < n \<and> timeQuant (st (a ! right)) < timeQuant (st (a ! smallest)) then right
         else smallest)"

function sift_down :: "tcbs \<Rightarrow> tptr list \<Rightarrow> nat \<Rightarrow> nat \<Rightarrow> tptr list \<times> nat" where
  "sift_down st a n index =
     (let left = 2 * index + 1 in
      if left < n then
        let smallest = smallest_of st a n index in
        if smallest = index then (a, index)
        else sift_down st (swap a index smallest) n smallest
      else (a, index))"
  by pat_completeness auto
termination
  by (relation "measure (\<lambda>(st, a, n, index). n - index)")
    (auto simp: smallest_of_def Let_def split: if_splits)

definition dequeue :: "tcbs \<Rightarrow> minHeap \<Rightarrow> (tptr option \<times> minHeap) option" where
  "dequeue st h =
     (if threads h = 0 then Some (None, h)
      else do {
        ensure (threads h \<le> length (arr h));
        let minNode = arr h ! 0;
        let n = threads h - 1;
        let a = (arr h)[0 := arr h ! n];
        Some (Some minNode, h\<lparr>arr := fst (sift_down st a n 0), threads := n\<rparr>)
      })"

definition searchByTID :: "tcbs \<Rightarrow> minHeap \<Rightarrow> int \<Rightarrow> tptr option" where
  "searchByTID st h t =
     map_option (\<lambda>i. arr h ! i) (first_clear (\<lambda>i. tID (st (arr h ! i)) \<noteq> t) 0 (threads h))"

definition removeNode :: "tcbs \<Rightarrow> minHeap \<Rightarrow> int \<Rightarrow> int \<times> minHeap" where
  "removeNode st h t =
     (case searchByTID st h t of
        None \<Rightarrow> (-1, h)
      | Some node \<Rightarrow>
          (case first_clear (\<lambda>i. arr h ! i \<noteq> node) 0 (threads h) of
             None \<Rightarrow> (-1, h)
           | Some index \<Rightarrow>
               let n = threads h - 1; h = h\<lparr>threads := n\<rparr> in
               if index = n then (0, h)
               else let (a, idx) = sift_down st ((arr h)[index := arr h ! n]) n index
                    in (0, h\<lparr>arr := sift_up st a idx\<rparr>)))"

declare sift_up.simps [simp del] sift_down.simps [simp del]

section \<open>The heap order and its repairs\<close>

abbreviation tq :: "tcbs \<Rightarrow> tptr \<Rightarrow> int" where
  "tq st p \<equiv> timeQuant (st p)"

definition heap_ok :: "tcbs \<Rightarrow> tptr list \<Rightarrow> nat \<Rightarrow> bool" where
  "heap_ok st a n \<longleftrightarrow> (\<forall>j<n. 0 < j \<longrightarrow> tq st (a ! parent_of j) \<le> tq st (a ! j))"

text \<open>
  The two intermediate shapes. In \<open>up_hole\<close> only the edge above \<open>i\<close> may be wrong; in
  \<open>down_hole\<close> the edges above and below \<open>i\<close> may be. In both, what is below \<open>i\<close> is not
  smaller than what is above it.
\<close>

definition up_hole :: "tcbs \<Rightarrow> tptr list \<Rightarrow> nat \<Rightarrow> nat \<Rightarrow> bool" where
  "up_hole st a n i \<longleftrightarrow> i < n \<and> n \<le> length a \<and>
     (\<forall>j<n. 0 < j \<longrightarrow> j \<noteq> i \<longrightarrow> tq st (a ! parent_of j) \<le> tq st (a ! j)) \<and>
     (\<forall>j<n. 0 < j \<longrightarrow> 0 < i \<longrightarrow> parent_of j = i \<longrightarrow> tq st (a ! parent_of i) \<le> tq st (a ! j))"

definition down_hole :: "tcbs \<Rightarrow> tptr list \<Rightarrow> nat \<Rightarrow> nat \<Rightarrow> bool" where
  "down_hole st a n i \<longleftrightarrow> i < n \<and> n \<le> length a \<and>
     (\<forall>j<n. 0 < j \<longrightarrow> j \<noteq> i \<longrightarrow> parent_of j \<noteq> i \<longrightarrow> tq st (a ! parent_of j) \<le> tq st (a ! j)) \<and>
     (\<forall>j<n. 0 < j \<longrightarrow> 0 < i \<longrightarrow> parent_of j = i \<longrightarrow> tq st (a ! parent_of i) \<le> tq st (a ! j))"

lemma parent_less [simp]: "0 < i \<Longrightarrow> parent_of i < i"
  by (auto simp: parent_of_def)

lemma parent_le [simp]: "parent_of i \<le> i"
  by (auto simp: parent_of_def)

lemma parent_of_child: "0 < j \<Longrightarrow> parent_of j = i \<longleftrightarrow> j = 2 * i + 1 \<or> j = 2 * i + 2"
  unfolding parent_of_def by presburger

lemma length_swap [simp]: "length (swap a i j) = length a"
  by (simp add: swap_def)

lemma nth_swap:
  "i < length a \<Longrightarrow> j < length a \<Longrightarrow>
   swap a i j ! m = (if m = i then a ! j else if m = j then a ! i else a ! m)"
  by (auto simp: swap_def nth_list_update)

lemma mset_take_swap:
  assumes "i < n" "j < n" "n \<le> length a"
  shows "mset (take n (swap a i j)) = mset (take n a)"
proof -
  have "take n (swap a i j) = (take n a)[i := take n a ! j, j := take n a ! i]"
    using assms by (simp add: swap_def take_update_swap)
  also have "mset \<dots> = mset (take n a)"
    by (rule mset_swap) (use assms in auto)
  finally show ?thesis .
qed

lemma up_hole_step:
  assumes up: "up_hole st a n i" and i: "0 < i"
    and less: "tq st (a ! i) < tq st (a ! parent_of i)"
  shows "up_hole st (swap a i (parent_of i)) n (parent_of i)"
proof -
  let ?p = "parent_of i"
  have p: "?p < i" "i < n" "n \<le> length a" using up i by (auto simp: up_hole_def)
  have at: "swap a i ?p ! m = (if m = i then a ! ?p else if m = ?p then a ! i else a ! m)" for m
    using p by (intro nth_swap) auto
  have edge: "tq st (swap a i ?p ! parent_of j) \<le> tq st (swap a i ?p ! j)"
    if j: "j < n" "0 < j" "j \<noteq> ?p" for j
  proof -
    have pj: "parent_of j < j" using j by simp
    consider "j = i" | "parent_of j = i" "j \<noteq> i" | "parent_of j = ?p" "j \<noteq> i"
      | "parent_of j \<noteq> ?p" "parent_of j \<noteq> i" "j \<noteq> i"
      by blast
    then show ?thesis
    proof cases
      case 1
      with less p show ?thesis by (simp add: at)
    next
      case 2
      then have "tq st (a ! ?p) \<le> tq st (a ! j)" using up i j by (auto simp: up_hole_def)
      with 2 j show ?thesis by (simp add: at)
    next
      case 3
      then have "tq st (a ! ?p) \<le> tq st (a ! j)" using up j unfolding up_hole_def by metis
      with 3 j p less show ?thesis by (simp add: at)
    next
      case 4
      with up j show ?thesis by (simp add: at up_hole_def)
    qed
  qed
  have grand: "tq st (swap a i ?p ! parent_of ?p) \<le> tq st (swap a i ?p ! j)"
    if j: "j < n" "0 < j" "0 < ?p" "parent_of j = ?p" for j
  proof -
    have pp: "parent_of ?p < ?p" using j by simp
    have e: "tq st (a ! parent_of ?p) \<le> tq st (a ! ?p)"
      using up p j by (auto simp: up_hole_def)
    have "j \<noteq> ?p" using j by (metis parent_less less_irrefl)
    moreover have "tq st (a ! ?p) \<le> tq st (a ! j)" if "j \<noteq> i"
      using up j that unfolding up_hole_def by metis
    ultimately show ?thesis using pp p e by (auto simp: at)
  qed
  show ?thesis using p edge grand by (auto simp: up_hole_def)
qed

lemma up_hole_done:
  assumes "up_hole st a n i" "0 < i \<Longrightarrow> tq st (a ! parent_of i) \<le> tq st (a ! i)"
  shows "heap_ok st a n"
  using assms unfolding up_hole_def heap_ok_def by metis

lemma sift_up_correct:
  assumes "up_hole st a n i"
  shows "heap_ok st (sift_up st a i) n \<and> mset (take n (sift_up st a i)) = mset (take n a) \<and>
    length (sift_up st a i) = length a"
  using assms
proof (induction st a i rule: sift_up.induct)
  case (1 st a i)
  let ?p = "parent_of i"
  show ?case
  proof (cases "0 < i \<and> tq st (a ! i) < tq st (a ! ?p)")
    case True
    then have "up_hole st (swap a i ?p) n ?p" using "1.prems" by (intro up_hole_step) auto
    with True 1 have IH: "heap_ok st (sift_up st (swap a i ?p) ?p) n"
      "mset (take n (sift_up st (swap a i ?p) ?p)) = mset (take n (swap a i ?p))"
      "length (sift_up st (swap a i ?p) ?p) = length a" by auto
    have "i < n" "?p < n" "n \<le> length a"
      using "1.prems" True by (auto simp: up_hole_def intro: le_less_trans [OF parent_le])
    with IH True show ?thesis
      by (simp add: sift_up.simps [of st a i] mset_take_swap Let_def)
  next
    case False
    with "1.prems" have "heap_ok st a n" by (intro up_hole_done) auto
    with False show ?thesis by (auto simp: sift_up.simps [of st a i] Let_def)
  qed
qed

lemma smallest_of_cases:
  assumes "2 * i + 1 < n"
  obtains (here) "smallest_of st a n i = i"
      "\<And>j. j < n \<Longrightarrow> 0 < j \<Longrightarrow> parent_of j = i \<Longrightarrow> tq st (a ! i) \<le> tq st (a ! j)"
  | (child) s where "smallest_of st a n i = s" "s < n" "i < s" "parent_of s = i"
      "tq st (a ! s) < tq st (a ! i)"
      "\<And>j. j < n \<Longrightarrow> 0 < j \<Longrightarrow> parent_of j = i \<Longrightarrow> tq st (a ! s) \<le> tq st (a ! j)"
proof -
  let ?s = "smallest_of st a n i"
  have min: "tq st (a ! ?s) \<le> tq st (a ! j)" if "j < n" "0 < j" "parent_of j = i" for j
    using that by (auto simp: parent_of_child smallest_of_def Let_def)
  show ?thesis
  proof (cases "?s = i")
    case True
    then show ?thesis using min by (intro here) auto
  next
    case False
    then have "?s < n" "i < ?s" "parent_of ?s = i" "tq st (a ! ?s) < tq st (a ! i)"
      using assms by (auto simp: smallest_of_def Let_def parent_of_def split: if_splits)
    then show ?thesis using min by (intro child) auto
  qed
qed

lemma down_hole_step:
  assumes down: "down_hole st a n i" and s: "s < n" "i < s" "parent_of s = i"
    and min: "\<And>j. j < n \<Longrightarrow> 0 < j \<Longrightarrow> parent_of j = i \<Longrightarrow> tq st (a ! s) \<le> tq st (a ! j)"
  shows "down_hole st (swap a i s) n s"
proof -
  have len: "i < n" "n \<le> length a" using down by (auto simp: down_hole_def)
  have at: "swap a i s ! m = (if m = i then a ! s else if m = s then a ! i else a ! m)" for m
    using len s by (intro nth_swap) auto
  have edge: "tq st (swap a i s ! parent_of j) \<le> tq st (swap a i s ! j)"
    if j: "j < n" "0 < j" "j \<noteq> s" "parent_of j \<noteq> s" for j
  proof -
    have pj: "parent_of j < j" using j by simp
    consider "j = i" | "parent_of j = i" "j \<noteq> i" | "parent_of j \<noteq> i" "j \<noteq> i" by blast
    then show ?thesis
    proof cases
      case 1
      then have "tq st (a ! parent_of i) \<le> tq st (a ! s)"
        using down s j by (auto simp: down_hole_def)
      with 1 j pj s show ?thesis by (simp add: at)
    next
      case 2
      with min j s show ?thesis by (simp add: at)
    next
      case 3
      with down j show ?thesis by (simp add: at down_hole_def)
    qed
  qed
  have grand: "tq st (swap a i s ! parent_of s) \<le> tq st (swap a i s ! j)"
    if j: "j < n" "0 < j" "parent_of j = s" for j
  proof -
    have "s < j" using j by (metis parent_less)
    then have "tq st (a ! parent_of j) \<le> tq st (a ! j)"
      using down s j unfolding down_hole_def by (metis less_irrefl less_asym)
    with \<open>s < j\<close> j s show ?thesis by (simp add: at)
  qed
  show ?thesis using len s edge grand by (auto simp: down_hole_def)
qed

lemma sift_down_correct:
  assumes "down_hole st a n i"
  shows "up_hole st (fst (sift_down st a n i)) n (snd (sift_down st a n i)) \<and>
    mset (take n (fst (sift_down st a n i))) = mset (take n a) \<and>
    length (fst (sift_down st a n i)) = length a \<and>
    ((0 < i \<longrightarrow> tq st (a ! parent_of i) \<le> tq st (a ! i)) \<longrightarrow>
       heap_ok st (fst (sift_down st a n i)) n)"
  using assms
proof (induction st a n i rule: sift_down.induct)
  case (1 st a n i)
  have settled: ?case if "sift_down st a n i = (a, i)"
    "\<And>j. j < n \<Longrightarrow> 0 < j \<Longrightarrow> parent_of j = i \<Longrightarrow> tq st (a ! i) \<le> tq st (a ! j)"
  proof -
    have "up_hole st a n i" using "1.prems" that by (auto simp: down_hole_def up_hole_def)
    with that show ?thesis by (auto intro: up_hole_done)
  qed
  show ?case
  proof (cases "2 * i + 1 < n")
    case False
    then show ?thesis
      by (intro settled) (auto simp: sift_down.simps [of st a n i] parent_of_child)
  next
    case left: True
    then show ?thesis
    proof (cases rule: smallest_of_cases [of i n st a])
      case here
      with left show ?thesis
        by (intro settled) (auto simp: sift_down.simps [of st a n i] Let_def)
    next
      case (child s)
      let ?b = "swap a i s"
      have eq: "sift_down st a n i = sift_down st ?b n s"
        using left child by (auto simp: sift_down.simps [of st a n i] Let_def)
      have hole: "down_hole st ?b n s"
        using "1.prems" child by (intro down_hole_step) auto
      have len: "i < length a" "s < length a"
        using "1.prems" child by (auto simp: down_hole_def)
      then have "tq st (?b ! parent_of s) \<le> tq st (?b ! s)"
        using child by (simp add: nth_swap)
      with hole have IH: "up_hole st (fst (sift_down st ?b n s)) n (snd (sift_down st ?b n s))"
        "heap_ok st (fst (sift_down st ?b n s)) n"
        "mset (take n (fst (sift_down st ?b n s))) = mset (take n ?b)"
        "length (fst (sift_down st ?b n s)) = length a"
        using 1 left child by auto
      have m: "mset (take n ?b) = mset (take n a)"
        using "1.prems" child by (intro mset_take_swap) (auto simp: down_hole_def)
      with IH m eq show ?thesis by simp
    qed
  qed
qed

lemma heap_root_min:
  assumes "heap_ok st a n" "i < n"
  shows "tq st (a ! 0) \<le> tq st (a ! i)"
  using assms(2)
proof (induction i rule: less_induct)
  case (less i)
  show ?case
  proof (cases "i = 0")
    case True
    then show ?thesis by simp
  next
    case False
    then have "parent_of i < i" by simp
    with less have "tq st (a ! 0) \<le> tq st (a ! parent_of i)" by (meson less_trans)
    also have "\<dots> \<le> tq st (a ! i)" using assms(1) less.prems False by (simp add: heap_ok_def)
    finally show ?thesis .
  qed
qed

lemma mset_overwrite:
  assumes "i < n" "n < length a"
  shows "mset (take n (a[i := a ! n])) = mset (take (Suc n) a) - {#a ! i#}"
proof -
  have "mset (take n (a[i := a ! n])) = mset ((take n a)[i := a ! n])"
    by (simp add: take_update_swap)
  also have "\<dots> = add_mset (a ! n) (mset (take n a) - {#a ! i#})"
    using assms by (simp add: mset_update)
  also have "\<dots> = add_mset (a ! n) (mset (take n a)) - {#a ! i#}"
  proof -
    have "a ! i \<in># mset (take n a)" using assms by (auto simp: in_set_conv_nth)
    then show ?thesis by simp
  qed
  finally show ?thesis using assms by (simp add: take_Suc_conv_app_nth)
qed

lemma down_hole_overwrite:
  assumes "heap_ok st a (Suc n)" "i < n" "n < length a"
  shows "down_hole st (a[i := a ! n]) n i"
proof -
  have e: "tq st (a ! parent_of j) \<le> tq st (a ! j)" if "j \<le> n" "0 < j" for j
    using assms that by (simp add: heap_ok_def)
  have at: "a[i := v] ! m = (if m = i then v else a ! m)" for v m
    using assms by simp
  have "tq st (a ! parent_of i) \<le> tq st (a ! j)" if "j < n" "0 < j" "0 < i" "parent_of j = i" for j
    using e [of j] e [of i] that assms by simp
  moreover have "parent_of i \<noteq> i" "parent_of j = i \<Longrightarrow> j \<noteq> i" if "0 < i" for j
    using that by (metis parent_less less_irrefl)+
  ultimately show ?thesis using assms e unfolding down_hole_def at by auto
qed

lemma up_hole_append:
  assumes "heap_ok st a n" "n < length a"
  shows "up_hole st (a[n := x]) (Suc n) n"
proof -
  have "a[n := x] ! parent_of j = a ! parent_of j" if "j < n" for j
    using that by (metis le_less_trans less_irrefl nth_list_update_neq parent_le)
  moreover have "parent_of j \<noteq> n" if "0 < j" "j < Suc n" for j
    using that by (metis less_Suc_eq_le not_less parent_less)
  ultimately show ?thesis using assms
    unfolding up_hole_def heap_ok_def by (auto simp: less_Suc_eq)
qed

section \<open>The heap as a priority queue\<close>

definition heap_inv :: "tcbs \<Rightarrow> minHeap \<Rightarrow> bool" where
  "heap_inv st h \<longleftrightarrow> threads h \<le> threshold h \<and> 0 < threshold h \<and>
     length (arr h) = threshold h \<and> heap_ok st (arr h) (threads h)"

definition items :: "minHeap \<Rightarrow> tptr multiset" where
  "items h = mset (take (threads h) (arr h))"

lemma size_items: "heap_inv st h \<Longrightarrow> size (items h) = threads h"
  by (simp add: heap_inv_def items_def)

lemma items_empty: "heap_inv st h \<Longrightarrow> items h = {#} \<longleftrightarrow> threads h = 0"
  by (metis size_items size_eq_0_iff_empty)

lemma initHeap_correct:
  "0 < c \<Longrightarrow> initHeap avail h c = (0, h') \<Longrightarrow> heap_inv st h' \<and> items h' = {#}"
  by (auto simp: initHeap_def heap_inv_def items_def heap_ok_def split: if_splits)

lemma heapResize_correct:
  assumes "heap_inv st h" "heapResize avail h = (r, h')"
  shows "heap_inv st h' \<and> items h' = items h \<and> threads h' = threads h \<and>
    (r = 0 \<and> threshold h' = 2 * threshold h \<or> r = -1 \<and> h' = h)"
proof (cases "avail (8 * (threshold h * 2))")
  case False
  with assms show ?thesis by (auto simp: heapResize_def)
next
  case True
  have at: "(arr h @ xs) ! j = arr h ! j" if "j < threads h" for j xs
    using that assms(1) by (simp add: heap_inv_def nth_append)
  have "parent_of j < threads h" if "j < threads h" for j
    using that by (meson le_less_trans parent_le)
  with True assms show ?thesis
    by (auto simp: heapResize_def heap_inv_def heap_ok_def items_def at Let_def)
qed

lemma enqueue_correct:
  assumes "heap_inv st h"
  obtains r h' where "enqueue avail st h p = Some (r, h')" "heap_inv st h'"
    "r = 0 \<and> items h' = add_mset p (items h) \<and> threads h' = threads h + 1 \<or> r = -1 \<and> h' = h"
proof -
  obtain r h1 where r: "(if threads h = threshold h then heapResize avail h else (0, h)) = (r, h1)"
    by (cases "if threads h = threshold h then heapResize avail h else (0, h)") blast
  show ?thesis
  proof (cases "r = -1")
    case True
    with r assms have "h1 = h" by (auto split: if_splits dest: heapResize_correct)
    with True r assms show ?thesis by (intro that [of "-1" h]) (auto simp: enqueue_def)
  next
    case False
    with r assms have h1: "heap_inv st h1" "items h1 = items h" "threads h1 = threads h"
      "threads h1 < threshold h1"
      using heapResize_correct [OF assms] by (force split: if_splits simp: heap_inv_def)+
    let ?n = "threads h1" and ?a = "(arr h1)[threads h1 := p]"
    have len: "?n < length (arr h1)" using h1 by (simp add: heap_inv_def)
    have up: "up_hole st ?a (Suc ?n) ?n"
      using h1 len by (intro up_hole_append) (auto simp: heap_inv_def)
    have "mset (take (Suc ?n) ?a) = add_mset p (items h)"
      using len h1(2) by (simp add: take_Suc_conv_app_nth items_def)
    with sift_up_correct [OF up] h1 len False r show ?thesis
      by (intro that [of 0 "h1\<lparr>arr := sift_up st ?a ?n, threads := ?n + 1\<rparr>"])
        (auto simp: enqueue_def heap_inv_def items_def Let_def)
  qed
qed

lemma dequeue_empty: "threads h = 0 \<Longrightarrow> dequeue st h = Some (None, h)"
  by (simp add: dequeue_def)

lemma dequeue_correct:
  assumes inv: "heap_inv st h" and ne: "threads h \<noteq> 0"
  obtains h' where "dequeue st h = Some (Some (arr h ! 0), h')" "heap_inv st h'"
    "items h = add_mset (arr h ! 0) (items h')" "threshold h' = threshold h"
    "\<And>q. q \<in># items h \<Longrightarrow> tq st (arr h ! 0) \<le> tq st q"
proof -
  obtain n where n: "threads h = Suc n" using ne by (cases "threads h") auto
  let ?a = "(arr h)[0 := arr h ! n]"
  have len: "n < length (arr h)" using inv n by (simp add: heap_inv_def)
  have ok: "heap_ok st (arr h) (Suc n)" using inv n by (simp add: heap_inv_def)
  have root: "arr h ! 0 \<in># items h"
    using n len by (auto simp: items_def in_set_conv_nth intro!: exI [of _ 0])
  have body: "heap_ok st (fst (sift_down st ?a n 0)) n \<and>
      mset (take n (fst (sift_down st ?a n 0))) = items h - {#arr h ! 0#} \<and>
      length (fst (sift_down st ?a n 0)) = length (arr h)"
  proof (cases "n = 0")
    case True
    then show ?thesis using n len
      by (simp add: sift_down.simps [of st _ 0 0] heap_ok_def items_def take_Suc_conv_app_nth)
  next
    case False
    then show ?thesis
      using sift_down_correct [OF down_hole_overwrite [OF ok _ len, of 0]] len n
      by (simp add: mset_overwrite items_def)
  qed
  show ?thesis
  proof (rule that [of "h\<lparr>arr := fst (sift_down st ?a n 0), threads := n\<rparr>"])
    show "tq st (arr h ! 0) \<le> tq st q" if "q \<in># items h" for q
      using that n len heap_root_min [OF ok] by (auto simp: items_def in_set_conv_nth)
  qed (use inv n len body root in \<open>auto simp: dequeue_def heap_inv_def items_def Let_def\<close>)
qed

lemma searchByTID_Some:
  assumes "heap_inv st h" "searchByTID st h t = Some p"
  shows "p \<in># items h \<and> tID (st p) = t"
  using assms by (auto simp: searchByTID_def first_clear_Some heap_inv_def items_def in_set_conv_nth)

lemma searchByTID_None:
  assumes "heap_inv st h"
  shows "searchByTID st h t = None \<longleftrightarrow> (\<forall>p. p \<in># items h \<longrightarrow> tID (st p) \<noteq> t)"
  using assms by (auto simp: searchByTID_def first_clear_None heap_inv_def items_def in_set_conv_nth)

lemma removeNode_absent: "searchByTID st h t = None \<Longrightarrow> removeNode st h t = (-1, h)"
  by (simp add: removeNode_def)

lemma removeNode_present:
  assumes inv: "heap_inv st h" and p: "searchByTID st h t = Some p"
  obtains h' where "removeNode st h t = (0, h')" "heap_inv st h'"
    "items h = add_mset p (items h')" "threshold h' = threshold h"
proof -
  have mem: "p \<in># items h" using searchByTID_Some [OF inv p] by blast
  then obtain i where i: "first_clear (\<lambda>i. arr h ! i \<noteq> p) 0 (threads h) = Some i"
    using inv by (cases "first_clear (\<lambda>i. arr h ! i \<noteq> p) 0 (threads h)")
      (auto simp: first_clear_None items_def in_set_conv_nth heap_inv_def)
  then have ip: "i < threads h" "arr h ! i = p" by (auto simp: first_clear_Some)
  then obtain n where n: "threads h = Suc n" by (cases "threads h") auto
  have len: "n < length (arr h)" using inv n by (simp add: heap_inv_def)
  have ok: "heap_ok st (arr h) (Suc n)" using inv n by (simp add: heap_inv_def)
  let ?a = "(arr h)[i := arr h ! n]"
  show ?thesis
  proof (cases "i = n")
    case True
    with ip n len have "items h = add_mset p (items (h\<lparr>threads := n\<rparr>))"
      by (simp add: items_def take_Suc_conv_app_nth)
    moreover have "heap_inv st (h\<lparr>threads := n\<rparr>)"
      using inv n by (simp add: heap_inv_def heap_ok_def)
    ultimately show ?thesis using p i n True
      by (intro that [of "h\<lparr>threads := n\<rparr>"]) (simp_all add: removeNode_def)
  next
    case False
    then have "i < n" using ip n by simp
    obtain b j where b: "sift_down st ?a n i = (b, j)" by fastforce
    have down: "up_hole st b n j" "mset (take n b) = items h - {#p#}" "length b = length (arr h)"
      using sift_down_correct [OF down_hole_overwrite [OF ok \<open>i < n\<close> len]] b ip n len \<open>i < n\<close>
      by (simp_all add: mset_overwrite items_def)
    then show ?thesis
      using sift_up_correct [OF down(1)] inv n len p i False b mem
      by (intro that [of "h\<lparr>threads := n, arr := sift_up st b j\<rparr>"])
        (auto simp: removeNode_def heap_inv_def items_def Let_def)
  qed
qed

text \<open>The contract of a priority queue with smallest key first.\<close>

locale prio_queue =
  fixes inv :: "'q \<Rightarrow> bool"
    and elems :: "'q \<Rightarrow> 'a multiset"
    and key :: "'a \<Rightarrow> int"
    and ins :: "'q \<Rightarrow> 'a \<Rightarrow> (int \<times> 'q) option"
    and del :: "'q \<Rightarrow> ('a option \<times> 'q) option"
  assumes ins_law: "inv q \<Longrightarrow> \<exists>r q'. ins q x = Some (r, q') \<and> inv q' \<and>
      (r = 0 \<and> elems q' = add_mset x (elems q) \<or> r = -1 \<and> q' = q)"
    and del_none: "inv q \<Longrightarrow> elems q = {#} \<Longrightarrow> del q = Some (None, q)"
    and del_law: "inv q \<Longrightarrow> elems q \<noteq> {#} \<Longrightarrow> \<exists>x q'. del q = Some (Some x, q') \<and> inv q' \<and>
      elems q = add_mset x (elems q') \<and> (\<forall>y. y \<in># elems q \<longrightarrow> key x \<le> key y)"

text \<open>Taking elements out until none is left: the order in which a scheduler would run them.\<close>

primrec drain :: "('q \<Rightarrow> ('a option \<times> 'q) option) \<Rightarrow> nat \<Rightarrow> 'q \<Rightarrow> 'a list option" where
  "drain del 0 q = Some []"
| "drain del (Suc n) q =
     (case del q of
        None \<Rightarrow> None
      | Some (None, q') \<Rightarrow> Some []
      | Some (Some x, q') \<Rightarrow> map_option ((#) x) (drain del n q'))"

context prio_queue
begin

lemma ins_inv: "inv q \<Longrightarrow> ins q x = Some (r, q') \<Longrightarrow> inv q'"
  using ins_law [of q x] by auto

lemma del_inv: "inv q \<Longrightarrow> del q = Some (r, q') \<Longrightarrow> inv q'"
  using del_law [of q] del_none [of q] by (cases "elems q = {#}") auto

lemma drain_sorted:
  "inv q \<Longrightarrow> size (elems q) \<le> n \<Longrightarrow>
   \<exists>xs. drain del n q = Some xs \<and> mset xs = elems q \<and> sorted (map key xs)"
proof (induction n arbitrary: q)
  case 0
  then show ?case by simp
next
  case (Suc n)
  show ?case
  proof (cases "elems q = {#}")
    case True
    with Suc.prems show ?thesis by (simp add: del_none)
  next
    case False
    with del_law [OF Suc.prems(1)] obtain x q' where
      q': "del q = Some (Some x, q')" "inv q'" "elems q = add_mset x (elems q')"
        "\<forall>y. y \<in># elems q \<longrightarrow> key x \<le> key y" by blast
    with Suc obtain xs where
      xs: "drain del n q' = Some xs" "mset xs = elems q'" "sorted (map key xs)"
      by fastforce
    have "set xs = set_mset (elems q')" using xs(2) by (metis set_mset_mset)
    with q' xs show ?thesis by simp
  qed
qed

end

interpretation mh: prio_queue "heap_inv st" items "tq st" "enqueue avail st" "dequeue st"
  for st avail
proof unfold_locales
  fix q x
  assume inv: "heap_inv st q"
  show "\<exists>r q'. enqueue avail st q x = Some (r, q') \<and> heap_inv st q' \<and>
      (r = 0 \<and> items q' = add_mset x (items q) \<or> r = -1 \<and> q' = q)"
    using inv by (rule enqueue_correct [of st q avail x]) blast
  show "dequeue st q = Some (None, q)" if "items q = {#}"
    using that inv by (simp add: items_empty dequeue_empty)
  show "\<exists>x q'. dequeue st q = Some (Some x, q') \<and> heap_inv st q' \<and>
      items q = add_mset x (items q') \<and> (\<forall>y. y \<in># items q \<longrightarrow> tq st x \<le> tq st y)"
    if "items q \<noteq> {#}"
  proof -
    have ne: "threads q \<noteq> 0" using that inv by (simp add: items_empty)
    show ?thesis
      by (rule dequeue_correct [OF inv ne], intro exI conjI allI impI, assumption+)
  qed
qed

section \<open>The heap of thread-worker.h is correct\<close>

text \<open>
  C20. Whatever was enqueued, dequeuing until the heap is empty returns every element exactly
  once, in ascending order of \<open>timeQuant\<close>.
\<close>

theorem dequeue_order:
  assumes "heap_inv st h"
  shows "\<exists>xs. drain (dequeue st) (threads h) h = Some xs \<and> mset xs = items h \<and>
    sorted (map (tq st) xs)"
  using mh.drain_sorted [OF assms] size_items [OF assms] by simp

text \<open>
  C27. \<open>removeNode\<close> on a heap that holds a thread with the given identifier takes exactly one
  such thread out and leaves a heap; otherwise it returns -1 and changes nothing.
\<close>

theorem removeNode_spec:
  assumes "heap_inv st h" "removeNode st h t = (r, h')"
  shows "heap_inv st h' \<and>
    (if \<exists>p. p \<in># items h \<and> tID (st p) = t
     then r = 0 \<and> (\<exists>p. tID (st p) = t \<and> items h = add_mset p (items h'))
     else r = -1 \<and> h' = h)"
proof (cases "searchByTID st h t")
  case None
  then show ?thesis
    using assms searchByTID_None [OF assms(1)] removeNode_absent by fastforce
next
  case (Some p)
  obtain h2 where "removeNode st h t = (0, h2)" "heap_inv st h2" "items h = add_mset p (items h2)"
    by (rule removeNode_present [OF assms(1) Some])
  then show ?thesis
    using assms(2) searchByTID_Some [OF assms(1) Some] by auto
qed

definition idle_tcb :: "int \<Rightarrow> int \<Rightarrow> tcb" where
  "idle_tcb t q = \<lparr>tID = t, state = READY, ctx = Suspended, stack = 0, priority = 0, pc = 0,
     next_tcb = None, retValue = 0, timeQuant = q\<rparr>"

definition sample_tcbs :: tcbs where
  "sample_tcbs p = idle_tcb (int p) (10 - int p)"

definition sample_heap :: minHeap where
  "sample_heap = \<lparr>arr = [7, 5, 4, 3], threads = 4, threshold = 4\<rparr>"

lemma sample_heap_inv: "heap_inv sample_tcbs sample_heap"
  by (auto simp: heap_inv_def sample_heap_def heap_ok_def sample_tcbs_def idle_tcb_def
      parent_of_def numeral_eq_Suc less_Suc_eq)

theorem dequeue_order_witness:
  "\<exists>xs. drain (dequeue sample_tcbs) (threads sample_heap) sample_heap = Some xs \<and>
    mset xs = {#7, 5, 4, 3#} \<and> sorted (map (tq sample_tcbs) xs)"
  using dequeue_order [OF sample_heap_inv] by (simp add: items_def sample_heap_def)

theorem removeNode_spec_witness:
  "\<exists>h'. removeNode sample_tcbs sample_heap 5 = (0, h') \<and> heap_inv sample_tcbs h'"
proof -
  obtain r h' where r: "removeNode sample_tcbs sample_heap 5 = (r, h')" by fastforce
  have "5 \<in># items sample_heap \<and> tID (sample_tcbs 5) = 5"
    by (simp add: items_def sample_heap_def sample_tcbs_def idle_tcb_def)
  then have "\<exists>p. p \<in># items sample_heap \<and> tID (sample_tcbs p) = 5" by blast
  with removeNode_spec [OF sample_heap_inv r] r show ?thesis by auto
qed

text \<open>
  A heap that was never initialised, as the global run queue \<open>rq\<close> of
  \<open>thread-worker.c\<close>, has no slot: doubling its threshold leaves it 0, and the first
  \<open>enqueue\<close> writes outside the array, whatever the node and the memory available.
\<close>

lemma enqueue_uninitialised:
  "enqueue avail st \<lparr>arr = [], threads = 0, threshold = 0\<rparr> p =
     (if avail 0 then None else Some (-1, \<lparr>arr = [], threads = 0, threshold = 0\<rparr>))"
  by (simp add: enqueue_def heapResize_def)

end
