(* ===== verification/Worker.thy ===== *)
theory Worker
  imports MinHeap Complex_Main
begin

text \<open>
  The user-level thread library of \<open>project2-release/thread-worker.c\<close>: thread creation, yield,
  exit and join, the mutex, and the schedulers. A \<open>tcb\<close> is an entry of the store \<open>tcbmem\<close>; the
  global variables are the fields of \<open>sys\<close>. A call that switches context ends there: its outcome
  says where control goes (\<open>To_sched\<close> for \<open>schedCtx\<close>, \<open>To_thread p\<close> for the context of \<open>p\<close>,
  \<open>Exits n\<close> out of the process). What \<open>To_sched\<close> meets there is the field \<open>schedCtx\<close>.
  \<^term>\<open>None\<close> is a run that dereferences \<open>NULL\<close>, uses a freed \<open>tcb\<close> or leaves an array. What \<open>malloc\<close> and \<open>realloc\<close>
  answer is an argument, and so is what the block of a new \<open>tcb\<close> held before.
\<close>

section \<open>State\<close>

definition NUMQUEUES :: nat where "NUMQUEUES = 8"

text \<open>
  What \<open>schedCtx\<close> holds. The only writes to it are the \<open>swapcontext\<close> calls of the three policies, which
  save the point behind themselves in the activation of the policy that made them. Control comes back
  there once; then that activation, and the one of \<open>schedule\<close> that called it, have returned, and the
  context is as useless as the zeros it starts with.
\<close>

datatype sched_point = No_context | Behind_switch

record sys =
  tot_cntx_switches :: int
  avg_turn_time :: real
  avg_resp_time :: real
  threadID :: int
  schedCtx :: sched_point
  current :: "tptr option"
  rq :: minHeap
  mlfq :: "minHeap list"
  tcbmem :: tcbs
  freed_stacks :: "u64 list"
  freed_blocks :: "tptr list"

datatype control = Continue | To_sched | To_thread tptr | Exits int

text \<open>The mutex: \<open>locked\<close> is an \<open>int\<close> whose lowest byte the atomic operations set and clear.\<close>

record worker_mutex =
  locked :: u32
  next_mutex :: u64
  blockList :: minHeap

definition null_heap :: minHeap where
  "null_heap = \<lparr>arr = [], threads = 0, threshold = 0\<rparr>"

text \<open>The static initial state: every global variable is zero.\<close>

definition sys_boot :: "tcbs \<Rightarrow> sys" where
  "sys_boot m = \<lparr>tot_cntx_switches = 0, avg_turn_time = 0, avg_resp_time = 0, threadID = 0, schedCtx = No_context,
     current = None, rq = null_heap, mlfq = replicate NUMQUEUES null_heap, tcbmem = m, freed_stacks = [], freed_blocks = []\<rparr>"

definition update_tcb :: "tptr \<Rightarrow> (tcb \<Rightarrow> tcb) \<Rightarrow> sys \<Rightarrow> sys" where
  "update_tcb p f s = s\<lparr>tcbmem := (tcbmem s)(p := f (tcbmem s p))\<rparr>"

definition set_state :: "tptr \<Rightarrow> status \<Rightarrow> sys \<Rightarrow> sys" where
  "set_state p v = update_tcb p (\<lambda>t. t\<lparr>state := v\<rparr>)"

text \<open>\<open>enqueue(&rq, p)\<close>, its result ignored as every caller does.\<close>

definition enqueue_rq :: "(nat \<Rightarrow> bool) \<Rightarrow> tptr \<Rightarrow> sys \<Rightarrow> sys option" where
  "enqueue_rq avail p s = do {
     (_, h) \<leftarrow> enqueue avail (tcbmem s) (rq s) p;
     Some (s\<lparr>rq := h\<rparr>)
   }"

section \<open>Threads\<close>

text \<open>
  \<open>stk\<close> and \<open>blk\<close> are what the two \<open>malloc\<close> calls return; a block comes with the \<open>tcb\<close> its
  bytes happen to hold, of which the code sets five fields. A block that was freed before is in use
  again. The second result is \<open>*thread\<close>.
\<close>

definition worker_create ::
    "(nat \<Rightarrow> bool) \<Rightarrow> u64 \<Rightarrow> (tptr \<times> tcb) option \<Rightarrow> u64 \<Rightarrow> u64 \<Rightarrow> sys \<Rightarrow> (int \<times> int option \<times> sys) option" where
  "worker_create avail stk blk func arg s =
     (if stk = 0 then Some (-1, None, s)
      else let epicContext = Fresh func arg stk in
        case blk of
          None \<Rightarrow> Some (-1, None, s)
        | Some (block, garbage) \<Rightarrow> do {
            let t = garbage\<lparr>tID := threadID s, state := READY, ctx := epicContext, stack := stk,
                            next_tcb := None\<rparr>;
            let thread = threadID s;
            let s = s\<lparr>threadID := threadID s + 1, tcbmem := (tcbmem s)(block := t),
                      freed_blocks := removeAll block (freed_blocks s)\<rparr>;
            s \<leftarrow> enqueue_rq avail block s;
            Some (0, Some thread, s)
          })"

text \<open>The switches of the \<open>worker_\<close> functions, whose results they ignore, succeed.\<close>

definition worker_yield :: "(nat \<Rightarrow> bool) \<Rightarrow> sys \<Rightarrow> (control \<times> sys) option" where
  "worker_yield avail s =
     (case current s of
        None \<Rightarrow> None
      | Some p \<Rightarrow> do {
          let s = set_state p READY s;
          s \<leftarrow> enqueue_rq avail p s;
          let s = update_tcb p (\<lambda>t. t\<lparr>ctx := Suspended\<rparr>) s;
          Some (To_sched, s)
        })"

definition worker_exit :: "u64 \<Rightarrow> sys \<Rightarrow> (control \<times> sys) option" where
  "worker_exit value_ptr s =
     (case current s of
        None \<Rightarrow> None
      | Some p \<Rightarrow>
          let s = set_state p FINISHED s;
              s = update_tcb p (\<lambda>t. t\<lparr>retValue := value_ptr\<rparr>) s
          in Some (To_sched, s))"

text \<open>
  \<open>worker_join\<close> returns, or yields inside its loop; \<open>join_loop\<close> is the loop, entered again when
  the caller is resumed. \<open>vp\<close> says whether \<open>value_ptr\<close> is a valid pointer (writing through
  \<open>NULL\<close> stops the run); the second result is what is written to it. Looking at a \<open>tcb\<close> another join
  has freed is a fault.
\<close>

datatype join_outcome = Join_returns int "u64 option" | Join_yields tptr

definition join_loop :: "(nat \<Rightarrow> bool) \<Rightarrow> tptr \<Rightarrow> bool \<Rightarrow> sys \<Rightarrow> (join_outcome \<times> sys) option" where
  "join_loop avail block vp s = do {
     ensure (block \<notin> set (freed_blocks s));
     if state (tcbmem s block) \<noteq> FINISHED then do {
        (_, s) \<leftarrow> worker_yield avail s;
        Some (Join_yields block, s)
      } else do {
        ensure vp;
        let v = retValue (tcbmem s block);
        let (_, h) = removeNode (tcbmem s) (rq s) (tID (tcbmem s block));
        Some (Join_returns 0 (Some v),
          s\<lparr>rq := h, freed_stacks := stack (tcbmem s block) # freed_stacks s,
             freed_blocks := block # freed_blocks s\<rparr>)
      }
   }"

definition worker_join :: "(nat \<Rightarrow> bool) \<Rightarrow> int \<Rightarrow> bool \<Rightarrow> sys \<Rightarrow> (join_outcome \<times> sys) option" where
  "worker_join avail thread vp s =
     (case searchByTID (tcbmem s) (rq s) thread of
        None \<Rightarrow> Some (Join_returns (-1) None, s)
      | Some block \<Rightarrow> join_loop avail block vp s)"

section \<open>The mutex\<close>

definition worker_mutex_init :: "worker_mutex option \<Rightarrow> int \<times> worker_mutex option" where
  "worker_mutex_init m =
     (case m of Some x \<Rightarrow> (0, Some (x\<lparr>locked := 0\<rparr>)) | None \<Rightarrow> (-1, None))"

definition atomic_test_and_set :: "worker_mutex \<Rightarrow> bool \<times> worker_mutex" where
  "atomic_test_and_set m = (locked m AND 0xFF \<noteq> 0, m\<lparr>locked := (locked m AND 0xFFFFFF00) OR 1\<rparr>)"

definition atomic_clear :: "worker_mutex \<Rightarrow> worker_mutex" where
  "atomic_clear m = m\<lparr>locked := locked m AND 0xFFFFFF00\<rparr>"

text \<open>
  When the mutex is taken the thread leaves by \<open>setcontext\<close>, which saves nothing: the loop around
  it is not entered again.
\<close>

definition worker_mutex_lock :: "(nat \<Rightarrow> bool) \<Rightarrow> worker_mutex \<Rightarrow> sys \<Rightarrow> (control \<times> worker_mutex \<times> sys) option" where
  "worker_mutex_lock avail m s =
     (let (old, m) = atomic_test_and_set m in
      if old then
        (case current s of
           None \<Rightarrow> None
         | Some p \<Rightarrow> do {
             let s = set_state p BLOCKED s;
             let (_, h) = removeNode (tcbmem s) (rq s) (tID (tcbmem s p));
             let s = s\<lparr>rq := h\<rparr>;
             (_, b) \<leftarrow> enqueue avail (tcbmem s) (blockList m) p;
             Some (To_sched, m\<lparr>blockList := b\<rparr>, s)
           })
      else Some (Continue, m, s))"

definition worker_mutex_unlock :: "(nat \<Rightarrow> bool) \<Rightarrow> worker_mutex \<Rightarrow> sys \<Rightarrow> (int \<times> worker_mutex \<times> sys) option" where
  "worker_mutex_unlock avail m s =
     (let m = atomic_clear m in
      if threads (blockList m) \<noteq> 0 then do {
        (pop, b) \<leftarrow> dequeue (tcbmem s) (blockList m);
        let m = m\<lparr>blockList := b\<rparr>;
        p \<leftarrow> pop;
        let s = set_state p READY s;
        s \<leftarrow> enqueue_rq avail p s;
        Some (0, m, s)
      } else Some (0, m, s))"

text \<open>The second result: the mutex, or \<open>None\<close> when it was freed.\<close>

definition worker_mutex_destroy :: "worker_mutex \<Rightarrow> int \<times> worker_mutex option" where
  "worker_mutex_destroy m =
     (if locked m = 1 then (-1, Some m)
      else if threads (blockList m) \<noteq> 0 then (-1, Some m)
      else (0, None))"

section \<open>Statistics\<close>

text \<open>The three numbers \<open>print_app_stats\<close> prints.\<close>

definition print_app_stats :: "sys \<Rightarrow> int \<times> real \<times> real" where
  "print_app_stats s = (tot_cntx_switches s, avg_turn_time s, avg_resp_time s)"

end
