(* ===== verification/Scheduler.thy ===== *)
theory Scheduler
  imports Worker
begin

text \<open>
  The schedulers of \<open>project2-release/thread-worker.c\<close>: \<open>sched_psjf\<close>, \<open>init_mlfq\<close>, \<open>sched_mlfq\<close>,
  \<open>sched_cfs\<close> and \<open>schedule\<close>, with what they promise: which thread runs next, that no thread is
  lost, which time slice and level it gets.
\<close>

section \<open>Shortest job first\<close>

text \<open>What happens to the thread that was running.\<close>

definition release_finished :: "tptr \<Rightarrow> sys \<Rightarrow> sys" where
  "release_finished p s =
     (let s = (if stack (tcbmem s p) \<noteq> 0
               then update_tcb p (\<lambda>t. t\<lparr>stack := 0\<rparr>) (s\<lparr>freed_stacks := stack (tcbmem s p) # freed_stacks s\<rparr>)
               else s)
      in s\<lparr>current := None\<rparr>)"

definition psjf_retire :: "(nat \<Rightarrow> bool) \<Rightarrow> sys \<Rightarrow> sys option" where
  "psjf_retire avail s =
     (case current s of
        None \<Rightarrow> Some s
      | Some p \<Rightarrow>
          if state (tcbmem s p) = RUNNING then do {
            let s = set_state p READY s;
            s \<leftarrow> enqueue_rq avail p s;
            Some (s\<lparr>current := None\<rparr>)
          }
          else if state (tcbmem s p) = FINISHED then Some (release_finished p s)
          else Some (s\<lparr>current := None\<rparr>))"

text \<open>
  \<open>swapcontext(&schedCtx, &next->context)\<close> and the test of its result: it saves the point behind itself
  in \<open>schedCtx\<close> and goes to the thread, or fails and the process exits. \<open>sw\<close> says whether it succeeds.
\<close>

definition switch_to :: "bool \<Rightarrow> tptr \<Rightarrow> sys \<Rightarrow> control \<times> sys" where
  "switch_to sw p s = (if sw then (To_thread p, s\<lparr>schedCtx := Behind_switch\<rparr>) else (Exits 1, s))"

definition sched_psjf :: "(nat \<Rightarrow> bool) \<Rightarrow> bool \<Rightarrow> sys \<Rightarrow> (control \<times> sys) option" where
  "sched_psjf avail sw s = do {
     s \<leftarrow> psjf_retire avail s;
     (nxt, h) \<leftarrow> dequeue (tcbmem s) (rq s);
     let s = s\<lparr>rq := h\<rparr>;
     (case nxt of
        None \<Rightarrow> Some (Continue, s)
      | Some p \<Rightarrow>
          let s = set_state p RUNNING s;
              s = s\<lparr>current := Some p, tot_cntx_switches := tot_cntx_switches s + 1\<rparr>
          in Some (switch_to sw p s))
   }"

section \<open>Multi-level feedback queue\<close>

definition init_mlfq :: "(nat \<Rightarrow> bool) \<Rightarrow> sys \<Rightarrow> sys" where
  "init_mlfq avail s = s\<lparr>mlfq := map (\<lambda>h. snd (initHeap avail h 50)) (mlfq s)\<rparr>"

text \<open>\<open>enqueue(&mlfq[level], p)\<close>; a level outside the array stops the run.\<close>

definition enqueue_level :: "(nat \<Rightarrow> bool) \<Rightarrow> int \<Rightarrow> tptr \<Rightarrow> sys \<Rightarrow> sys option" where
  "enqueue_level avail level p s = do {
     ensure (0 \<le> level \<and> nat level < length (mlfq s));
     (_, h) \<leftarrow> enqueue avail (tcbmem s) (mlfq s ! nat level) p;
     Some (s\<lparr>mlfq := (mlfq s)[nat level := h]\<rparr>)
   }"

definition clamp_priority :: "int \<Rightarrow> int" where
  "clamp_priority x =
     (let x = (if x < 0 then 0 else x)
      in if int NUMQUEUES \<le> x then int NUMQUEUES - 1 else x)"

text \<open>The running thread goes back to its level, or one level down when its slice is used up.\<close>

definition mlfq_requeue :: "(nat \<Rightarrow> bool) \<Rightarrow> tptr \<Rightarrow> sys \<Rightarrow> sys option" where
  "mlfq_requeue avail p s =
     (if 0 < pc (tcbmem s p) then do {
        let s = update_tcb p (\<lambda>t. t\<lparr>pc := pc t - 1\<rparr>) s;
        if 0 < pc (tcbmem s p) then do {
          let s = set_state p READY s;
          let s = update_tcb p (\<lambda>t. t\<lparr>priority := clamp_priority (priority t)\<rparr>) s;
          enqueue_level avail (priority (tcbmem s p)) p s
        } else do {
          let s = (if priority (tcbmem s p) < int NUMQUEUES - 1
                   then update_tcb p (\<lambda>t. t\<lparr>priority := priority t + 1\<rparr>) s else s);
          let s = set_state p READY s;
          let s = update_tcb p (\<lambda>t. t\<lparr>pc := 0\<rparr>) s;
          enqueue_level avail (priority (tcbmem s p)) p s
        }
      } else do {
        let s = set_state p READY s;
        let s = update_tcb p (\<lambda>t. t\<lparr>priority := clamp_priority (priority t)\<rparr>) s;
        enqueue_level avail (priority (tcbmem s p)) p s
      })"

definition mlfq_retire :: "(nat \<Rightarrow> bool) \<Rightarrow> sys \<Rightarrow> sys option" where
  "mlfq_retire avail s =
     (case current s of
        None \<Rightarrow> Some s
      | Some p \<Rightarrow>
          if state (tcbmem s p) = RUNNING then do {
            s \<leftarrow> mlfq_requeue avail p s;
            Some (s\<lparr>current := None\<rparr>)
          }
          else if state (tcbmem s p) = FINISHED then Some (release_finished p s)
          else Some (s\<lparr>current := None\<rparr>))"

text \<open>The first level with a thread, its head, and the slice of two to the power of the level.\<close>

definition mlfq_dispatch :: "bool \<Rightarrow> sys \<Rightarrow> (control \<times> sys) option" where
  "mlfq_dispatch sw s =
     (case first_clear (\<lambda>lvl. \<not> 0 < threads (mlfq s ! lvl)) 0 NUMQUEUES of
        None \<Rightarrow> Some (Continue, s)
      | Some chosen_level \<Rightarrow> do {
          (nxt, h) \<leftarrow> dequeue (tcbmem s) (mlfq s ! chosen_level);
          let s = s\<lparr>mlfq := (mlfq s)[chosen_level := h]\<rparr>;
          (case nxt of
             None \<Rightarrow> Some (Continue, s)
           | Some p \<Rightarrow> do {
               let q = push_bit chosen_level 1;
               let timeslice_quanta = (if q \<le> 0 then 1 else q);
               let s = update_tcb p (\<lambda>t. t\<lparr>priority := int chosen_level, pc := timeslice_quanta, state := RUNNING\<rparr>) s;
               let s = s\<lparr>current := Some p, tot_cntx_switches := tot_cntx_switches s + 1\<rparr>;
               Some (switch_to sw p s)
             })
        })"

definition sched_mlfq :: "(nat \<Rightarrow> bool) \<Rightarrow> bool \<Rightarrow> sys \<Rightarrow> (control \<times> sys) option" where
  "sched_mlfq avail sw s = do {
     let s = init_mlfq avail s;
     s \<leftarrow> mlfq_retire avail s;
     mlfq_dispatch sw s
   }"

text \<open>\<open>sched_cfs\<close> is the body of \<open>sched_mlfq\<close> without the initialisation.\<close>

definition sched_cfs :: "(nat \<Rightarrow> bool) \<Rightarrow> bool \<Rightarrow> sys \<Rightarrow> (control \<times> sys) option" where
  "sched_cfs avail sw s = do {
     s \<leftarrow> mlfq_retire avail s;
     mlfq_dispatch sw s
   }"

section \<open>schedule\<close>

datatype policy = PSJF | MLFQ | CFS | No_policy

text \<open>
  \<open>schedule\<close> after it has switched the timer off; the policy is chosen when compiling. It ends where
  the policy returns or switches to a thread. When a thread switches to \<open>schedCtx\<close> later, the policy goes
  on behind its \<open>swapcontext\<close>, where nothing is left to do, and returns, and so does \<open>schedule\<close>.
\<close>

definition schedule :: "policy \<Rightarrow> (nat \<Rightarrow> bool) \<Rightarrow> bool \<Rightarrow> sys \<Rightarrow> (control \<times> sys) option" where
  "schedule pol avail sw s = do {
     s \<leftarrow> (case current s of
             None \<Rightarrow> Some s
           | Some p \<Rightarrow>
               if state (tcbmem s p) = RUNNING then do {
                 let s = set_state p READY s;
                 enqueue_rq avail p s
               }
               else if state (tcbmem s p) = FINISHED then Some (release_finished p s)
               else Some (s\<lparr>current := None\<rparr>));
     (case pol of
        PSJF \<Rightarrow> sched_psjf avail sw s
      | MLFQ \<Rightarrow> sched_mlfq avail sw s
      | CFS \<Rightarrow> sched_cfs avail sw s
      | No_policy \<Rightarrow> Some (Continue, s))
   }"

section \<open>The heaps see only the key\<close>

lemma heap_inv_cong: "(\<And>p. timeQuant (st' p) = timeQuant (st p)) \<Longrightarrow> heap_inv st' h = heap_inv st h"
  by (simp add: heap_inv_def heap_ok_def)

lemma heap_inv_update [simp]: "timeQuant t = timeQuant (st p) \<Longrightarrow> heap_inv (st(p := t)) h = heap_inv st h"
  by (rule heap_inv_cong) simp

lemma update_tcb_fields [simp]:
  "rq (update_tcb p f s) = rq s" "mlfq (update_tcb p f s) = mlfq s" "current (update_tcb p f s) = current s"
  "tot_cntx_switches (update_tcb p f s) = tot_cntx_switches s" "threadID (update_tcb p f s) = threadID s"
  "freed_stacks (update_tcb p f s) = freed_stacks s" "freed_blocks (update_tcb p f s) = freed_blocks s"
  "schedCtx (update_tcb p f s) = schedCtx s"
  "tcbmem (update_tcb p f s) = (tcbmem s)(p := f (tcbmem s p))"
  by (simp_all add: update_tcb_def)

lemma set_state_fields [simp]:
  "rq (set_state p v s) = rq s" "mlfq (set_state p v s) = mlfq s" "current (set_state p v s) = current s"
  "tot_cntx_switches (set_state p v s) = tot_cntx_switches s" "threadID (set_state p v s) = threadID s"
  "freed_stacks (set_state p v s) = freed_stacks s" "freed_blocks (set_state p v s) = freed_blocks s"
  "schedCtx (set_state p v s) = schedCtx s"
  "tcbmem (set_state p v s) = (tcbmem s)(p := (tcbmem s p)\<lparr>state := v\<rparr>)"
  by (simp_all add: set_state_def)

lemma release_finished_fields [simp]:
  "rq (release_finished p s) = rq s" "mlfq (release_finished p s) = mlfq s"
  "current (release_finished p s) = None" "schedCtx (release_finished p s) = schedCtx s"
  "tot_cntx_switches (release_finished p s) = tot_cntx_switches s"
  "timeQuant (tcbmem (release_finished p s) q) = timeQuant (tcbmem s q)"
  "state (tcbmem (release_finished p s) q) = state (tcbmem s q)"
  by (auto simp: release_finished_def Let_def)

lemma enqueue_avail:
  assumes "heap_inv st h" "\<forall>n. avail n"
  obtains h' where "enqueue avail st h p = Some (0, h')" "heap_inv st h'" "items h' = add_mset p (items h)"
proof -
  obtain r h' where h: "enqueue avail st h p = Some (r, h')" "heap_inv st h'"
    "r = 0 \<and> items h' = add_mset p (items h) \<and> threads h' = threads h + 1 \<or> r = -1 \<and> h' = h"
    by (rule enqueue_correct [OF assms(1)])
  have "r \<noteq> -1"
  proof
    assume "r = -1"
    then show False using h(1) assms(2)
      by (auto simp: enqueue_def heapResize_def Let_def split: if_splits)
  qed
  then show ?thesis using h that by blast
qed

lemma enqueue_rq_ok:
  assumes "heap_inv (tcbmem s) (rq s)" "\<forall>n. avail n"
  obtains h where "enqueue_rq avail p s = Some (s\<lparr>rq := h\<rparr>)" "heap_inv (tcbmem s) h"
    "items h = add_mset p (items (rq s))"
proof -
  obtain h where "enqueue avail (tcbmem s) (rq s) p = Some (0, h)" "heap_inv (tcbmem s) h"
    "items h = add_mset p (items (rq s))" by (rule enqueue_avail [OF assms])
  then show ?thesis by (intro that [of h]) (simp_all add: enqueue_rq_def)
qed

section \<open>Shortest job first is what it says\<close>

text \<open>The threads \<open>sched_psjf\<close> chooses from: the queue, and the running thread it puts back.\<close>

definition runnable :: "sys \<Rightarrow> tptr multiset" where
  "runnable s = items (rq s) +
     (case current s of None \<Rightarrow> {#} | Some p \<Rightarrow> if state (tcbmem s p) = RUNNING then {#p#} else {#})"

lemma psjf_retire_ok:
  assumes "heap_inv (tcbmem s) (rq s)" "\<forall>n. avail n"
  obtains t where "psjf_retire avail s = Some t" "heap_inv (tcbmem t) (rq t)" "items (rq t) = runnable s"
    "current t = None" "tot_cntx_switches t = tot_cntx_switches s" "tq (tcbmem t) = tq (tcbmem s)"
    "schedCtx t = schedCtx s"
proof (cases "current s")
  case None
  then show ?thesis using assms by (intro that [of s]) (simp_all add: psjf_retire_def runnable_def)
next
  case (Some p)
  show ?thesis
  proof (cases "state (tcbmem s p) = RUNNING")
    case True
    let ?s = "set_state p READY s"
    have "heap_inv (tcbmem ?s) (rq ?s)" using assms(1) by simp
    then obtain h where "enqueue_rq avail p ?s = Some (?s\<lparr>rq := h\<rparr>)" "heap_inv (tcbmem ?s) h"
      "items h = add_mset p (items (rq ?s))" using assms(2) by (rule enqueue_rq_ok)
    then show ?thesis
      using Some True by (intro that [of "?s\<lparr>rq := h, current := None\<rparr>"])
        (auto simp: psjf_retire_def runnable_def)
  next
    case False
    define t where "t = (if state (tcbmem s p) = FINISHED then release_finished p s else s\<lparr>current := None\<rparr>)"
    have q: "timeQuant (tcbmem t q) = timeQuant (tcbmem s q)" for q by (simp add: t_def)
    have "psjf_retire avail s = Some t" using Some False by (simp add: psjf_retire_def t_def)
    moreover have "heap_inv (tcbmem t) (rq t)"
      using assms(1) heap_inv_cong [of "tcbmem t" "tcbmem s", OF q] by (simp add: t_def)
    ultimately show ?thesis
      using Some False q by (intro that [of t]) (auto simp: runnable_def t_def)
  qed
qed

text \<open>
  C30. \<open>sched_psjf\<close> runs the thread with the smallest \<open>timeQuant\<close> among those in the run queue and
  the one that was running, which is put back; no thread is lost or duplicated. When there is
  none it returns and leaves no current thread. The switch leaves the point behind it in \<open>schedCtx\<close>;
  when it fails the process exits.
\<close>

theorem psjf_runs_shortest:
  assumes "heap_inv (tcbmem s) (rq s)" "\<forall>n. avail n"
  shows "\<exists>ctl s'. sched_psjf avail sw s = Some (ctl, s') \<and> heap_inv (tcbmem s') (rq s') \<and>
    (if runnable s = {#} then ctl = Continue \<and> current s' = None \<and> items (rq s') = {#} \<and> schedCtx s' = schedCtx s
     else \<exists>p. ctl = (if sw then To_thread p else Exits 1) \<and> current s' = Some p \<and> state (tcbmem s' p) = RUNNING \<and>
       runnable s = add_mset p (items (rq s')) \<and>
       (\<forall>q. q \<in># runnable s \<longrightarrow> timeQuant (tcbmem s p) \<le> timeQuant (tcbmem s q)) \<and>
       tot_cntx_switches s' = tot_cntx_switches s + 1 \<and> schedCtx s' = (if sw then Behind_switch else schedCtx s))"
proof -
  obtain t where t: "psjf_retire avail s = Some t" "heap_inv (tcbmem t) (rq t)" "items (rq t) = runnable s"
    "current t = None" "tot_cntx_switches t = tot_cntx_switches s" "tq (tcbmem t) = tq (tcbmem s)" "schedCtx t = schedCtx s"
    by (rule psjf_retire_ok [OF assms])
  show ?thesis
  proof (cases "runnable s = {#}")
    case True
    then have "dequeue (tcbmem t) (rq t) = Some (None, rq t)" using t(2,3) by (intro mh.del_none) auto
    moreover have "t\<lparr>rq := rq t\<rparr> = t" by (cases t) simp
    ultimately have "sched_psjf avail sw s = Some (Continue, t)" using t(1) by (simp add: sched_psjf_def)
    then show ?thesis using True t by auto
  next
    case False
    then obtain p h where h: "dequeue (tcbmem t) (rq t) = Some (Some p, h)" "heap_inv (tcbmem t) h"
      "runnable s = add_mset p (items h)" "\<forall>q. q \<in># runnable s \<longrightarrow> tq (tcbmem t) p \<le> tq (tcbmem t) q"
      using mh.del_law [of "tcbmem t" "rq t"] t(2,3) by auto
    let ?s = "set_state p RUNNING (t\<lparr>rq := h\<rparr>)\<lparr>current := Some p, tot_cntx_switches := tot_cntx_switches t + 1\<rparr>"
    have "sched_psjf avail sw s = Some (switch_to sw p ?s)" using t(1) h(1) by (simp add: sched_psjf_def)
    moreover have "heap_inv (tcbmem ?s) (rq ?s)" using h(2) by simp
    ultimately show ?thesis using False h t by (cases sw) (auto simp: fun_eq_iff switch_to_def)
  qed
qed

text \<open>
  Under PSJF \<open>schedule\<close> does what \<open>sched_psjf\<close> does: putting the running thread back before
  the policy runs, and finding it \<open>READY\<close> there, comes to the same as leaving that to the policy.
\<close>

lemma schedule_psjf: "schedule PSJF avail sw s = sched_psjf avail sw s"
proof (cases "current s")
  case None
  then show ?thesis by (simp add: schedule_def)
next
  case (Some p)
  show ?thesis
  proof (cases "state (tcbmem s p) = RUNNING")
    case True
    show ?thesis
    proof (cases "enqueue_rq avail p (set_state p READY s)")
      case None
      then show ?thesis using Some True by (simp add: schedule_def sched_psjf_def psjf_retire_def)
    next
      case (Some t)
      then have "current t = Some p" "state (tcbmem t p) = READY"
        using \<open>current s = Some p\<close> by (auto simp: enqueue_rq_def split: Option.bind_splits prod.splits)
      then have "psjf_retire avail t = Some (t\<lparr>current := None\<rparr>)" by (simp add: psjf_retire_def)
      moreover have "psjf_retire avail s = Some (t\<lparr>current := None\<rparr>)"
        using \<open>current s = Some p\<close> True Some by (simp add: psjf_retire_def)
      ultimately show ?thesis using \<open>current s = Some p\<close> True Some by (simp add: schedule_def sched_psjf_def)
    qed
  next
    case False
    then show ?thesis using Some
      by (simp add: schedule_def sched_psjf_def psjf_retire_def)
  qed
qed

section \<open>The feedback queue\<close>

text \<open>
  \<open>levels_ok\<close>: eight heaps. \<open>queued\<close>: the threads in them. \<open>level_after\<close>: the level the
  running thread is put back on, one lower when this was the last quantum of its slice.
\<close>

definition levels_ok :: "sys \<Rightarrow> bool" where
  "levels_ok s \<longleftrightarrow> length (mlfq s) = NUMQUEUES \<and> (\<forall>l<NUMQUEUES. heap_inv (tcbmem s) (mlfq s ! l))"

definition queued :: "sys \<Rightarrow> tptr multiset" where
  "queued s = (\<Sum>l<NUMQUEUES. items (mlfq s ! l))"

definition level_after :: "tcb \<Rightarrow> nat" where
  "level_after t = (if pc t = 1 then min (nat (priority t) + 1) 7 else nat (priority t))"

definition mlfq_runnable :: "sys \<Rightarrow> tptr multiset" where
  "mlfq_runnable s = queued s +
     (case current s of None \<Rightarrow> {#} | Some p \<Rightarrow> if state (tcbmem s p) = RUNNING then {#p#} else {#})"

lemma queued_update:
  assumes "l < NUMQUEUES" "length qs = NUMQUEUES"
  shows "(\<Sum>k<NUMQUEUES. items (qs[l := h] ! k)) + items (qs ! l) = (\<Sum>k<NUMQUEUES. items (qs ! k)) + items h"
proof -
  have "(\<Sum>k<NUMQUEUES. items (qs[l := h] ! k)) = items h + (\<Sum>k\<in>{..<NUMQUEUES} - {l}. items (qs[l := h] ! k))"
    using assms by (subst sum.remove [of _ l]) auto
  also have "(\<Sum>k\<in>{..<NUMQUEUES} - {l}. items (qs[l := h] ! k)) = (\<Sum>k\<in>{..<NUMQUEUES} - {l}. items (qs ! k))"
    by (rule sum.cong) auto
  finally have a: "(\<Sum>k<NUMQUEUES. items (qs[l := h] ! k)) =
      items h + (\<Sum>k\<in>{..<NUMQUEUES} - {l}. items (qs ! k))" .
  have "(\<Sum>k<NUMQUEUES. items (qs ! k)) = items (qs ! l) + (\<Sum>k\<in>{..<NUMQUEUES} - {l}. items (qs ! k))"
    using assms by (intro sum.remove) auto
  then show ?thesis using a by (simp add: ac_simps)
qed

lemma enqueue_level_ok:
  assumes ok: "levels_ok s" and l: "l < NUMQUEUES" and avail: "\<forall>n. avail n"
  obtains h where "enqueue_level avail (int l) p s = Some (s\<lparr>mlfq := (mlfq s)[l := h]\<rparr>)"
    "levels_ok (s\<lparr>mlfq := (mlfq s)[l := h]\<rparr>)" "queued (s\<lparr>mlfq := (mlfq s)[l := h]\<rparr>) = add_mset p (queued s)"
    "items h = add_mset p (items (mlfq s ! l))"
proof -
  have inv: "heap_inv (tcbmem s) (mlfq s ! l)" and len: "length (mlfq s) = NUMQUEUES"
    using ok l by (auto simp: levels_ok_def)
  obtain h where h: "enqueue avail (tcbmem s) (mlfq s ! l) p = Some (0, h)" "heap_inv (tcbmem s) h"
    "items h = add_mset p (items (mlfq s ! l))" by (rule enqueue_avail [OF inv avail])
  have "levels_ok (s\<lparr>mlfq := (mlfq s)[l := h]\<rparr>)"
    using ok h(2) len l by (auto simp: levels_ok_def nth_list_update)
  moreover have "queued (s\<lparr>mlfq := (mlfq s)[l := h]\<rparr>) = add_mset p (queued s)"
    using queued_update [OF l len, of h] h(3) by (simp add: queued_def)
  ultimately show ?thesis using h l len by (intro that [of h]) (simp_all add: enqueue_level_def)
qed

lemma levels_ok_update_tcb [simp]:
  "timeQuant (f (tcbmem s p)) = timeQuant (tcbmem s p) \<Longrightarrow> levels_ok (update_tcb p f s) = levels_ok s"
  by (simp add: levels_ok_def)

lemma queued_update_tcb [simp]: "queued (update_tcb p f s) = queued s"
  by (simp add: queued_def)

lemma set_state_levels [simp]: "levels_ok (set_state p v s) = levels_ok s" "queued (set_state p v s) = queued s"
  by (simp_all add: set_state_def)

lemma clamp_in_range: "0 \<le> x \<Longrightarrow> x < int NUMQUEUES \<Longrightarrow> clamp_priority x = x"
  by (simp add: clamp_priority_def Let_def)

lemma mlfq_requeue_ok:
  assumes ok: "levels_ok s" and avail: "\<forall>n. avail n"
    and range: "0 \<le> priority (tcbmem s p)" "priority (tcbmem s p) < int NUMQUEUES"
  obtains t where "mlfq_requeue avail p s = Some t" "levels_ok t" "queued t = add_mset p (queued s)"
    "p \<in># items (mlfq t ! level_after (tcbmem s p))" "state (tcbmem t p) = READY" "rq t = rq s"
    "tot_cntx_switches t = tot_cntx_switches s"
proof -
  let ?l = "level_after (tcbmem s p)"
  let ?t = "(tcbmem s p)\<lparr>priority := int ?l, state := READY,
      pc := (if 0 < pc (tcbmem s p) then pc (tcbmem s p) - 1 else pc (tcbmem s p))\<rparr>"
  define s1 where "s1 = s\<lparr>tcbmem := (tcbmem s)(p := ?t)\<rparr>"
  have l: "?l < NUMQUEUES" using range by (auto simp: level_after_def NUMQUEUES_def)
  have run: "mlfq_requeue avail p s = enqueue_level avail (int ?l) p s1"
  proof -
    consider "pc (tcbmem s p) = 1" "priority (tcbmem s p) < 7" | "pc (tcbmem s p) = 1" "priority (tcbmem s p) = 7"
      | "1 < pc (tcbmem s p)" | "pc (tcbmem s p) \<le> 0"
      using range by (force simp: NUMQUEUES_def)
    then show ?thesis
    proof cases
      case 1
      then have "int ?l = priority (tcbmem s p) + 1" using range by (simp add: level_after_def)
      then show ?thesis using 1
        by (simp add: mlfq_requeue_def s1_def Let_def NUMQUEUES_def update_tcb_def set_state_def)
    next
      case 2
      then have "int ?l = priority (tcbmem s p)" by (simp add: level_after_def)
      then show ?thesis using 2
        by (cases "tcbmem s p")
          (simp add: mlfq_requeue_def s1_def Let_def NUMQUEUES_def update_tcb_def set_state_def)
    next
      case 3
      then have "int ?l = priority (tcbmem s p)" "clamp_priority (priority (tcbmem s p)) = priority (tcbmem s p)"
        using range by (simp_all add: level_after_def clamp_in_range)
      then show ?thesis using 3
        by (cases "tcbmem s p") (simp add: mlfq_requeue_def s1_def Let_def update_tcb_def set_state_def)
    next
      case 4
      then have "int ?l = priority (tcbmem s p)" "clamp_priority (priority (tcbmem s p)) = priority (tcbmem s p)"
        using range by (simp_all add: level_after_def clamp_in_range)
      then show ?thesis using 4
        by (cases "tcbmem s p") (simp add: mlfq_requeue_def s1_def Let_def update_tcb_def set_state_def)
    qed
  qed
  have ok1: "levels_ok s1" "queued s1 = queued s" using ok by (simp_all add: s1_def levels_ok_def queued_def)
  obtain h where h: "enqueue_level avail (int ?l) p s1 = Some (s1\<lparr>mlfq := (mlfq s1)[?l := h]\<rparr>)"
    "levels_ok (s1\<lparr>mlfq := (mlfq s1)[?l := h]\<rparr>)"
    "queued (s1\<lparr>mlfq := (mlfq s1)[?l := h]\<rparr>) = add_mset p (queued s1)"
    "items h = add_mset p (items (mlfq s1 ! ?l))"
    by (rule enqueue_level_ok [OF ok1(1) l avail])
  have "?l < length (mlfq s1)" using ok1(1) l by (simp add: levels_ok_def)
  then show ?thesis
    using h run ok1(2) by (intro that [of "s1\<lparr>mlfq := (mlfq s1)[?l := h]\<rparr>"]) (auto simp: s1_def)
qed

lemma mlfq_retire_ok:
  assumes ok: "levels_ok s" and avail: "\<forall>n. avail n"
    and range: "\<And>p. current s = Some p \<Longrightarrow> state (tcbmem s p) = RUNNING \<Longrightarrow>
      0 \<le> priority (tcbmem s p) \<and> priority (tcbmem s p) < int NUMQUEUES"
  obtains t where "mlfq_retire avail s = Some t" "levels_ok t" "queued t = mlfq_runnable s" "current t = None"
    "tot_cntx_switches t = tot_cntx_switches s"
    "\<forall>p. current s = Some p \<longrightarrow> state (tcbmem s p) = RUNNING \<longrightarrow> p \<in># items (mlfq t ! level_after (tcbmem s p))"
proof (cases "current s")
  case None
  then show ?thesis using ok by (intro that [of s]) (simp_all add: mlfq_retire_def mlfq_runnable_def)
next
  case (Some p)
  show ?thesis
  proof (cases "state (tcbmem s p) = RUNNING")
    case True
    have r: "0 \<le> priority (tcbmem s p)" "priority (tcbmem s p) < int NUMQUEUES" using range [OF Some True] by auto
    obtain t where t: "mlfq_requeue avail p s = Some t" "levels_ok t" "queued t = add_mset p (queued s)"
      "p \<in># items (mlfq t ! level_after (tcbmem s p))" "tot_cntx_switches t = tot_cntx_switches s"
      by (rule mlfq_requeue_ok [OF ok avail r])
    then show ?thesis using Some True
      by (intro that [of "t\<lparr>current := None\<rparr>"])
        (simp_all add: mlfq_retire_def mlfq_runnable_def levels_ok_def queued_def)
  next
    case False
    define t where "t = (if state (tcbmem s p) = FINISHED then release_finished p s else s\<lparr>current := None\<rparr>)"
    have "timeQuant (tcbmem t q) = timeQuant (tcbmem s q)" for q by (simp add: t_def)
    then have "heap_inv (tcbmem t) h = heap_inv (tcbmem s) h" for h by (rule heap_inv_cong)
    moreover have "mlfq t = mlfq s" "current t = None" "tot_cntx_switches t = tot_cntx_switches s"
      by (simp_all add: t_def)
    moreover have "mlfq_retire avail s = Some t" using Some False by (simp add: mlfq_retire_def t_def)
    ultimately show ?thesis
      using ok Some False by (intro that [of t]) (simp_all add: mlfq_runnable_def levels_ok_def queued_def)
  qed
qed

lemma queued_empty:
  assumes "levels_ok s"
  shows "queued s = {#} \<longleftrightarrow> (\<forall>l<NUMQUEUES. threads (mlfq s ! l) = 0)"
proof -
  have "queued s = {#} \<longleftrightarrow> (\<forall>l<NUMQUEUES. items (mlfq s ! l) = {#})"
    unfolding queued_def set_mset_eq_empty_iff [symmetric] by (auto simp: set_mset_sum)
  moreover have "items (mlfq s ! l) = {#} \<longleftrightarrow> threads (mlfq s ! l) = 0" if "l < NUMQUEUES" for l
    using assms that by (intro items_empty [of "tcbmem s"]) (simp add: levels_ok_def)
  ultimately show ?thesis by simp
qed

lemma mlfq_dispatch_ok:
  assumes ok: "levels_ok s" and cur: "current s = None"
  shows "if queued s = {#} then mlfq_dispatch sw s = Some (Continue, s)
    else \<exists>p l s'. mlfq_dispatch sw s = Some (if sw then To_thread p else Exits 1, s') \<and> levels_ok s' \<and> queued s = add_mset p (queued s') \<and>
      l < NUMQUEUES \<and> p \<in># items (mlfq s ! l) \<and> (\<forall>k<l. items (mlfq s ! k) = {#}) \<and> current s' = Some p \<and>
      state (tcbmem s' p) = RUNNING \<and> priority (tcbmem s' p) = int l \<and> pc (tcbmem s' p) = 2 ^ l \<and>
      tot_cntx_switches s' = tot_cntx_switches s + 1 \<and> schedCtx s' = (if sw then Behind_switch else schedCtx s)"
proof (cases "first_clear (\<lambda>lvl. \<not> 0 < threads (mlfq s ! lvl)) 0 NUMQUEUES")
  case None
  then have "queued s = {#}" using queued_empty [OF ok] by (simp add: first_clear_None)
  then show ?thesis using None by (simp add: mlfq_dispatch_def)
next
  case (Some l)
  then have l: "l < NUMQUEUES" "0 < threads (mlfq s ! l)" "\<forall>k<l. threads (mlfq s ! k) = 0"
    by (auto simp: first_clear_Some)
  have inv: "heap_inv (tcbmem s) (mlfq s ! k)" if "k < NUMQUEUES" for k using ok that by (simp add: levels_ok_def)
  have len: "length (mlfq s) = NUMQUEUES" using ok by (simp add: levels_ok_def)
  have ne: "items (mlfq s ! l) \<noteq> {#}" using items_empty [OF inv [OF l(1)]] l(2) by simp
  have "queued s \<noteq> {#}" using queued_empty [OF ok] l by auto
  obtain p h where h: "dequeue (tcbmem s) (mlfq s ! l) = Some (Some p, h)" "heap_inv (tcbmem s) h"
    "items (mlfq s ! l) = add_mset p (items h)"
    using mh.del_law [OF inv [OF l(1)] ne] by blast
  have above: "\<forall>k<l. items (mlfq s ! k) = {#}"
  proof (intro allI impI)
    fix k assume "k < l"
    then show "items (mlfq s ! k) = {#}" using items_empty [OF inv [of k]] l by simp
  qed
  have slice: "push_bit l (1 :: int) = 2 ^ l" by (simp add: push_bit_eq_mult)
  let ?s = "(update_tcb p (\<lambda>t. t\<lparr>priority := int l, pc := 2 ^ l, state := RUNNING\<rparr>)
      (s\<lparr>mlfq := (mlfq s)[l := h]\<rparr>))\<lparr>current := Some p, tot_cntx_switches := tot_cntx_switches s + 1\<rparr>"
  have run: "mlfq_dispatch sw s = Some (switch_to sw p ?s)"
    using Some h(1) by (simp add: mlfq_dispatch_def slice)
  have "levels_ok ?s" using ok h(2) len l(1) by (auto simp: levels_ok_def nth_list_update)
  moreover have "queued s = add_mset p (queued ?s)"
    using queued_update [OF l(1) len, of h] h(3) by (simp add: queued_def)
  moreover have "levels_ok (?s\<lparr>schedCtx := Behind_switch\<rparr>) = levels_ok ?s" "queued (?s\<lparr>schedCtx := Behind_switch\<rparr>) = queued ?s"
    by (simp_all add: levels_ok_def queued_def)
  ultimately show ?thesis
    using run \<open>queued s \<noteq> {#}\<close> l(1) h(3) above by (cases sw) (auto simp: switch_to_def)
qed

text \<open>
  C31. The body that \<open>sched_mlfq\<close> and \<open>sched_cfs\<close> share, on initialised queues: the running thread
  goes back to its level (one lower when it has used up its slice), and the first thread of the
  highest non-empty level runs, with a slice of two to the power of its level; no thread is lost. When
  the switch fails the process exits.
\<close>

theorem feedback_queue_runs_top:
  assumes ok: "levels_ok s" and avail: "\<forall>n. avail n"
    and range: "\<forall>p. current s = Some p \<longrightarrow> 0 \<le> priority (tcbmem s p) \<and> priority (tcbmem s p) < int NUMQUEUES"
  shows "\<exists>t ctl s'. mlfq_retire avail s = Some t \<and> sched_cfs avail sw s = Some (ctl, s') \<and>
    (\<forall>p. current s = Some p \<longrightarrow> state (tcbmem s p) = RUNNING \<longrightarrow> p \<in># items (mlfq t ! level_after (tcbmem s p))) \<and>
    (if mlfq_runnable s = {#} then ctl = Continue \<and> current s' = None
     else \<exists>p l. ctl = (if sw then To_thread p else Exits 1) \<and> current s' = Some p \<and> mlfq_runnable s = add_mset p (queued s') \<and>
       l < NUMQUEUES \<and> p \<in># items (mlfq t ! l) \<and> (\<forall>k<l. items (mlfq t ! k) = {#}) \<and>
       state (tcbmem s' p) = RUNNING \<and> priority (tcbmem s' p) = int l \<and> pc (tcbmem s' p) = 2 ^ l \<and>
       schedCtx s' = (if sw then Behind_switch else schedCtx t))"
proof -
  obtain t where t: "mlfq_retire avail s = Some t" "levels_ok t" "queued t = mlfq_runnable s" "current t = None"
    "\<forall>p. current s = Some p \<longrightarrow> state (tcbmem s p) = RUNNING \<longrightarrow> p \<in># items (mlfq t ! level_after (tcbmem s p))"
    by (rule mlfq_retire_ok [OF ok avail, of ]) (use range in auto)
  show ?thesis
    using mlfq_dispatch_ok [OF t(2,4), of sw] t by (auto simp: sched_cfs_def split: if_splits)
qed

lemma init_mlfq_empty:
  assumes "length (mlfq s) = NUMQUEUES" "\<forall>n. avail n"
  shows "levels_ok (init_mlfq avail s)" "queued (init_mlfq avail s) = {#}"
proof -
  have each: "heap_inv (tcbmem s) (snd (initHeap avail h 50)) \<and> items (snd (initHeap avail h 50)) = {#}" for h
  proof -
    have "initHeap avail h 50 = (0, snd (initHeap avail h 50))" using assms(2) by (simp add: initHeap_def)
    then show ?thesis by (intro initHeap_correct [of 50]) simp_all
  qed
  show "levels_ok (init_mlfq avail s)" using assms(1) each by (simp add: levels_ok_def init_mlfq_def)
  show "queued (init_mlfq avail s) = {#}" using assms(1) each by (simp add: queued_def init_mlfq_def)
qed

text \<open>
  \<open>sched_mlfq\<close> empties every queue before it looks at them: threads waiting in the queues are
  forgotten, and when no thread was running it finds none and returns.
\<close>

lemma sched_mlfq_forgets:
  assumes "length (mlfq s) = NUMQUEUES" "\<forall>n. avail n" "current s = None"
  shows "\<exists>s'. sched_mlfq avail sw s = Some (Continue, s') \<and> queued s' = {#}"
proof -
  note i = init_mlfq_empty [OF assms(1,2)]
  have cur: "current (init_mlfq avail s) = None" using assms(3) by (simp add: init_mlfq_def)
  then have "mlfq_retire avail (init_mlfq avail s) = Some (init_mlfq avail s)" by (simp add: mlfq_retire_def)
  then show ?thesis using mlfq_dispatch_ok [OF i(1) cur, of sw] i(2) by (simp add: sched_mlfq_def)
qed

text \<open>What \<open>schedule\<close> does before the policy leaves no running thread to the policies.\<close>

lemma schedule_prologue:
  assumes "heap_inv (tcbmem s) (rq s)" "\<forall>n. avail n"
  obtains t where "schedule MLFQ avail sw s = sched_mlfq avail sw t" "schedule CFS avail sw s = sched_cfs avail sw t"
    "\<forall>p. current t = Some p \<longrightarrow> state (tcbmem t p) = READY" "mlfq t = mlfq s"
    "\<forall>q. timeQuant (tcbmem t q) = timeQuant (tcbmem s q)"
proof (cases "current s")
  case None
  then show ?thesis by (intro that [of s]) (simp_all add: schedule_def)
next
  case (Some p)
  show ?thesis
  proof (cases "state (tcbmem s p) = RUNNING")
    case True
    have "heap_inv (tcbmem (set_state p READY s)) (rq (set_state p READY s))" using assms(1) by simp
    then obtain h where "enqueue_rq avail p (set_state p READY s) = Some ((set_state p READY s)\<lparr>rq := h\<rparr>)"
      using assms(2) by (rule enqueue_rq_ok)
    then show ?thesis using Some True
      by (intro that [of "(set_state p READY s)\<lparr>rq := h\<rparr>"]) (simp_all add: schedule_def)
  next
    case False
    then show ?thesis using Some
      by (intro that [of "if state (tcbmem s p) = FINISHED then release_finished p s else s\<lparr>current := None\<rparr>"])
        (simp_all add: schedule_def)
  qed
qed

lemma mlfq_retire_ready:
  assumes "\<forall>p. current t = Some p \<longrightarrow> state (tcbmem t p) = READY"
  shows "mlfq_retire avail t = Some (t\<lparr>current := None\<rparr>)"
proof (cases "current t")
  case None
  then have "t\<lparr>current := None\<rparr> = t" by (cases t) simp
  then show ?thesis using None by (simp add: mlfq_retire_def)
next
  case (Some p)
  then show ?thesis using assms by (simp add: mlfq_retire_def)
qed

text \<open>
  C34. Compiled for MLFQ, \<open>schedule\<close> never runs a thread: the running one goes to the run queue of
  PSJF, and \<open>sched_mlfq\<close> then finds only queues it has just emptied.
\<close>

theorem mlfq_never_runs:
  assumes "heap_inv (tcbmem s) (rq s)" "length (mlfq s) = NUMQUEUES" "\<forall>n. avail n"
  shows "\<exists>s'. schedule MLFQ avail sw s = Some (Continue, s') \<and> current s' = None"
proof -
  obtain t where t: "schedule MLFQ avail sw s = sched_mlfq avail sw t" "schedule CFS avail sw s = sched_cfs avail sw t"
    "\<forall>p. current t = Some p \<longrightarrow> state (tcbmem t p) = READY" "mlfq t = mlfq s"
    by (rule schedule_prologue [OF assms(1,3)])
  have len: "length (mlfq t) = NUMQUEUES" using t(4) assms(2) by simp
  note i = init_mlfq_empty [OF len assms(3)]
  let ?u = "(init_mlfq avail t)\<lparr>current := None\<rparr>"
  have "mlfq_retire avail (init_mlfq avail t) = Some ?u"
    by (rule mlfq_retire_ready) (use t(3) in \<open>simp add: init_mlfq_def\<close>)
  moreover have "levels_ok ?u" "queued ?u = {#}" using i by (simp_all add: levels_ok_def queued_def)
  ultimately have "sched_mlfq avail sw t = Some (Continue, ?u)"
    using mlfq_dispatch_ok [of ?u sw] by (simp add: sched_mlfq_def)
  then show ?thesis using t(1) by simp
qed

text \<open>
  Compiled for CFS, \<open>schedule\<close> never runs a thread either: with the queues empty, as they are
  at the start, it finds none and leaves them empty.
\<close>

lemma cfs_never_runs:
  assumes "heap_inv (tcbmem s) (rq s)" "\<forall>n. avail n" "levels_ok s" "queued s = {#}"
  shows "\<exists>s'. schedule CFS avail sw s = Some (Continue, s') \<and> current s' = None \<and> queued s' = {#}"
proof -
  obtain t where t: "schedule MLFQ avail sw s = sched_mlfq avail sw t" "schedule CFS avail sw s = sched_cfs avail sw t"
    "\<forall>p. current t = Some p \<longrightarrow> state (tcbmem t p) = READY" "mlfq t = mlfq s"
    "\<forall>q. timeQuant (tcbmem t q) = timeQuant (tcbmem s q)"
    by (rule schedule_prologue [OF assms(1,2)])
  let ?u = "t\<lparr>current := None\<rparr>"
  have "heap_inv (tcbmem t) h = heap_inv (tcbmem s) h" for h using t(5) by (intro heap_inv_cong) simp
  then have "levels_ok ?u" "queued ?u = {#}" using assms(3,4) t(4) by (simp_all add: levels_ok_def queued_def)
  then have "sched_cfs avail sw t = Some (Continue, ?u)"
    using mlfq_dispatch_ok [of ?u sw] mlfq_retire_ready [OF t(3), of avail] by (simp add: sched_cfs_def)
  then show ?thesis using t(2) \<open>queued ?u = {#}\<close> by simp
qed

section \<open>Threads that cannot be joined\<close>

text \<open>
  \<open>worker_join\<close> on a thread that is not waiting in the run queue, as a thread that has
  finished, is running or is blocked, returns -1 at once: it neither waits nor gives the thread's
  result, and nothing is released.
\<close>

lemma worker_join_not_queued:
  assumes "heap_inv (tcbmem s) (rq s)" "\<forall>q. q \<in># items (rq s) \<longrightarrow> tID (tcbmem s q) \<noteq> thread"
  shows "worker_join avail thread vp s = Some (Join_returns (-1) None, s)"
proof -
  have "searchByTID (tcbmem s) (rq s) thread = None" using searchByTID_None [OF assms(1)] assms(2) by simp
  then show ?thesis by (simp add: worker_join_def)
qed

section \<open>Witnesses\<close>

definition sample_sys :: sys where
  "sample_sys = (sys_boot sample_tcbs)\<lparr>rq := sample_heap\<rparr>"

definition empty_heap :: minHeap where
  "empty_heap = snd (initHeap (\<lambda>_. True) null_heap 50)"

lemma empty_heap_ok: "heap_inv st empty_heap" "items empty_heap = {#}"
proof -
  have "initHeap (\<lambda>_. True) null_heap 50 = (0, empty_heap)" by (simp add: empty_heap_def initHeap_def)
  then show "heap_inv st empty_heap" "items empty_heap = {#}" using initHeap_correct [of 50] by auto
qed

definition sample_levels :: sys where
  "sample_levels = sample_sys\<lparr>mlfq := (replicate NUMQUEUES empty_heap)[2 := sample_heap]\<rparr>"

lemma sample_levels_ok: "levels_ok sample_levels" "heap_inv (tcbmem sample_levels) (rq sample_levels)"
  "current sample_levels = None" "length (mlfq sample_levels) = NUMQUEUES"
  using sample_heap_inv empty_heap_ok
  by (auto simp: levels_ok_def sample_levels_def sample_sys_def sys_boot_def NUMQUEUES_def nth_list_update)

theorem psjf_runs_shortest_witness:
  "\<exists>s'. sched_psjf (\<lambda>_. True) True sample_sys = Some (To_thread 7, s') \<and> current s' = Some 7"
proof -
  have inv: "heap_inv (tcbmem sample_sys) (rq sample_sys)"
    using sample_heap_inv by (simp add: sample_sys_def sys_boot_def)
  have run: "runnable sample_sys = {#7, 5, 4, 3#}"
    by (simp add: runnable_def sample_sys_def sys_boot_def items_def sample_heap_def)
  have "runnable sample_sys \<noteq> {#}" using run by simp
  then obtain p s' where r: "sched_psjf (\<lambda>_. True) True sample_sys = Some (To_thread p, s')" "current s' = Some p"
    "runnable sample_sys = add_mset p (items (rq s'))"
    "\<forall>q. q \<in># runnable sample_sys \<longrightarrow> timeQuant (tcbmem sample_sys p) \<le> timeQuant (tcbmem sample_sys q)"
    using psjf_runs_shortest [OF inv, of "\<lambda>_. True" True] by auto
  have "p \<in># runnable sample_sys" unfolding r(3) by simp
  moreover have "timeQuant (tcbmem sample_sys q) = 10 - int q" for q
    by (simp add: sample_sys_def sys_boot_def sample_tcbs_def idle_tcb_def)
  ultimately have "p = 7" using run r(4) by auto
  then show ?thesis using r by simp
qed

theorem feedback_queue_runs_top_witness:
  "\<exists>p s'. sched_cfs (\<lambda>_. True) True sample_levels = Some (To_thread p, s') \<and>
     priority (tcbmem s' p) = 2 \<and> pc (tcbmem s' p) = 4"
proof -
  have t: "mlfq_retire (\<lambda>_. True) sample_levels = Some sample_levels"
    using sample_levels_ok(3) by (simp add: mlfq_retire_def)
  have at: "items (mlfq sample_levels ! l) = (if l = 2 then {#7, 5, 4, 3#} else {#})" if "l < NUMQUEUES" for l
    using that empty_heap_ok(2)
    by (auto simp: sample_levels_def NUMQUEUES_def nth_list_update items_def sample_heap_def)
  have "queued sample_levels \<noteq> {#}"
    using queued_empty [OF sample_levels_ok(1)]
    by (auto simp: sample_levels_def NUMQUEUES_def sample_heap_def intro!: exI [of _ 2])
  then have "mlfq_runnable sample_levels \<noteq> {#}" by (simp add: mlfq_runnable_def)
  then obtain p l s' where r: "sched_cfs (\<lambda>_. True) True sample_levels = Some (To_thread p, s')"
    "l < NUMQUEUES" "p \<in># items (mlfq sample_levels ! l)"
    "priority (tcbmem s' p) = int l" "pc (tcbmem s' p) = 2 ^ l"
    using feedback_queue_runs_top [OF sample_levels_ok(1), of "\<lambda>_. True" True] t sample_levels_ok(3) by auto
  then have "l = 2" using at [OF r(2)] by (auto split: if_splits)
  then show ?thesis using r by auto
qed

theorem sched_mlfq_forgets_witness:
  "\<exists>s'. sched_mlfq (\<lambda>_. True) True sample_levels = Some (Continue, s') \<and> queued s' = {#}"
  by (rule sched_mlfq_forgets) (simp_all add: sample_levels_ok)

theorem mlfq_never_runs_witness:
  "\<exists>s'. schedule MLFQ (\<lambda>_. True) True sample_levels = Some (Continue, s') \<and> current s' = None"
  by (rule mlfq_never_runs) (simp_all add: sample_levels_ok)

definition sample_idle :: sys where
  "sample_idle = sample_sys\<lparr>mlfq := replicate NUMQUEUES empty_heap\<rparr>"

theorem cfs_never_runs_witness:
  "\<exists>s'. schedule CFS (\<lambda>_. True) True sample_idle = Some (Continue, s') \<and> current s' = None \<and> queued s' = {#}"
proof (rule cfs_never_runs)
  show "heap_inv (tcbmem sample_idle) (rq sample_idle)"
    using sample_heap_inv by (simp add: sample_idle_def sample_sys_def sys_boot_def)
  show "levels_ok sample_idle" using empty_heap_ok(1) by (simp add: levels_ok_def sample_idle_def)
  show "queued sample_idle = {#}" using empty_heap_ok(2) by (simp add: queued_def sample_idle_def)
qed simp

theorem worker_join_not_queued_witness:
  "worker_join (\<lambda>_. True) 99 True sample_sys = Some (Join_returns (-1) None, sample_sys)"
proof (rule worker_join_not_queued)
  show "heap_inv (tcbmem sample_sys) (rq sample_sys)"
    using sample_heap_inv by (simp add: sample_sys_def sys_boot_def)
  show "\<forall>q. q \<in># items (rq sample_sys) \<longrightarrow> tID (tcbmem sample_sys q) \<noteq> 99"
    by (simp add: sample_sys_def sys_boot_def items_def sample_heap_def sample_tcbs_def idle_tcb_def)
qed

end
