(* ===== verification/Mutex.thy ===== *)
theory Mutex
  imports Scheduler
begin

text \<open>
  The mutex of \<open>project2-release/thread-worker.c\<close>: who holds it, who waits, whom an unlock makes
  ready, and what the first thread that has to wait runs into.
\<close>

section \<open>One call\<close>

definition taken :: "worker_mutex \<Rightarrow> bool" where
  "taken m \<longleftrightarrow> locked m AND 0xFF \<noteq> 0"

definition mutex_ok :: "worker_mutex \<Rightarrow> sys \<Rightarrow> bool" where
  "mutex_ok m s \<longleftrightarrow> heap_inv (tcbmem s) (rq s) \<and> heap_inv (tcbmem s) (blockList m)"

lemma test_and_set_taken: "taken (snd (atomic_test_and_set m))" "fst (atomic_test_and_set m) = taken m"
  "blockList (snd (atomic_test_and_set m)) = blockList m"
proof -
  have b: "bit (0xFF :: u32) 0" "bit (1 :: u32) 0" by simp_all
  have "bit (((locked m AND 0xFFFFFF00) OR 1) AND 0xFF) 0" using b by (simp only: bit_and_iff bit_or_iff) simp
  then have "((locked m AND 0xFFFFFF00) OR 1) AND 0xFF \<noteq> 0" by (metis bit_0_eq bot_apply bot_bool_def)
  then show "taken (snd (atomic_test_and_set m))" by (simp add: taken_def atomic_test_and_set_def)
qed (simp_all add: taken_def atomic_test_and_set_def)

lemma clear_taken: "\<not> taken (atomic_clear m)" "blockList (atomic_clear m) = blockList m"
proof -
  have "(0xFFFFFF00 AND 0xFF :: u32) = 0" by simp
  then have "(locked m AND 0xFFFFFF00) AND 0xFF = 0" by (simp only: and.assoc and_zero_eq)
  then show "\<not> taken (atomic_clear m)" by (simp add: taken_def atomic_clear_def)
qed (simp add: atomic_clear_def)

lemma lock_cases:
  assumes ok: "mutex_ok m s" and p: "current s = Some p" and av: "\<forall>n. avail n"
  obtains (got) m' where "\<not> taken m" "worker_mutex_lock avail m s = Some (Continue, m', s)" "taken m'"
      "blockList m' = blockList m" "mutex_ok m' s"
  | (waits) m' s' where "taken m" "worker_mutex_lock avail m s = Some (To_sched, m', s')" "taken m'" "mutex_ok m' s'"
      "items (blockList m') = add_mset p (items (blockList m))" "tcbmem s' = (tcbmem s)(p := (tcbmem s p)\<lparr>state := BLOCKED\<rparr>)"
      "items (rq s') \<subseteq># items (rq s)" "current s' = current s" "threadID s' = threadID s"
      "(\<forall>q. q \<in># items (rq s) \<longrightarrow> tID (tcbmem s q) \<noteq> tID (tcbmem s p)) \<longrightarrow> rq s' = rq s"
      "schedCtx s' = schedCtx s" "freed_blocks s' = freed_blocks s"
proof (cases "taken m")
  case False
  then show ?thesis
    using test_and_set_taken [of m] ok
    by (intro got [of "snd (atomic_test_and_set m)"])
      (auto simp: worker_mutex_lock_def split_beta mutex_ok_def Let_def)
next
  case True
  let ?m = "snd (atomic_test_and_set m)" and ?s = "set_state p BLOCKED s"
  let ?t = "tID (tcbmem ?s p)"
  have hs: "heap_inv (tcbmem ?s) (rq s)" "heap_inv (tcbmem ?s) (blockList m)"
    using ok by (simp_all add: mutex_ok_def set_state_def update_tcb_def)
  obtain r h where rm: "removeNode (tcbmem ?s) (rq ?s) ?t = (r, h)" "heap_inv (tcbmem ?s) h" "items h \<subseteq># items (rq s)"
    "(\<forall>q. q \<in># items (rq s) \<longrightarrow> tID (tcbmem ?s q) \<noteq> ?t) \<longrightarrow> h = rq s"
  proof (cases "searchByTID (tcbmem ?s) (rq s) ?t")
    case None
    then show ?thesis using removeNode_absent [OF None] hs(1) by (intro that [of "-1" "rq s"]) simp_all
  next
    case (Some q)
    obtain h where "removeNode (tcbmem ?s) (rq s) ?t = (0, h)" "heap_inv (tcbmem ?s) h" "items (rq s) = add_mset q (items h)"
      by (rule removeNode_present [OF hs(1) Some])
    moreover have "\<not> (\<forall>q. q \<in># items (rq s) \<longrightarrow> tID (tcbmem ?s q) \<noteq> ?t)"
      using searchByTID_None [OF hs(1), of ?t] Some by simp
    ultimately show ?thesis by (intro that [of 0 h]) (blast | simp)+
  qed
  obtain b where b: "enqueue avail (tcbmem ?s) (blockList m) p = Some (0, b)" "heap_inv (tcbmem ?s) b"
    "items b = add_mset p (items (blockList m))" using enqueue_avail [OF hs(2) av] by blast
  let ?m' = "?m\<lparr>blockList := b\<rparr>" and ?s' = "?s\<lparr>rq := h\<rparr>"
  have "worker_mutex_lock avail m s = Some (To_sched, ?m', ?s')"
    using True test_and_set_taken(2,3) [of m] p rm(1) b(1)
    by (simp add: worker_mutex_lock_def split_beta Let_def)
  moreover have "mutex_ok ?m' ?s'" using rm(2) b(2) by (simp add: mutex_ok_def)
  moreover have "taken ?m'" using test_and_set_taken(1) [of m] by (simp add: taken_def)
  moreover have "(\<forall>q. q \<in># items (rq s) \<longrightarrow> tID (tcbmem s q) \<noteq> tID (tcbmem s p)) \<longrightarrow> rq ?s' = rq s"
  proof -
    have "tID (tcbmem ?s x) = tID (tcbmem s x)" for x by simp
    then show ?thesis using rm(4) by (simp del: set_state_fields)
  qed
  ultimately show ?thesis using True rm(3) b(3) by (intro waits [of ?m' ?s']) (simp_all add: set_state_def update_tcb_def)
qed

text \<open>A free mutex is taken, whoever calls.\<close>

lemma lock_free:
  assumes "\<not> taken m"
  obtains m' where "worker_mutex_lock avail m s = Some (Continue, m', s)" "taken m'" "blockList m' = blockList m"
  using assms test_and_set_taken [of m]
  by (intro that [of "snd (atomic_test_and_set m)"]) (auto simp: worker_mutex_lock_def split_beta Let_def)

lemma unlock_cases:
  assumes ok: "mutex_ok m s" and av: "\<forall>n. avail n"
  obtains (none) m' where "items (blockList m) = {#}" "worker_mutex_unlock avail m s = Some (0, m', s)" "\<not> taken m'"
      "blockList m' = blockList m" "mutex_ok m' s"
  | (wakes) p m' s' where "worker_mutex_unlock avail m s = Some (0, m', s')" "\<not> taken m'" "mutex_ok m' s'"
      "items (blockList m) = add_mset p (items (blockList m'))" "items (rq s') = add_mset p (items (rq s))"
      "\<forall>q. q \<in># items (blockList m) \<longrightarrow> tq (tcbmem s) p \<le> tq (tcbmem s) q"
      "tcbmem s' = (tcbmem s)(p := (tcbmem s p)\<lparr>state := READY\<rparr>)" "current s' = current s" "threadID s' = threadID s"
      "schedCtx s' = schedCtx s" "freed_blocks s' = freed_blocks s"
proof (cases "threads (blockList m) = 0")
  case True
  then show ?thesis
    using clear_taken [of m] ok items_empty [of "tcbmem s" "blockList m"]
    by (intro none [of "atomic_clear m"]) (simp_all add: worker_mutex_unlock_def mutex_ok_def)
next
  case False
  have h: "heap_inv (tcbmem s) (rq s)" "heap_inv (tcbmem s) (blockList m)" using ok by (simp_all add: mutex_ok_def)
  obtain p b where d: "dequeue (tcbmem s) (blockList m) = Some (Some p, b)" "heap_inv (tcbmem s) b"
    "items (blockList m) = add_mset p (items b)" "\<forall>q. q \<in># items (blockList m) \<longrightarrow> tq (tcbmem s) p \<le> tq (tcbmem s) q"
    by (rule dequeue_correct [OF h(2) False]) blast
  let ?m = "(atomic_clear m)\<lparr>blockList := b\<rparr>" and ?s = "set_state p READY s"
  have "heap_inv (tcbmem ?s) (rq ?s)" using h(1) by simp
  from enqueue_rq_ok [OF this av]
  obtain q where q: "enqueue_rq avail p ?s = Some (?s\<lparr>rq := q\<rparr>)" "heap_inv (tcbmem ?s) q"
    "items q = add_mset p (items (rq ?s))" by blast
  have "worker_mutex_unlock avail m s = Some (0, ?m, ?s\<lparr>rq := q\<rparr>)"
    using False clear_taken(2) [of m] d(1) q(1) by (simp add: worker_mutex_unlock_def Let_def)
  moreover have "mutex_ok ?m (?s\<lparr>rq := q\<rparr>)" using d(2) q(2) by (simp add: mutex_ok_def)
  moreover have "\<not> taken ?m" using clear_taken(1) [of m] by (simp add: taken_def)
  ultimately show ?thesis using d(3,4) q(3) by (intro wakes [of ?m "?s\<lparr>rq := q\<rparr>" p]) simp_all
qed

section \<open>Sequences of calls\<close>

text \<open>A call of lock by the thread that runs, or of unlock, in the order in which they take effect.\<close>

datatype mutex_call = MLock tptr | MUnlock

text \<open>The answers: whether each call returned to its caller with the mutex acquired.\<close>

fun mutex_calls :: "(nat \<Rightarrow> bool) \<Rightarrow> mutex_call list \<Rightarrow> worker_mutex \<Rightarrow> sys \<Rightarrow> (bool list \<times> worker_mutex \<times> sys) option" where
  "mutex_calls avail [] m s = Some ([], m, s)"
| "mutex_calls avail (MLock p # cs) m s = do {
     (ctl, m, s) \<leftarrow> worker_mutex_lock avail m (s\<lparr>current := Some p\<rparr>);
     (bs, m, s) \<leftarrow> mutex_calls avail cs m s;
     Some ((ctl = Continue) # bs, m, s)
   }"
| "mutex_calls avail (MUnlock # cs) m s = do {
     (_, m, s) \<leftarrow> worker_mutex_unlock avail m s;
     (bs, m, s) \<leftarrow> mutex_calls avail cs m s;
     Some (False # bs, m, s)
   }"

text \<open>After an acquisition nobody acquires until an unlock.\<close>

definition excluded :: "mutex_call list \<Rightarrow> bool list \<Rightarrow> bool" where
  "excluded cs bs \<longleftrightarrow> (\<forall>i j. i < j \<and> j < length bs \<and> bs ! i \<and> bs ! j \<longrightarrow> (\<exists>k. i < k \<and> k < j \<and> cs ! k = MUnlock))"

lemma calls_result:
  assumes av: "\<forall>n. avail n"
  shows "mutex_ok m s \<Longrightarrow> \<exists>bs m' s'. mutex_calls avail cs m s = Some (bs, m', s') \<and> mutex_ok m' s' \<and> length bs = length cs \<and>
    (taken m \<longrightarrow> (\<forall>j<length bs. bs ! j \<longrightarrow> (\<exists>k<j. cs ! k = MUnlock))) \<and> excluded cs bs"
proof (induction cs arbitrary: m s)
  case Nil
  then show ?case by (simp add: excluded_def)
next
  case (Cons c cs)
  have grow: "excluded (c # cs) (b # bs) \<and> (t \<longrightarrow> (\<forall>j<length (b # bs). (b # bs) ! j \<longrightarrow> (\<exists>k<j. (c # cs) ! k = MUnlock)))"
    if e: "excluded cs bs" and b: "b \<or> t \<longrightarrow> c = MUnlock \<and> \<not> b \<or> (\<forall>j<length bs. bs ! j \<longrightarrow> (\<exists>k<j. cs ! k = MUnlock))" "t \<longrightarrow> \<not> b"
    for b t bs
  proof (intro conjI impI allI)
    show "excluded (c # cs) (b # bs)"
      unfolding excluded_def
    proof (intro allI impI)
      fix i j assume ij: "i < j \<and> j < length (b # bs) \<and> (b # bs) ! i \<and> (b # bs) ! j"
      then obtain j' where j: "j = Suc j'" by (cases j) auto
      show "\<exists>k. i < k \<and> k < j \<and> (c # cs) ! k = MUnlock"
      proof (cases i)
        case 0
        then obtain k where "k < j'" "cs ! k = MUnlock" using ij j b by auto
        then show ?thesis using 0 j by (intro exI [of _ "Suc k"]) simp
      next
        case (Suc i')
        then obtain k where "i' < k" "k < j'" "cs ! k = MUnlock" using ij j e by (auto simp: excluded_def)
        then show ?thesis using Suc j by (intro exI [of _ "Suc k"]) simp
      qed
    qed
    fix j assume t: t and j: "j < length (b # bs)" "(b # bs) ! j"
    then obtain j' where j': "j = Suc j'" using b(2) by (cases j) auto
    show "\<exists>k<j. (c # cs) ! k = MUnlock"
    proof (cases "c = MUnlock")
      case True
      then show ?thesis using j' by (intro exI [of _ 0]) simp
    next
      case False
      then obtain k where "k < j'" "cs ! k = MUnlock" using b(1) t j j' by auto
      then show ?thesis using j' by (intro exI [of _ "Suc k"]) simp
    qed
  qed
  show ?case
  proof (cases c)
    case (MLock p)
    have ok: "mutex_ok m (s\<lparr>current := Some p\<rparr>)" using Cons.prems by (simp add: mutex_ok_def)
    have p: "current (s\<lparr>current := Some p\<rparr>) = Some p" by simp
    show ?thesis
    proof (cases rule: lock_cases [OF ok p av])
      case (1 m')
      from Cons.IH [OF 1(5)] obtain bs m2 s2 where r: "mutex_calls avail cs m' (s\<lparr>current := Some p\<rparr>) = Some (bs, m2, s2)"
        "mutex_ok m2 s2" "length bs = length cs" "\<forall>j<length bs. bs ! j \<longrightarrow> (\<exists>k<j. cs ! k = MUnlock)" "excluded cs bs"
        using 1(3) by blast
      then show ?thesis using 1 MLock grow [of bs True "taken m"] by simp
    next
      case (2 m' s')
      from Cons.IH [OF 2(4)] obtain bs m2 s2 where r: "mutex_calls avail cs m' s' = Some (bs, m2, s2)"
        "mutex_ok m2 s2" "length bs = length cs" "\<forall>j<length bs. bs ! j \<longrightarrow> (\<exists>k<j. cs ! k = MUnlock)" "excluded cs bs"
        using 2(3) by blast
      then show ?thesis using 2(2) MLock grow [of bs False "taken m"] by simp
    qed
  next
    case MUnlock
    obtain m' s' where u: "worker_mutex_unlock avail m s = Some (0, m', s')" "mutex_ok m' s'"
      by (rule unlock_cases [OF Cons.prems av])
    from Cons.IH [OF u(2)] obtain bs m2 s2 where r: "mutex_calls avail cs m' s' = Some (bs, m2, s2)"
      "mutex_ok m2 s2" "length bs = length cs" "excluded cs bs" by blast
    then show ?thesis using u(1) MUnlock grow [of bs False "taken m"] by simp
  qed
qed

section \<open>What the mutex promises\<close>

text \<open>
  C13. Mutual exclusion: in every sequence of lock and unlock calls, by whatever threads, between two
  calls of lock that return with the mutex there is an unlock; no call leaves an array or
  dereferences \<open>NULL\<close>, when the queue of the mutex was initialised and memory does not run out.
\<close>

theorem mutex_excludes:
  assumes "mutex_ok m s" "\<forall>n. avail n"
  shows "\<exists>bs m' s'. mutex_calls avail cs m s = Some (bs, m', s') \<and> mutex_ok m' s' \<and> length bs = length cs \<and>
    (\<forall>i j. i < j \<and> j < length cs \<and> bs ! i \<and> bs ! j \<longrightarrow> (\<exists>k. i < k \<and> k < j \<and> cs ! k = MUnlock))"
  using calls_result [OF assms(2,1), of cs] by (auto simp: excluded_def)

definition sample_mutex :: worker_mutex where
  "sample_mutex = \<lparr>locked = 0, next_mutex = 0, blockList = empty_heap\<rparr>"

lemma sample_mutex_ok: "mutex_ok sample_mutex (sample_levels\<lparr>current := Some p\<rparr>)"
  using sample_levels_ok empty_heap_ok by (simp add: mutex_ok_def sample_mutex_def)

lemma mutex_excludes_witness:
  "\<exists>b c d m s. mutex_calls (\<lambda>_. True) [MLock 1, MLock 2, MUnlock] sample_mutex (sample_levels\<lparr>current := Some 1\<rparr>) =
    Some ([b, c, d], m, s) \<and> \<not> (b \<and> c)"
proof -
  from mutex_excludes [OF sample_mutex_ok [of 1], of "\<lambda>_. True" "[MLock 1, MLock 2, MUnlock]"]
  obtain bs m s where r: "mutex_calls (\<lambda>_. True) [MLock 1, MLock 2, MUnlock] sample_mutex (sample_levels\<lparr>current := Some 1\<rparr>) =
      Some (bs, m, s)" "length bs = 3"
    "\<forall>i j. i < j \<and> j < 3 \<and> bs ! i \<and> bs ! j \<longrightarrow> (\<exists>k. i < k \<and> k < j \<and> [MLock 1, MLock 2, MUnlock] ! k = MUnlock)"
    by auto
  then obtain b c d where "bs = [b, c, d]" by (auto simp: length_Suc_conv numeral_3_eq_3)
  then show ?thesis using r(1) r(3) [rule_format, of 0 1] by auto
qed

text \<open>
  A lock on a mutex that is taken puts the calling thread to the waiting ones, blocked and out of
  the run queue as far as it was there, and gives control to the scheduler; the context of the thread
  stays the one saved before the call, so that it will not come back into the lock. An unlock takes a
  waiting thread of least \<open>timeQuant\<close> out and makes it ready, and no other thread is touched.
\<close>

lemma mutex_hands_over:
  assumes ok: "mutex_ok m s" and p: "current s = Some p" and av: "\<forall>n. avail n"
  shows "\<exists>ctl m1 s1 m2 s2. worker_mutex_lock avail m s = Some (ctl, m1, s1) \<and> worker_mutex_unlock avail m s = Some (0, m2, s2) \<and>
    (if taken m
     then ctl = To_sched \<and> items (blockList m1) = add_mset p (items (blockList m)) \<and> items (rq s1) \<subseteq># items (rq s) \<and>
       state (tcbmem s1 p) = BLOCKED \<and> ctx (tcbmem s1 p) = ctx (tcbmem s p)
     else ctl = Continue \<and> s1 = s \<and> items (blockList m1) = items (blockList m)) \<and> taken m1 \<and> \<not> taken m2 \<and>
    (if items (blockList m) = {#} then s2 = s
     else \<exists>q. items (blockList m) = add_mset q (items (blockList m2)) \<and> items (rq s2) = add_mset q (items (rq s)) \<and>
       (\<forall>r. r \<in># items (blockList m) \<longrightarrow> tq (tcbmem s) q \<le> tq (tcbmem s) r) \<and>
       tcbmem s2 = (tcbmem s)(q := (tcbmem s q)\<lparr>state := READY\<rparr>))"
proof -
  have l: "\<exists>ctl m1 s1. worker_mutex_lock avail m s = Some (ctl, m1, s1) \<and> taken m1 \<and>
    (if taken m
     then ctl = To_sched \<and> items (blockList m1) = add_mset p (items (blockList m)) \<and> items (rq s1) \<subseteq># items (rq s) \<and>
       state (tcbmem s1 p) = BLOCKED \<and> ctx (tcbmem s1 p) = ctx (tcbmem s p)
     else ctl = Continue \<and> s1 = s \<and> items (blockList m1) = items (blockList m))"
    by (cases rule: lock_cases [OF ok p av]) auto
  have u: "\<exists>m2 s2. worker_mutex_unlock avail m s = Some (0, m2, s2) \<and> \<not> taken m2 \<and>
    (if items (blockList m) = {#} then s2 = s
     else \<exists>q. items (blockList m) = add_mset q (items (blockList m2)) \<and> items (rq s2) = add_mset q (items (rq s)) \<and>
       (\<forall>r. r \<in># items (blockList m) \<longrightarrow> tq (tcbmem s) q \<le> tq (tcbmem s) r) \<and>
       tcbmem s2 = (tcbmem s)(q := (tcbmem s q)\<lparr>state := READY\<rparr>))"
  proof (cases rule: unlock_cases [OF ok av])
    case 1
    then show ?thesis by auto
  next
    case (2 q m2 s2)
    then have "items (blockList m) \<noteq> {#}" by simp
    then show ?thesis using 2 by auto
  qed
  show ?thesis using l u by blast
qed

lemma mutex_hands_over_witness:
  "\<exists>m s. worker_mutex_lock (\<lambda>_. True) sample_mutex (sample_levels\<lparr>current := Some 1\<rparr>) = Some (Continue, m, s) \<and> taken m"
proof -
  have "current (sample_levels\<lparr>current := Some 1\<rparr>) = Some 1" "\<not> taken sample_mutex"
    by (simp_all add: taken_def sample_mutex_def)
  with mutex_hands_over [OF sample_mutex_ok [of 1] this(1), of "\<lambda>_. True"] show ?thesis by auto
qed

text \<open>
  \<open>worker_mutex_init\<close> does not initialise the queue of the mutex: on a mutex in zeroed memory, the
  first thread that finds it taken writes outside the array of the queue.
\<close>

lemma mutex_first_waiter_faults:
  assumes z: "blockList m = null_heap" and p: "current s = Some p" and av: "avail 0"
  shows "\<exists>m1 m2. worker_mutex_init (Some m) = (0, Some m1) \<and> worker_mutex_lock avail m1 s = Some (Continue, m2, s) \<and>
    worker_mutex_lock avail m2 s = None"
proof -
  let ?m = "m\<lparr>locked := 0\<rparr>"
  let ?m2 = "snd (atomic_test_and_set ?m)"
  have "\<not> taken ?m" by (simp add: taken_def)
  then have "worker_mutex_lock avail ?m s = Some (Continue, ?m2, s)"
    using test_and_set_taken(2) [of ?m] by (simp add: worker_mutex_lock_def split_beta Let_def)
  moreover have "worker_mutex_lock avail ?m2 s = None"
    using test_and_set_taken [of ?m] test_and_set_taken(2,3) [of ?m2] p z av
    by (simp add: worker_mutex_lock_def split_beta Let_def null_heap_def enqueue_uninitialised)
  ultimately show ?thesis by (simp add: worker_mutex_init_def)
qed

lemma mutex_first_waiter_faults_witness:
  "\<exists>m1 m2. worker_mutex_lock (\<lambda>_. True) m1 (sample_levels\<lparr>current := Some 1\<rparr>) =
      Some (Continue, m2, sample_levels\<lparr>current := Some 1\<rparr>) \<and>
    worker_mutex_lock (\<lambda>_. True) m2 (sample_levels\<lparr>current := Some 1\<rparr>) = None"
proof -
  let ?s = "sample_levels\<lparr>current := Some 1\<rparr>" and ?m = "sample_mutex\<lparr>blockList := null_heap\<rparr>"
  have "blockList ?m = null_heap" "current ?s = Some 1" "(\<lambda>_. True) (0 :: nat)" by simp_all
  from mutex_first_waiter_faults [OF this] show ?thesis by blast
qed

end
