(* ===== verification/Threads.thy ===== *)
theory Threads
  imports Mutex
begin

text \<open>
  The thread library of \<open>project2-release/thread-worker.c\<close> as a whole, compiled for PSJF: the calls of
  the thread that has control, and those of \<open>schedule\<close> by the code outside the threads. \<open>schedule\<close> switches to a thread
  behind whose back \<open>schedCtx\<close> holds the point to come back to; the thread that gives control up goes there,
  and with that \<open>schedule\<close> returns to its caller. No thread runs again until \<open>schedule\<close> is called again.
  The abstract pool is who is ready, who waits for the mutex, who runs and who has ended; every call does
  to it what its specification says, no thread is lost and none is in two places.

  Nothing in the repository calls \<open>schedule\<close>, a static function, and nothing initialises the queues: what the
  library does on its own is \<open>library_never_starts\<close>. The other theorems take initialised queues and
  a caller of \<open>schedule\<close> outside the threads.
\<close>

section \<open>Calls\<close>

text \<open>
  The library with one mutex. \<open>zombies\<close> are the threads that have ended and whose \<open>tcb\<close> nobody has
  released yet, a record of the history that no function of the code reads.
\<close>

record pool =
  mtx :: worker_mutex
  lib :: sys
  zombies :: "tptr set"

text \<open>
  \<open>Dispatch\<close> is a call of \<open>schedule\<close> from outside the threads, whose \<open>swapcontext\<close> succeeds (when it fails,
  the process exits). \<open>Rejoin b\<close> is the loop of \<open>worker_join\<close> entered again by a thread that yielded in it,
  waiting for \<open>b\<close>; the flag of the two says whether \<open>value_ptr\<close> is valid.
\<close>

datatype thread_call =
    Create u64 "(tptr \<times> tcb) option" u64 u64
  | Yield
  | Exit u64
  | Lock
  | Unlock
  | Join int bool
  | Rejoin tptr bool
  | Dispatch

text \<open>
  A switch to \<open>schedCtx\<close>: control comes back behind the \<open>swapcontext\<close> of the policy, which returns, and
  \<open>schedule\<close> returns to its caller; the saved point is used up. Without one there is nothing to go to.
\<close>

definition resume_sched :: "sys \<Rightarrow> sys option" where
  "resume_sched s =
     (case schedCtx s of No_context \<Rightarrow> None | Behind_switch \<Rightarrow> Some (s\<lparr>schedCtx := No_context\<rparr>))"

definition join_answer :: "join_outcome \<Rightarrow> sys \<Rightarrow> sys option" where
  "join_answer r s = (case r of Join_returns _ _ \<Rightarrow> Some s | Join_yields _ \<Rightarrow> resume_sched s)"

fun exec :: "(nat \<Rightarrow> bool) \<Rightarrow> thread_call \<Rightarrow> pool \<Rightarrow> pool option" where
  "exec avail (Create stk blk f a) c = do {
     (_, _, s) \<leftarrow> worker_create avail stk blk f a (lib c);
     Some (c\<lparr>lib := s\<rparr>)
   }"
| "exec avail Yield c = do {
     (_, s) \<leftarrow> worker_yield avail (lib c);
     s \<leftarrow> resume_sched s;
     Some (c\<lparr>lib := s\<rparr>)
   }"
| "exec avail (Exit v) c = do {
     (_, s) \<leftarrow> worker_exit v (lib c);
     s \<leftarrow> resume_sched s;
     Some (c\<lparr>lib := s, zombies := zombies c \<union> set_option (current (lib c))\<rparr>)
   }"
| "exec avail Lock c = do {
     (ctl, m, s) \<leftarrow> worker_mutex_lock avail (mtx c) (lib c);
     s \<leftarrow> (if ctl = To_sched then resume_sched s else Some s);
     Some (c\<lparr>mtx := m, lib := s\<rparr>)
   }"
| "exec avail Unlock c = do {
     (_, m, s) \<leftarrow> worker_mutex_unlock avail (mtx c) (lib c);
     Some (c\<lparr>mtx := m, lib := s\<rparr>)
   }"
| "exec avail (Join t vp) c = do {
     (r, s) \<leftarrow> worker_join avail t vp (lib c);
     s \<leftarrow> join_answer r s;
     Some (c\<lparr>lib := s\<rparr>)
   }"
| "exec avail (Rejoin b vp) c = do {
     (r, s) \<leftarrow> join_loop avail b vp (lib c);
     t \<leftarrow> join_answer r s;
     Some (c\<lparr>lib := t, zombies := (case r of Join_returns _ _ \<Rightarrow> zombies c - {b} | Join_yields _ \<Rightarrow> zombies c)\<rparr>)
   }"
| "exec avail Dispatch c = do {
     (_, s) \<leftarrow> schedule PSJF avail True (lib c);
     Some (c\<lparr>lib := s\<rparr>)
   }"

section \<open>The pool a client sees\<close>

record apool =
  ready :: "tptr set"
  waiting :: "tptr set"
  running :: "tptr option"
  ended :: "tptr set"
  held :: bool

text \<open>
  The thread in control: \<open>current\<close>, as long as the point behind the switch is not used. After a yield
  \<open>current\<close> still points to the thread that yielded.
\<close>

definition in_control :: "sys \<Rightarrow> tptr option" where
  "in_control s = (if schedCtx s = Behind_switch then current s else None)"

definition abs_pool :: "pool \<Rightarrow> apool" where
  "abs_pool c = \<lparr>ready = set_mset (items (rq (lib c))), waiting = set_mset (items (blockList (mtx c))),
     running = in_control (lib c), ended = zombies c, held = taken (mtx c)\<rparr>"

definition members :: "apool \<Rightarrow> tptr set" where
  "members a = ready a \<union> waiting a \<union> set_option (running a) \<union> ended a"

text \<open>A ready thread of least key runs next, if there is one.\<close>

definition picks :: "(tptr \<Rightarrow> int) \<Rightarrow> apool \<Rightarrow> apool \<Rightarrow> bool" where
  "picks k a a' \<longleftrightarrow>
     (case running a' of
        None \<Rightarrow> ready a = {} \<and> a' = a\<lparr>running := None\<rparr>
      | Some q \<Rightarrow> q \<in> ready a \<and> (\<forall>x \<in> ready a. k q \<le> k x) \<and> a' = a\<lparr>running := Some q, ready := ready a - {q}\<rparr>)"

text \<open>The running thread goes back among the ready ones.\<close>

definition gives_way :: "apool \<Rightarrow> apool" where
  "gives_way a = a\<lparr>ready := ready a \<union> set_option (running a), running := None\<rparr>"

text \<open>What each call does to the pool; \<open>k\<close> is the key of the queues, \<open>ids\<close> the numbers of the threads.\<close>

fun call_spec :: "(tptr \<Rightarrow> int) \<Rightarrow> (tptr \<Rightarrow> int) \<Rightarrow> thread_call \<Rightarrow> apool \<Rightarrow> apool \<Rightarrow> bool" where
  "call_spec k ids (Create stk blk _ _) a a' \<longleftrightarrow>
     a' = (if stk = 0 then a else a\<lparr>ready := ready a \<union> fst ` set_option blk\<rparr>)"
| "call_spec k ids Yield a a' \<longleftrightarrow> a' = gives_way a"
| "call_spec k ids (Exit _) a a' \<longleftrightarrow> a' = a\<lparr>ended := ended a \<union> set_option (running a), running := None\<rparr>"
| "call_spec k ids Lock a a' \<longleftrightarrow>
     a' = (if held a then a\<lparr>waiting := waiting a \<union> set_option (running a), running := None\<rparr> else a\<lparr>held := True\<rparr>)"
| "call_spec k ids Unlock a a' \<longleftrightarrow>
     (if waiting a = {} then a' = a\<lparr>held := False\<rparr>
      else \<exists>q \<in> waiting a. (\<forall>x \<in> waiting a. k q \<le> k x) \<and>
        a' = a\<lparr>held := False, waiting := waiting a - {q}, ready := insert q (ready a)\<rparr>)"
| "call_spec k ids (Join t _) a a' \<longleftrightarrow> a' = (if t \<in> ids ` ready a then gives_way a else a)"
| "call_spec k ids (Rejoin b _) a a' \<longleftrightarrow> a' = (if b \<in> ended a then a\<lparr>ended := ended a - {b}\<rparr> else gives_way a)"
| "call_spec k ids Dispatch a a' \<longleftrightarrow> picks k a a'"

text \<open>
  What a call may assume. A yield, an exit, a join and a lock that is held are calls of a thread in
  control, \<open>schedule\<close> is called when none is; \<open>malloc\<close> gives a block nobody uses, a thread that is waited
  for has not been released, and \<open>value_ptr\<close> is valid when it is written through.
\<close>

fun call_ok :: "thread_call \<Rightarrow> apool \<Rightarrow> bool" where
  "call_ok (Create _ blk _ _) a \<longleftrightarrow> (\<forall>b \<in> fst ` set_option blk. b \<notin> members a)"
| "call_ok (Rejoin b vp) a \<longleftrightarrow> running a \<noteq> None \<and> b \<in> members a \<and> (b \<in> ended a \<longrightarrow> vp)"
| "call_ok Lock a \<longleftrightarrow> (held a \<longrightarrow> running a \<noteq> None)"
| "call_ok Unlock a \<longleftrightarrow> True"
| "call_ok Dispatch a \<longleftrightarrow> running a = None"
| "call_ok _ a \<longleftrightarrow> running a \<noteq> None"

text \<open>
  The invariant: the two queues are heaps, the state of every thread says where it is, no thread is
  twice in a queue, the numbers of the threads differ, and no thread of the pool is a freed block.
\<close>

definition once :: "minHeap \<Rightarrow> status \<Rightarrow> tcbs \<Rightarrow> bool" where
  "once h v st \<longleftrightarrow> (\<forall>x. count (items h) x \<le> 1 \<and> (x \<in># items h \<longrightarrow> state (st x) = v))"

definition pool_inv :: "pool \<Rightarrow> bool" where
  "pool_inv c \<longleftrightarrow> mutex_ok (mtx c) (lib c) \<and>
     once (rq (lib c)) READY (tcbmem (lib c)) \<and> once (blockList (mtx c)) BLOCKED (tcbmem (lib c)) \<and>
     (schedCtx (lib c) = Behind_switch \<longrightarrow> current (lib c) \<noteq> None) \<and>
     (\<forall>p. current (lib c) = Some p \<longrightarrow> (state (tcbmem (lib c) p) = RUNNING \<longleftrightarrow> schedCtx (lib c) = Behind_switch)) \<and>
     (\<forall>p \<in> zombies c. state (tcbmem (lib c) p) = FINISHED) \<and>
     inj_on (\<lambda>p. tID (tcbmem (lib c) p)) (members (abs_pool c)) \<and>
     (\<forall>p \<in> members (abs_pool c). tID (tcbmem (lib c) p) < threadID (lib c)) \<and>
     members (abs_pool c) \<inter> set (freed_blocks (lib c)) = {}"

section \<open>Choosing the next thread\<close>

lemma in_control_Some: "in_control s = Some p \<longleftrightarrow> schedCtx s = Behind_switch \<and> current s = Some p"
  by (simp add: in_control_def)

definition cur_mset :: "sys \<Rightarrow> tptr multiset" where
  "cur_mset s = (case current s of None \<Rightarrow> {#} | Some p \<Rightarrow> {#p#})"

text \<open>What \<open>schedule\<close> does to a library in which no thread is running.\<close>

definition dispatched :: "sys \<Rightarrow> sys \<Rightarrow> bool" where
  "dispatched s s' \<longleftrightarrow> heap_inv (tcbmem s') (rq s') \<and> items (rq s) = cur_mset s' + items (rq s') \<and>
     (current s' = None \<longrightarrow> items (rq s) = {#}) \<and>
     (\<forall>q. current s' = Some q \<longrightarrow> (\<forall>x. x \<in># items (rq s) \<longrightarrow> tq (tcbmem s) q \<le> tq (tcbmem s) x)) \<and>
     (\<forall>x. tID (tcbmem s' x) = tID (tcbmem s x) \<and> timeQuant (tcbmem s' x) = timeQuant (tcbmem s x) \<and>
        state (tcbmem s' x) = (if current s' = Some x then RUNNING else state (tcbmem s x))) \<and>
     threadID s' = threadID s \<and> freed_blocks s' = freed_blocks s \<and>
     schedCtx s' = (if current s' = None then schedCtx s else Behind_switch)"

lemma retire_idle:
  assumes "\<forall>p. current s = Some p \<longrightarrow> state (tcbmem s p) \<noteq> RUNNING"
  obtains t where "psjf_retire avail s = Some t" "rq t = rq s" "current t = None" "threadID t = threadID s"
    "freed_blocks t = freed_blocks s" "schedCtx t = schedCtx s"
    "\<forall>x. tID (tcbmem t x) = tID (tcbmem s x) \<and> timeQuant (tcbmem t x) = timeQuant (tcbmem s x) \<and>
       state (tcbmem t x) = state (tcbmem s x)"
proof (cases "current s")
  case None
  then show ?thesis by (intro that [of s]) (simp_all add: psjf_retire_def)
next
  case (Some p)
  then show ?thesis
    using assms by (intro that [of "if state (tcbmem s p) = FINISHED then release_finished p s else s\<lparr>current := None\<rparr>"])
      (auto simp: psjf_retire_def release_finished_def update_tcb_def Let_def)
qed

lemma schedule_dispatches:
  assumes h: "heap_inv (tcbmem s) (rq s)" and idle: "\<forall>p. current s = Some p \<longrightarrow> state (tcbmem s p) \<noteq> RUNNING"
  shows "\<exists>ctl s'. schedule PSJF avail True s = Some (ctl, s') \<and> dispatched s s'"
proof -
  obtain t where t: "psjf_retire avail s = Some t" "rq t = rq s" "current t = None" "threadID t = threadID s"
    "freed_blocks t = freed_blocks s" "schedCtx t = schedCtx s"
    "\<forall>x. tID (tcbmem t x) = tID (tcbmem s x) \<and> timeQuant (tcbmem t x) = timeQuant (tcbmem s x) \<and>
       state (tcbmem t x) = state (tcbmem s x)" by (rule retire_idle [OF idle, of avail])
  have ht: "heap_inv (tcbmem t) (rq t)" and k: "timeQuant (tcbmem t x) = timeQuant (tcbmem s x)" for x
    using h t(2,7) heap_inv_cong [of "tcbmem t" "tcbmem s"] by simp_all
  show ?thesis
  proof (cases "items (rq s) = {#}")
    case True
    then have "dequeue (tcbmem t) (rq t) = Some (None, rq t)" using t(2) ht by (intro mh.del_none) auto
    moreover have "t\<lparr>rq := rq t\<rparr> = t" by (cases t) simp
    ultimately have "schedule PSJF avail True s = Some (Continue, t)" using t(1) by (simp add: schedule_psjf sched_psjf_def)
    then show ?thesis using True ht t by (simp add: dispatched_def cur_mset_def)
  next
    case False
    then obtain p h where d: "dequeue (tcbmem t) (rq t) = Some (Some p, h)" "heap_inv (tcbmem t) h"
      "items (rq s) = add_mset p (items h)" "\<forall>q. q \<in># items (rq s) \<longrightarrow> tq (tcbmem s) p \<le> tq (tcbmem s) q"
      using mh.del_law [OF ht] t(2) by (auto simp: k)
    let ?s = "set_state p RUNNING (t\<lparr>rq := h\<rparr>)\<lparr>current := Some p, tot_cntx_switches := tot_cntx_switches t + 1,
      schedCtx := Behind_switch\<rparr>"
    have "schedule PSJF avail True s = Some (To_thread p, ?s)"
      using t(1) d(1) by (simp add: schedule_psjf sched_psjf_def switch_to_def)
    moreover have "dispatched s ?s" using d(2-4) t by (simp add: dispatched_def cur_mset_def)
    ultimately show ?thesis by blast
  qed
qed

lemma dispatched_pool:
  assumes d: "dispatched (lib c) s'" and inv: "pool_inv c" and out: "schedCtx (lib c) = No_context"
  shows "pool_inv (c\<lparr>lib := s'\<rparr>)" and "picks (tq (tcbmem (lib c))) (abs_pool c) (abs_pool (c\<lparr>lib := s'\<rparr>))"
proof -
  let ?s = "lib c" and ?m = "mtx c"
  note dd = d [unfolded dispatched_def] and pp = inv [unfolded pool_inv_def mutex_ok_def once_def]
  have same: "tID (tcbmem s' x) = tID (tcbmem ?s x)" "timeQuant (tcbmem s' x) = timeQuant (tcbmem ?s x)"
    "state (tcbmem s' x) = (if current s' = Some x then RUNNING else state (tcbmem ?s x))" for x using dd by auto
  have ctl: "in_control s' = current s'" "in_control ?s = None"
    using dd out by (cases "current s'"; simp add: in_control_def)+
  have q: "q \<in># items (rq ?s)" "state (tcbmem ?s q) = READY" "items (rq ?s) = add_mset q (items (rq s'))"
    "count (items (rq s')) q = 0" if "current s' = Some q" for q
  proof -
    show e: "items (rq ?s) = add_mset q (items (rq s'))" using dd that by (simp add: cur_mset_def)
    then show "q \<in># items (rq ?s)" by simp
    then show "state (tcbmem ?s q) = READY" using pp by blast
    have "count (items (rq ?s)) q \<le> 1" using pp by blast
    then show "count (items (rq s')) q = 0" using e by simp
  qed
  have sub: "items (rq ?s) = cur_mset s' + items (rq s')" using dd by blast
  have "once (rq s') READY (tcbmem s')"
    unfolding once_def
  proof (intro allI conjI impI)
    fix x
    have "count (items (rq ?s)) x \<le> 1" using pp by blast
    then show "count (items (rq s')) x \<le> 1" using sub by simp
    assume x: "x \<in># items (rq s')"
    then have "current s' \<noteq> Some x" using q(4) by (auto simp: count_eq_zero_iff)
    moreover have "state (tcbmem ?s x) = READY" using x sub pp by simp
    ultimately show "state (tcbmem s' x) = READY" using same(3) by simp
  qed
  moreover have "once (blockList ?m) BLOCKED (tcbmem s')"
    unfolding once_def
  proof (intro allI conjI impI)
    fix x
    show "count (items (blockList ?m)) x \<le> 1" using pp by blast
    assume "x \<in># items (blockList ?m)"
    then have "state (tcbmem ?s x) = BLOCKED" using pp by blast
    then show "state (tcbmem s' x) = BLOCKED" using same(3) q(2) by auto
  qed
  moreover have "state (tcbmem s' z) = FINISHED" if "z \<in> zombies c" for z
  proof -
    have "state (tcbmem ?s z) = FINISHED" using that pp by blast
    then show ?thesis using same(3) q(2) by auto
  qed
  moreover have mem: "members (abs_pool (c\<lparr>lib := s'\<rparr>)) = members (abs_pool c)"
    using sub by (auto simp: members_def abs_pool_def cur_mset_def ctl split: option.splits)
  moreover have "heap_inv (tcbmem s') (blockList ?m)"
    using pp heap_inv_cong [of "tcbmem s'" "tcbmem ?s" "blockList ?m"] same(2) by simp
  ultimately show "pool_inv (c\<lparr>lib := s'\<rparr>)"
    using dd pp same out by (simp add: pool_inv_def mutex_ok_def)
  show "picks (tq (tcbmem ?s)) (abs_pool c) (abs_pool (c\<lparr>lib := s'\<rparr>))"
  proof (cases "current s'")
    case None
    then show ?thesis using dd sub by (simp add: picks_def abs_pool_def cur_mset_def ctl)
  next
    case (Some y)
    then have "set_mset (items (rq s')) = set_mset (items (rq ?s)) - {y}" using q(3,4) [of y]
      by (auto simp: count_eq_zero_iff)
    then show ?thesis using Some dd q(1) [of y] by (simp add: picks_def abs_pool_def ctl)
  qed
qed

section \<open>Every call does what its specification says\<close>

lemma dispatch_ok:
  assumes inv: "pool_inv c" and out: "in_control (lib c) = None"
  shows "\<exists>c'. exec avail Dispatch c = Some c' \<and> pool_inv c' \<and> picks (tq (tcbmem (lib c))) (abs_pool c) (abs_pool c') \<and>
    (\<forall>x. tID (tcbmem (lib c') x) = tID (tcbmem (lib c) x) \<and> timeQuant (tcbmem (lib c') x) = timeQuant (tcbmem (lib c) x))"
proof -
  have h: "heap_inv (tcbmem (lib c)) (rq (lib c))" using inv by (simp add: pool_inv_def mutex_ok_def)
  have n: "schedCtx (lib c) = No_context"
    using inv out by (cases "schedCtx (lib c)") (auto simp: pool_inv_def in_control_def)
  then have idle: "\<forall>p. current (lib c) = Some p \<longrightarrow> state (tcbmem (lib c) p) \<noteq> RUNNING" using inv by (simp add: pool_inv_def)
  from schedule_dispatches [OF h idle, of avail]
  obtain ctl s where "schedule PSJF avail True (lib c) = Some (ctl, s)" "dispatched (lib c) s" by blast
  then show ?thesis using dispatched_pool [OF _ inv n, of s]
    by (intro exI [of _ "c\<lparr>lib := s\<rparr>"] conjI) (simp, blast, blast, simp add: dispatched_def)
qed

lemma running_apart:
  assumes "pool_inv c" "in_control (lib c) = Some p"
  shows "p \<notin># items (rq (lib c))" "p \<notin># items (blockList (mtx c))" "p \<notin> zombies c"
    "state (tcbmem (lib c) p) = RUNNING" "current (lib c) = Some p" "schedCtx (lib c) = Behind_switch"
proof -
  show c: "current (lib c) = Some p" "schedCtx (lib c) = Behind_switch" using assms(2) by (simp_all add: in_control_Some)
  show r: "state (tcbmem (lib c) p) = RUNNING" using assms(1) c by (simp add: pool_inv_def)
  have "once (rq (lib c)) READY (tcbmem (lib c))" "once (blockList (mtx c)) BLOCKED (tcbmem (lib c))"
    "\<forall>p \<in> zombies c. state (tcbmem (lib c) p) = FINISHED" using assms by (simp_all add: pool_inv_def)
  then show "p \<notin># items (rq (lib c))" "p \<notin># items (blockList (mtx c))" "p \<notin> zombies c"
    using r by (auto simp: once_def)
qed

lemma once_moved:
  assumes h: "once h w st" and p: "p \<notin># items h" and h': "items h' = items h + (if v = w then {#p#} else {#})"
    and st: "\<forall>x. state (st' x) = (if x = p then v else state (st x))"
  shows "once h' w st'"
  unfolding once_def
proof (intro allI conjI impI)
  fix x
  have "count (items h) x \<le> 1" "count (items h) p = 0" using h p by (simp_all add: once_def count_eq_zero_iff)
  then show "count (items h') x \<le> 1" using h' by auto
  assume "x \<in># items h'"
  then show "state (st' x) = w" using h p h' st by (cases "x = p") (auto simp: once_def split: if_splits)
qed

text \<open>
  The thread \<open>p\<close> that ran is given the state \<open>v\<close> and put where threads of that state belong.
\<close>

definition moved :: "pool \<Rightarrow> tptr \<Rightarrow> status \<Rightarrow> worker_mutex \<Rightarrow> sys \<Rightarrow> tptr set \<Rightarrow> bool" where
  "moved c p v m s Z \<longleftrightarrow> v \<noteq> RUNNING \<and> mutex_ok m s \<and> current s = Some p \<and> threadID s = threadID (lib c) \<and>
     schedCtx s = schedCtx (lib c) \<and> freed_blocks s = freed_blocks (lib c) \<and>
     (\<forall>x. tID (tcbmem s x) = tID (tcbmem (lib c) x) \<and> timeQuant (tcbmem s x) = timeQuant (tcbmem (lib c) x) \<and>
        state (tcbmem s x) = (if x = p then v else state (tcbmem (lib c) x))) \<and>
     items (rq s) = items (rq (lib c)) + (if v = READY then {#p#} else {#}) \<and>
     items (blockList m) = items (blockList (mtx c)) + (if v = BLOCKED then {#p#} else {#}) \<and>
     Z = zombies c \<union> (if v = FINISHED then {p} else {})"

text \<open>It gives control up, which goes back to the caller of \<open>schedule\<close>.\<close>

lemma moved_rests:
  assumes inv: "pool_inv c" and p: "in_control (lib c) = Some p" and mv: "moved c p v m s Z"
  shows "resume_sched s = Some (s\<lparr>schedCtx := No_context\<rparr>)"
    "pool_inv \<lparr>mtx = m, lib = s\<lparr>schedCtx := No_context\<rparr>, zombies = Z\<rparr>"
    "abs_pool \<lparr>mtx = m, lib = s\<lparr>schedCtx := No_context\<rparr>, zombies = Z\<rparr> =
      \<lparr>ready = set_mset (items (rq s)), waiting = set_mset (items (blockList m)), running = None, ended = Z, held = taken m\<rparr>"
proof -
  have ok: "mutex_ok m s" and same: "\<forall>x. tID (tcbmem s x) = tID (tcbmem (lib c) x) \<and>
      state (tcbmem s x) = (if x = p then v else state (tcbmem (lib c) x))"
    and rq: "items (rq s) = items (rq (lib c)) + (if v = READY then {#p#} else {#})"
    and bl: "items (blockList m) = items (blockList (mtx c)) + (if v = BLOCKED then {#p#} else {#})"
    and z: "Z = zombies c \<union> (if v = FINISHED then {p} else {})"
    and v: "v \<noteq> RUNNING" and ids: "threadID s = threadID (lib c)" "freed_blocks s = freed_blocks (lib c)"
    and cur: "current s = Some p" "schedCtx s = schedCtx (lib c)"
    using mv unfolding moved_def by blast+
  note a = running_apart [OF inv p]
  note i = inv [unfolded pool_inv_def once_def]
  let ?c = "\<lparr>mtx = m, lib = s\<lparr>schedCtx := No_context\<rparr>, zombies = Z\<rparr>"
  show "resume_sched s = Some (s\<lparr>schedCtx := No_context\<rparr>)" using cur(2) a(6) by (simp add: resume_sched_def)
  show abs: "abs_pool ?c = \<lparr>ready = set_mset (items (rq s)), waiting = set_mset (items (blockList m)), running = None,
      ended = Z, held = taken m\<rparr>" by (simp add: abs_pool_def in_control_def)
  have m: "members (abs_pool ?c) = members (abs_pool c)"
    unfolding abs using v rq bl z p by (cases v) (auto simp: members_def abs_pool_def)
  have t: "tID (tcbmem s x) = tID (tcbmem (lib c) x)" for x using same by blast
  have st: "\<forall>x. state (tcbmem s x) = (if x = p then v else state (tcbmem (lib c) x))" using same by blast
  have "once (rq s) READY (tcbmem s)" by (rule once_moved [OF _ a(1) rq st]) (use inv in \<open>simp add: pool_inv_def\<close>)
  moreover have "once (blockList m) BLOCKED (tcbmem s)"
    by (rule once_moved [OF _ a(2) bl st]) (use inv in \<open>simp add: pool_inv_def\<close>)
  moreover have "state (tcbmem s x) = FINISHED" if "x \<in> Z" for x
    using that a(3) z st i by (cases "x = p") (auto split: if_splits)
  moreover have "mutex_ok m (s\<lparr>schedCtx := No_context\<rparr>)" using ok by (simp add: mutex_ok_def)
  ultimately show "pool_inv ?c" using i v cur(1) st unfolding pool_inv_def m by (simp add: t ids)
qed

lemma moved_keys:
  assumes "moved c p v m s Z"
  shows "tID (tcbmem (s\<lparr>schedCtx := No_context\<rparr>) x) = tID (tcbmem (lib c) x)"
    "timeQuant (tcbmem (s\<lparr>schedCtx := No_context\<rparr>) x) = timeQuant (tcbmem (lib c) x)"
  using assms by (simp_all add: moved_def)

lemma pool_lib: "\<lparr>mtx = mtx c, lib = s, zombies = zombies c\<rparr> = c\<lparr>lib := s\<rparr>"
  by (cases c) simp

lemma yield_ok:
  assumes inv: "pool_inv c" and p: "in_control (lib c) = Some p" and av: "\<forall>n. avail n"
  shows "\<exists>ctl s s'. worker_yield avail (lib c) = Some (ctl, s) \<and> resume_sched s = Some s' \<and> pool_inv (c\<lparr>lib := s'\<rparr>) \<and>
    abs_pool (c\<lparr>lib := s'\<rparr>) = gives_way (abs_pool c) \<and>
    (\<forall>x. tID (tcbmem s' x) = tID (tcbmem (lib c) x) \<and> timeQuant (tcbmem s' x) = timeQuant (tcbmem (lib c) x))"
proof -
  let ?s = "set_state p READY (lib c)"
  note cp = running_apart(5) [OF inv p]
  have ok: "mutex_ok (mtx c) (lib c)" using inv by (simp add: pool_inv_def)
  then have "heap_inv (tcbmem ?s) (rq ?s)" by (simp add: mutex_ok_def)
  from enqueue_rq_ok [OF this av] obtain h where h: "enqueue_rq avail p ?s = Some (?s\<lparr>rq := h\<rparr>)"
    "heap_inv (tcbmem ?s) h" "items h = add_mset p (items (rq ?s))" by blast
  let ?t = "update_tcb p (\<lambda>t. t\<lparr>ctx := Suspended\<rparr>) (?s\<lparr>rq := h\<rparr>)"
  have y: "worker_yield avail (lib c) = Some (To_sched, ?t)" using cp h(1) by (simp add: worker_yield_def)
  have mv: "moved c p READY (mtx c) ?t (zombies c)"
    using ok cp h(2,3) by (simp add: moved_def mutex_ok_def)
  note m = moved_rests [OF inv p mv]
  have "abs_pool (c\<lparr>lib := ?t\<lparr>schedCtx := No_context\<rparr>\<rparr>) = gives_way (abs_pool c)"
    using m(3) p h(3) by (simp only: pool_lib) (simp add: gives_way_def abs_pool_def)
  then show ?thesis using y m(1,2) moved_keys [OF mv] by (simp only: pool_lib) blast
qed

lemma exit_ok:
  assumes inv: "pool_inv c" and p: "in_control (lib c) = Some p"
  shows "\<exists>c'. exec avail (Exit v) c = Some c' \<and> pool_inv c' \<and> call_spec k ids (Exit v) (abs_pool c) (abs_pool c')"
proof -
  let ?s = "update_tcb p (\<lambda>t. t\<lparr>retValue := v\<rparr>) (set_state p FINISHED (lib c))"
  note cp = running_apart(5) [OF inv p]
  have x: "worker_exit v (lib c) = Some (To_sched, ?s)" using cp by (simp add: worker_exit_def Let_def)
  have "mutex_ok (mtx c) (lib c)" using inv by (simp add: pool_inv_def)
  then have "moved c p FINISHED (mtx c) ?s (zombies c \<union> {p})" using cp by (simp add: moved_def mutex_ok_def)
  note m = moved_rests [OF inv p this]
  have "exec avail (Exit v) c = Some \<lparr>mtx = mtx c, lib = ?s\<lparr>schedCtx := No_context\<rparr>, zombies = zombies c \<union> {p}\<rparr>"
    using x m(1) cp by (cases c) simp
  moreover have "(abs_pool c)\<lparr>ended := ended (abs_pool c) \<union> set_option (running (abs_pool c)), running := None\<rparr> =
    \<lparr>ready = set_mset (items (rq ?s)), waiting = set_mset (items (blockList (mtx c))), running = None,
      ended = zombies c \<union> {p}, held = taken (mtx c)\<rparr>" using p by (simp add: abs_pool_def)
  ultimately show ?thesis using m(2,3) by (simp only: call_spec.simps) metis
qed

lemma lock_ok:
  assumes inv: "pool_inv c" and p: "held (abs_pool c) \<Longrightarrow> running (abs_pool c) \<noteq> None" and av: "\<forall>n. avail n"
  shows "\<exists>c'. exec avail Lock c = Some c' \<and> pool_inv c' \<and> call_spec k ids Lock (abs_pool c) (abs_pool c')"
proof (cases "taken (mtx c)")
  case False
  then obtain m where m: "worker_mutex_lock avail (mtx c) (lib c) = Some (Continue, m, lib c)" "taken m"
    "blockList m = blockList (mtx c)" by (rule lock_free)
  let ?c = "c\<lparr>mtx := m\<rparr>"
  have "exec avail Lock c = Some ?c" using m(1) by (cases c) simp
  moreover have "pool_inv ?c" using inv m(3) by (simp add: pool_inv_def abs_pool_def members_def mutex_ok_def)
  moreover have "abs_pool ?c = (abs_pool c)\<lparr>held := True\<rparr>" "\<not> held (abs_pool c)"
    using False m(2,3) by (simp_all add: abs_pool_def)
  ultimately show ?thesis by auto
next
  case True
  then obtain p where p: "in_control (lib c) = Some p" using p by (auto simp: abs_pool_def)
  note cp = running_apart(5) [OF inv p]
  have ok: "mutex_ok (mtx c) (lib c)" using inv by (simp add: pool_inv_def)
  show ?thesis
  proof (cases rule: lock_cases [OF ok cp av])
    case 1
    then show ?thesis using True by simp
  next
    case (2 m s)
    have n: "inj_on (\<lambda>p. tID (tcbmem (lib c) p)) (members (abs_pool c))" using inv by (simp add: pool_inv_def)
    have apart: "tID (tcbmem (lib c) q) \<noteq> tID (tcbmem (lib c) p)" if "q \<in># items (rq (lib c))" for q
    proof
      assume "tID (tcbmem (lib c) q) = tID (tcbmem (lib c) p)"
      moreover have "q \<in> members (abs_pool c)" "p \<in> members (abs_pool c)"
        using that p by (simp_all add: members_def abs_pool_def)
      ultimately have "q = p" using n by (simp add: inj_on_def)
      then show False using that running_apart(1) [OF inv p] by simp
    qed
    then have "rq s = rq (lib c)" using 2(10) by blast
    then have mv: "moved c p BLOCKED m s (zombies c)" using 2 cp by (simp add: moved_def)
    note r = moved_rests [OF inv p mv]
    have "exec avail Lock c = Some \<lparr>mtx = m, lib = s\<lparr>schedCtx := No_context\<rparr>, zombies = zombies c\<rparr>"
      using 2(2) r(1) by (cases c) simp
    moreover have "(abs_pool c)\<lparr>waiting := waiting (abs_pool c) \<union> set_option (running (abs_pool c)), running := None\<rparr> =
      \<lparr>ready = set_mset (items (rq s)), waiting = set_mset (items (blockList m)), running = None,
        ended = zombies c, held = taken m\<rparr>" "held (abs_pool c)"
      using p 2(1,3,5) \<open>rq s = rq (lib c)\<close> by (simp_all add: abs_pool_def)
    ultimately show ?thesis using r(2,3) by (simp only: call_spec.simps if_True) metis
  qed
qed

lemma once_left:
  assumes h: "once h w st" and h': "items h = add_mset q (items h')"
    and st: "\<forall>x. x \<noteq> q \<longrightarrow> state (st' x) = state (st x)"
  shows "once h' w st'"
  unfolding once_def
proof (intro allI conjI impI)
  fix x
  have c: "count (items h) x \<le> 1" "count (items h) q \<le> 1" using h by (simp_all add: once_def)
  then show "count (items h') x \<le> 1" using h' by (simp split: if_splits)
  have n: "count (items h') q = 0" using c(2) h' by simp
  assume x: "x \<in># items h'"
  then have "x \<noteq> q" using n by (auto simp: count_eq_zero_iff)
  moreover have "state (st x) = w" using h h' x by (simp add: once_def)
  ultimately show "state (st' x) = w" using st by simp
qed

lemma unlock_ok:
  assumes inv: "pool_inv c" and av: "\<forall>n. avail n"
  shows "\<exists>c'. exec avail Unlock c = Some c' \<and> pool_inv c' \<and>
    call_spec (tq (tcbmem (lib c))) ids Unlock (abs_pool c) (abs_pool c')"
proof -
  have ok: "mutex_ok (mtx c) (lib c)" using inv by (simp add: pool_inv_def)
  note i = inv [unfolded pool_inv_def]
  show ?thesis
  proof (cases rule: unlock_cases [OF ok av])
    case (1 m)
    let ?c = "c\<lparr>mtx := m\<rparr>"
    have "exec avail Unlock c = Some ?c" using 1(2) by (cases c) simp
    moreover have "pool_inv ?c" using inv 1(4,5) by (simp add: pool_inv_def abs_pool_def members_def)
    moreover have "abs_pool ?c = (abs_pool c)\<lparr>held := False\<rparr>" "waiting (abs_pool c) = {}"
      using 1(1,3,4) by (simp_all add: abs_pool_def)
    ultimately show ?thesis by auto
  next
    case (2 q m s)
    let ?c = "c\<lparr>mtx := m, lib := s\<rparr>"
    have b: "q \<in># items (blockList (mtx c))" using 2(4) by simp
    then have sq: "state (tcbmem (lib c) q) = BLOCKED" using i by (simp add: once_def)
    then have nq: "q \<notin># items (rq (lib c))" "\<forall>p \<in> zombies c. p \<noteq> q" "in_control (lib c) \<noteq> Some q"
      using i by (auto simp: once_def in_control_Some)
    have ctl: "in_control s = in_control (lib c)" using 2(8,10) by (simp add: in_control_def)
    have st: "\<forall>x. state (tcbmem s x) = (if x = q then READY else state (tcbmem (lib c) x))" using 2(7) by simp
    have id: "tID (tcbmem s x) = tID (tcbmem (lib c) x)" for x using 2(7) by simp
    have "once (rq s) READY (tcbmem s)"
      by (rule once_moved [OF _ nq(1) _ st]) (use i 2(5) in auto)
    moreover have "once (blockList m) BLOCKED (tcbmem s)"
      by (rule once_left [OF _ 2(4), where st = "tcbmem (lib c)"]) (use i st in auto)
    moreover have "members (abs_pool ?c) = members (abs_pool c)"
      using 2(4,5) ctl by (auto simp: members_def abs_pool_def)
    moreover have "\<forall>p. current s = Some p \<longrightarrow> (state (tcbmem s p) = RUNNING \<longleftrightarrow> schedCtx s = Behind_switch)"
      using i st nq(3) 2(8,10) by (auto simp: in_control_Some)
    ultimately have "pool_inv ?c" using i 2(3,8-11) st nq by (simp add: pool_inv_def id)
    moreover have "exec avail Unlock c = Some ?c" using 2(1) by (cases c) simp
    moreover have "set_mset (items (blockList m)) = set_mset (items (blockList (mtx c))) - {q}"
    proof -
      have "count (items (blockList (mtx c))) q \<le> 1" using i by (simp add: once_def)
      then show ?thesis using 2(4) by (auto simp: not_in_iff)
    qed
    then have "abs_pool ?c = (abs_pool c)\<lparr>held := False, waiting := waiting (abs_pool c) - {q}, ready := insert q (ready (abs_pool c))\<rparr>"
      using 2(2,5) ctl by (simp add: abs_pool_def)
    moreover have "q \<in> waiting (abs_pool c)" "\<forall>x \<in> waiting (abs_pool c). tq (tcbmem (lib c)) q \<le> tq (tcbmem (lib c)) x"
      using b 2(6) by (simp_all add: abs_pool_def)
    ultimately show ?thesis by (auto simp: abs_pool_def)
  qed
qed

lemma heap_inv_cong_in:
  assumes "\<forall>p. p \<in># items h \<longrightarrow> timeQuant (st' p) = timeQuant (st p)"
  shows "heap_inv st' h = heap_inv st h"
proof (cases "threads h \<le> length (arr h)")
  case True
  have mem: "arr h ! j \<in># items h" if "j < threads h" for j
    using that True by (auto simp: items_def in_set_conv_nth)
  have "parent_of j < threads h" if "j < threads h" for j using that parent_le [of j] by linarith
  then show ?thesis using assms mem by (auto simp: heap_inv_def heap_ok_def)
next
  case False
  then show ?thesis by (auto simp: heap_inv_def)
qed

lemma create_ok:
  assumes inv: "pool_inv c" and av: "\<forall>n. avail n" and fresh: "\<forall>b \<in> fst ` set_option mem. b \<notin> members (abs_pool c)"
  shows "\<exists>c'. exec avail (Create stk mem f a) c = Some c' \<and> pool_inv c' \<and>
    call_spec k ids (Create stk mem f a) (abs_pool c) (abs_pool c')"
proof (cases "stk = 0 \<or> mem = None")
  case True
  then have "exec avail (Create stk mem f a) c = Some c" by (auto simp: worker_create_def)
  then show ?thesis using True inv by auto
next
  case False
  then obtain b g where mem: "mem = Some (b, g)" and stk: "stk \<noteq> 0" by auto
  note i = inv [unfolded pool_inv_def]
  let ?l = "lib c"
  define u where "u = g\<lparr>tID := threadID ?l, state := READY, ctx := Fresh f a stk, stack := stk, next_tcb := None\<rparr>"
  let ?s = "?l\<lparr>threadID := threadID ?l + 1, tcbmem := (tcbmem ?l)(b := u), freed_blocks := removeAll b (freed_blocks ?l)\<rparr>"
  have ctl: "in_control (?s\<lparr>rq := h\<rparr>) = in_control ?l" for h by (simp add: in_control_def)
  have u: "state u = READY" "tID u = threadID ?l" by (simp_all add: u_def)
  have b: "b \<notin># items (rq ?l)" "b \<notin># items (blockList (mtx c))" "\<forall>p \<in> zombies c. p \<noteq> b" "in_control ?l \<noteq> Some b"
    using fresh mem by (auto simp: members_def abs_pool_def)
  have cur: "\<forall>p. current ?l = Some p \<longrightarrow> (state (tcbmem ?s p) = RUNNING \<longleftrightarrow> schedCtx ?l = Behind_switch)"
    using i b(4) u by (auto simp: in_control_Some)
  have ok: "heap_inv (tcbmem ?l) (rq ?l)" "heap_inv (tcbmem ?l) (blockList (mtx c))" using i by (simp_all add: mutex_ok_def)
  have "heap_inv (tcbmem ?s) (rq ?s)" "heap_inv (tcbmem ?s) (blockList (mtx c))"
    using ok b(1,2) heap_inv_cong_in [of "rq ?l" "tcbmem ?s" "tcbmem ?l"]
      heap_inv_cong_in [of "blockList (mtx c)" "tcbmem ?s" "tcbmem ?l"] by auto
  then obtain h where h: "enqueue_rq avail b ?s = Some (?s\<lparr>rq := h\<rparr>)" "heap_inv (tcbmem ?s) h"
    "items h = add_mset b (items (rq ?s))" "heap_inv (tcbmem ?s) (blockList (mtx c))"
    using enqueue_rq_ok [OF _ av, of ?s b] by blast
  let ?c = "c\<lparr>lib := ?s\<lparr>rq := h\<rparr>\<rparr>"
  have "exec avail (Create stk mem f a) c = Some ?c"
    using mem stk h(1) by (simp add: worker_create_def u_def)
  moreover have "pool_inv ?c"
  proof -
    have m: "members (abs_pool ?c) = insert b (members (abs_pool c))"
      using h(3) ctl by (auto simp: members_def abs_pool_def)
    have st: "\<forall>x. state (tcbmem ?s x) = (if x = b then READY else state (tcbmem ?l x))" using u by simp
    have "once h READY (tcbmem ?s)" by (rule once_moved [OF _ b(1) _ st]) (use i h(3) in auto)
    moreover have "once (blockList (mtx c)) BLOCKED (tcbmem ?s)"
      by (rule once_moved [OF _ b(2) _ st]) (use i in auto)
    moreover have nb: "b \<notin> members (abs_pool c)" using b by (auto simp: members_def abs_pool_def)
    have id: "tID (tcbmem ?s x) = tID (tcbmem ?l x)" "tID (tcbmem ?l x) < threadID ?l" if "x \<in> members (abs_pool c)" for x
      using that nb i by auto
    have "inj_on (\<lambda>p. tID (tcbmem ?s p)) (insert b (members (abs_pool c)))"
      unfolding inj_on_insert
    proof (intro conjI)
      show "inj_on (\<lambda>p. tID (tcbmem ?s p)) (members (abs_pool c))" using i id(1) by (simp add: inj_on_def)
      have "tID (tcbmem ?s x) \<noteq> tID (tcbmem ?s b)" if "x \<in> members (abs_pool c) - {b}" for x
        using that id(2) [of x] u by simp
      then show "tID (tcbmem ?s b) \<notin> (\<lambda>p. tID (tcbmem ?s p)) ` (members (abs_pool c) - {b})"
        unfolding image_iff by metis
    qed
    moreover have "tID (tcbmem ?s x) < threadID ?s" if "x \<in> insert b (members (abs_pool c))" for x
      using that id(2) [of x] u by (cases "x = b") simp_all
    moreover have "insert b (members (abs_pool c)) \<inter> set (removeAll b (freed_blocks ?l)) = {}" using i by auto
    ultimately show ?thesis using i h(2,4) st b(3) cur unfolding pool_inv_def m by (simp add: mutex_ok_def)
  qed
  moreover have "abs_pool ?c = (abs_pool c)\<lparr>ready := ready (abs_pool c) \<union> fst ` set_option mem\<rparr>"
    using h(3) mem ctl by (simp add: abs_pool_def)
  ultimately show ?thesis using stk by (auto simp del: exec.simps)
qed

lemma join_loop_ok:
  assumes inv: "pool_inv c" and p: "in_control (lib c) = Some p" and av: "\<forall>n. avail n"
    and b: "b \<in> members (abs_pool c)" "b \<in> zombies c \<longrightarrow> vp"
  shows "\<exists>c'. exec avail (Rejoin b vp) c = Some c' \<and> pool_inv c' \<and>
    call_spec k ids (Rejoin b vp) (abs_pool c) (abs_pool c') \<and>
    (\<forall>x. tID (tcbmem (lib c') x) = tID (tcbmem (lib c) x) \<and> timeQuant (tcbmem (lib c') x) = timeQuant (tcbmem (lib c) x))"
proof -
  note i = inv [unfolded pool_inv_def]
  have f: "b \<in> zombies c \<longleftrightarrow> state (tcbmem (lib c) b) = FINISHED"
    using b(1) i by (auto simp: members_def abs_pool_def once_def in_control_Some)
  have live: "b \<notin> set (freed_blocks (lib c))" using b(1) i by blast
  show ?thesis
  proof (cases "b \<in> zombies c")
    case True
    let ?t = "tID (tcbmem (lib c) b)"
    have h: "heap_inv (tcbmem (lib c)) (rq (lib c))" using i by (simp add: mutex_ok_def)
    have "tID (tcbmem (lib c) q) \<noteq> ?t" if "q \<in># items (rq (lib c))" for q
    proof
      assume e: "tID (tcbmem (lib c) q) = ?t"
      have "q \<in> members (abs_pool c)" using that by (simp add: members_def abs_pool_def)
      then have "q = b" using e b(1) i by (simp add: inj_on_def)
      then show False using that i True by (auto simp: once_def)
    qed
    then have "searchByTID (tcbmem (lib c)) (rq (lib c)) ?t = None" using searchByTID_None [OF h] by blast
    then have rm: "removeNode (tcbmem (lib c)) (rq (lib c)) ?t = (-1, rq (lib c))" by (rule removeNode_absent)
    let ?s = "(lib c)\<lparr>freed_stacks := stack (tcbmem (lib c) b) # freed_stacks (lib c),
      freed_blocks := b # freed_blocks (lib c)\<rparr>"
    have same: "(lib c)\<lparr>rq := rq (lib c), freed_stacks := stack (tcbmem (lib c) b) # freed_stacks (lib c),
      freed_blocks := b # freed_blocks (lib c)\<rparr> = ?s" by (cases "lib c") simp
    let ?c = "c\<lparr>lib := ?s, zombies := zombies c - {b}\<rparr>"
    have "exec avail (Rejoin b vp) c = Some ?c"
      using True b(2) f live rm same by (simp add: join_loop_def join_answer_def)
    moreover have "pool_inv ?c"
    proof -
      have ctl: "in_control ?s = in_control (lib c)" by (simp add: in_control_def)
      have "b \<notin> ready (abs_pool c) \<union> waiting (abs_pool c)" "in_control (lib c) \<noteq> Some b"
        using i f True by (auto simp: once_def abs_pool_def in_control_Some)
      then have "members (abs_pool ?c) \<subseteq> members (abs_pool c) - {b}"
        by (auto simp: members_def abs_pool_def ctl)
      then show ?thesis using i by (auto simp: pool_inv_def mutex_ok_def intro: inj_on_subset)
    qed
    ultimately show ?thesis using True by (simp add: abs_pool_def in_control_def)
  next
    case False
    from yield_ok [OF inv p av] obtain ctl s s' where "worker_yield avail (lib c) = Some (ctl, s)" "resume_sched s = Some s'"
      "pool_inv (c\<lparr>lib := s'\<rparr>)" "abs_pool (c\<lparr>lib := s'\<rparr>) = gives_way (abs_pool c)"
      "\<forall>x. tID (tcbmem s' x) = tID (tcbmem (lib c) x) \<and> timeQuant (tcbmem s' x) = timeQuant (tcbmem (lib c) x)" by blast
    moreover have "c\<lparr>lib := s', zombies := zombies c\<rparr> = c\<lparr>lib := s'\<rparr>" by (cases c) simp
    moreover have "b \<notin> ended (abs_pool c)" using False by (simp add: abs_pool_def)
    ultimately show ?thesis using False f live by (simp add: join_loop_def join_answer_def)
  qed
qed

lemma join_ok:
  assumes inv: "pool_inv c" and p: "in_control (lib c) = Some p" and av: "\<forall>n. avail n"
  shows "\<exists>c'. exec avail (Join t vp) c = Some c' \<and> pool_inv c' \<and>
    call_spec k (\<lambda>p. tID (tcbmem (lib c) p)) (Join t vp) (abs_pool c) (abs_pool c') \<and>
    (\<forall>x. tID (tcbmem (lib c') x) = tID (tcbmem (lib c) x) \<and> timeQuant (tcbmem (lib c') x) = timeQuant (tcbmem (lib c) x))"
proof -
  note i = inv [unfolded pool_inv_def]
  have h: "heap_inv (tcbmem (lib c)) (rq (lib c))" using i by (simp add: mutex_ok_def)
  show ?thesis
  proof (cases "searchByTID (tcbmem (lib c)) (rq (lib c)) t")
    case None
    then have "t \<notin> (\<lambda>p. tID (tcbmem (lib c) p)) ` ready (abs_pool c)"
      using searchByTID_None [OF h, of t] by (auto simp: abs_pool_def)
    then show ?thesis using None inv by (cases c) (simp add: worker_join_def join_answer_def)
  next
    case (Some b)
    then have b: "b \<in># items (rq (lib c))" "tID (tcbmem (lib c) b) = t" using searchByTID_Some [OF h Some] by auto
    then have "state (tcbmem (lib c) b) \<noteq> FINISHED" using i by (auto simp: once_def)
    moreover have "b \<in> members (abs_pool c)" using b(1) by (simp add: members_def abs_pool_def)
    then have "b \<notin> set (freed_blocks (lib c))" using i by blast
    moreover from yield_ok [OF inv p av] obtain ctl s s' where "worker_yield avail (lib c) = Some (ctl, s)"
      "resume_sched s = Some s'" "pool_inv (c\<lparr>lib := s'\<rparr>)" "abs_pool (c\<lparr>lib := s'\<rparr>) = gives_way (abs_pool c)"
      "\<forall>x. tID (tcbmem s' x) = tID (tcbmem (lib c) x) \<and> timeQuant (tcbmem s' x) = timeQuant (tcbmem (lib c) x)" by blast
    moreover have "t \<in> (\<lambda>p. tID (tcbmem (lib c) p)) ` ready (abs_pool c)" using b by (auto simp: abs_pool_def)
    ultimately show ?thesis using Some by (simp add: worker_join_def join_loop_def join_answer_def)
  qed
qed

lemma exec_refines:
  assumes inv: "pool_inv c" and ok: "call_ok call (abs_pool c)" and av: "\<forall>n. avail n"
  shows "\<exists>c'. exec avail call c = Some c' \<and> pool_inv c' \<and>
    call_spec (tq (tcbmem (lib c))) (\<lambda>p. tID (tcbmem (lib c) p)) call (abs_pool c) (abs_pool c')"
proof (cases call)
  case Yield
  then obtain p where "in_control (lib c) = Some p" using ok by (auto simp: abs_pool_def)
  from yield_ok [OF inv this av] show ?thesis using Yield by auto
next
  case (Create stk mem f a)
  then show ?thesis using create_ok [OF inv av] ok by simp
next
  case (Exit v)
  then obtain p where "in_control (lib c) = Some p" using ok by (auto simp: abs_pool_def)
  from exit_ok [OF inv this] show ?thesis using Exit by blast
next
  case Lock
  then have "held (abs_pool c) \<Longrightarrow> running (abs_pool c) \<noteq> None" using ok by simp
  from lock_ok [OF inv this av] show ?thesis using Lock by blast
next
  case Unlock
  then show ?thesis using unlock_ok [OF inv av] by blast
next
  case (Join t vp)
  then obtain p where "in_control (lib c) = Some p" using ok by (auto simp: abs_pool_def)
  from join_ok [OF inv this av] show ?thesis using Join by blast
next
  case (Rejoin b vp)
  then obtain p where "in_control (lib c) = Some p" "b \<in> members (abs_pool c)" "b \<in> zombies c \<longrightarrow> vp"
    using ok by (auto simp: abs_pool_def)
  from join_loop_ok [OF inv this(1) av this(2,3)] show ?thesis using Rejoin by blast
next
  case Dispatch
  then have "in_control (lib c) = None" using ok by (simp add: abs_pool_def)
  from dispatch_ok [OF inv this, of avail] show ?thesis using Dispatch by (auto simp del: exec.simps)
qed

section \<open>Sequences of calls\<close>

fun exec_all :: "(nat \<Rightarrow> bool) \<Rightarrow> thread_call list \<Rightarrow> pool \<Rightarrow> pool option" where
  "exec_all avail [] c = Some c"
| "exec_all avail (call # calls) c = do {
     c \<leftarrow> exec avail call c;
     exec_all avail calls c
   }"

text \<open>Every call of the sequence is allowed in the pool it is made in.\<close>

fun calls_ok :: "(nat \<Rightarrow> bool) \<Rightarrow> thread_call list \<Rightarrow> pool \<Rightarrow> bool" where
  "calls_ok avail [] c \<longleftrightarrow> True"
| "calls_ok avail (call # calls) c \<longleftrightarrow> call_ok call (abs_pool c) \<and>
     (case exec avail call c of None \<Rightarrow> True | Some c \<Rightarrow> calls_ok avail calls c)"

text \<open>A thread is in one place.\<close>

definition one_place :: "apool \<Rightarrow> bool" where
  "one_place a \<longleftrightarrow> ready a \<inter> waiting a = {} \<and> (ready a \<union> waiting a) \<inter> ended a = {} \<and>
     set_option (running a) \<inter> (ready a \<union> waiting a \<union> ended a) = {}"

lemma pool_one_place: "pool_inv c \<Longrightarrow> one_place (abs_pool c)"
  by (fastforce simp: pool_inv_def once_def one_place_def abs_pool_def in_control_Some)

lemma picks_members: "picks k a a' \<Longrightarrow> members a' = members (a\<lparr>running := None\<rparr>)"
  by (auto simp: picks_def members_def split: option.splits)

lemma call_keeps_members:
  assumes "call_spec k ids call a a'" "call_ok call a" "p \<in> members a"
  shows "p \<in> members a' \<or> (\<exists>vp. call = Rejoin p vp)"
  using assms
  by (cases call) (auto simp: gives_way_def members_def dest!: picks_members split: if_splits)

lemma exec_all_keeps:
  assumes av: "\<forall>n. avail n"
  shows "pool_inv c \<Longrightarrow> calls_ok avail calls c \<Longrightarrow> \<exists>c'. exec_all avail calls c = Some c' \<and> pool_inv c' \<and>
    (\<forall>p \<in> members (abs_pool c). p \<in> members (abs_pool c') \<or> (\<exists>vp. Rejoin p vp \<in> set calls))"
proof (induction calls arbitrary: c)
  case (Cons call calls)
  then have "call_ok call (abs_pool c)" by simp
  from exec_refines [OF Cons.prems(1) this av]
  obtain c1 where c1: "exec avail call c = Some c1" "pool_inv c1"
    "call_spec (tq (tcbmem (lib c))) (\<lambda>p. tID (tcbmem (lib c) p)) call (abs_pool c) (abs_pool c1)" by blast
  then have "calls_ok avail calls c1" using Cons.prems(2) by simp
  from Cons.IH [OF c1(2) this] obtain c' where c': "exec_all avail calls c1 = Some c'" "pool_inv c'"
    "\<forall>p \<in> members (abs_pool c1). p \<in> members (abs_pool c') \<or> (\<exists>vp. Rejoin p vp \<in> set calls)" by blast
  have "p \<in> members (abs_pool c') \<or> (\<exists>vp. Rejoin p vp \<in> set (call # calls))" if "p \<in> members (abs_pool c)" for p
    using call_keeps_members [OF c1(3) \<open>call_ok call (abs_pool c)\<close> that] c'(3) by auto
  then show ?case using c1(1) c'(1,2) by simp
qed simp

section \<open>Waiting for a thread with a longer quantum\<close>

text \<open>
  Thread \<open>p\<close> has a smaller quantum than every other ready thread, \<open>b\<close> among them, and is in control, or
  has just yielded and nobody is.
\<close>

definition ahead :: "tptr \<Rightarrow> tptr \<Rightarrow> pool \<Rightarrow> bool" where
  "ahead p b c \<longleftrightarrow> pool_inv c \<and> b \<noteq> p \<and> b \<in> ready (abs_pool c) \<and>
     (\<forall>q \<in> ready (abs_pool c) - {p}. tq (tcbmem (lib c)) p < tq (tcbmem (lib c)) q)"

definition at_work :: "tptr \<Rightarrow> tptr \<Rightarrow> pool \<Rightarrow> bool" where
  "at_work p b c \<longleftrightarrow> ahead p b c \<and> running (abs_pool c) = Some p"

definition at_rest :: "tptr \<Rightarrow> tptr \<Rightarrow> pool \<Rightarrow> bool" where
  "at_rest p b c \<longleftrightarrow> ahead p b c \<and> running (abs_pool c) = None \<and> p \<in> ready (abs_pool c)"

lemma gives_way_rests:
  assumes w: "at_work p b c" and c': "pool_inv c'" "abs_pool c' = gives_way (abs_pool c)"
    and k: "\<forall>x. timeQuant (tcbmem (lib c') x) = timeQuant (tcbmem (lib c) x)"
  shows "at_rest p b c'"
  using w c' k by (auto simp: at_work_def at_rest_def ahead_def gives_way_def)

lemma dispatch_wakes:
  assumes r: "at_rest p b c"
  shows "\<exists>c'. exec avail Dispatch c = Some c' \<and> at_work p b c' \<and>
    (\<forall>x. tID (tcbmem (lib c') x) = tID (tcbmem (lib c) x))"
proof -
  have inv: "pool_inv c" and out: "in_control (lib c) = None" using r by (simp_all add: at_rest_def ahead_def abs_pool_def)
  obtain c' where c': "exec avail Dispatch c = Some c'" "pool_inv c'" "picks (tq (tcbmem (lib c))) (abs_pool c) (abs_pool c')"
    "\<forall>x. tID (tcbmem (lib c') x) = tID (tcbmem (lib c) x) \<and> timeQuant (tcbmem (lib c') x) = timeQuant (tcbmem (lib c) x)"
    using dispatch_ok [OF inv out, of avail] by (elim exE conjE) (rule that)
  have a: "p \<in> ready (abs_pool c)" "b \<in> ready (abs_pool c)" "b \<noteq> p"
    "\<forall>q \<in> ready (abs_pool c) - {p}. tq (tcbmem (lib c)) p < tq (tcbmem (lib c)) q"
    using r by (simp_all add: at_rest_def ahead_def)
  then obtain q where q: "running (abs_pool c') = Some q" "q \<in> ready (abs_pool c)"
    "tq (tcbmem (lib c)) q \<le> tq (tcbmem (lib c)) p" "ready (abs_pool c') = ready (abs_pool c) - {q}"
    using c'(3) by (auto simp: picks_def split: option.splits)
  then have "q = p" using a(4) by (meson DiffI leD singletonD)
  then have "at_work p b c'" using a c'(2,4) q(1,4) by (simp add: at_work_def ahead_def)
  then show ?thesis using c'(1,4) by blast
qed

lemma rejoin_rests:
  assumes w: "at_work p b c" and av: "\<forall>n. avail n"
  shows "\<exists>c'. exec avail (Rejoin b vp) c = Some c' \<and> at_rest p b c'"
proof -
  have inv: "pool_inv c" and p: "in_control (lib c) = Some p" and b: "b \<in> ready (abs_pool c)"
    using w by (simp_all add: at_work_def ahead_def abs_pool_def)
  have "b \<notin> zombies c" using inv b by (auto simp: pool_inv_def once_def abs_pool_def)
  moreover have "b \<in> members (abs_pool c)" using b by (simp add: members_def)
  moreover have "b \<in> zombies c \<longrightarrow> vp" using \<open>b \<notin> zombies c\<close> by simp
  ultimately obtain c' where "exec avail (Rejoin b vp) c = Some c'" "pool_inv c'"
    "abs_pool c' = gives_way (abs_pool c)" "\<forall>x. timeQuant (tcbmem (lib c') x) = timeQuant (tcbmem (lib c) x)"
    using join_loop_ok [OF inv p av, of b vp "\<lambda>_. 0" "\<lambda>_. 0"] by (auto simp: abs_pool_def simp del: exec.simps)
  then show ?thesis using gives_way_rests [OF w] by blast
qed

lemma join_rests:
  assumes w: "at_work p b c" and av: "\<forall>n. avail n"
  shows "\<exists>c'. exec avail (Join (tID (tcbmem (lib c) b)) vp) c = Some c' \<and> at_rest p b c'"
proof -
  have inv: "pool_inv c" and p: "in_control (lib c) = Some p" and b: "b \<in> ready (abs_pool c)"
    using w by (simp_all add: at_work_def ahead_def abs_pool_def)
  obtain c' where "exec avail (Join (tID (tcbmem (lib c) b)) vp) c = Some c'" "pool_inv c'"
    "abs_pool c' = gives_way (abs_pool c)" "\<forall>x. timeQuant (tcbmem (lib c') x) = timeQuant (tcbmem (lib c) x)"
    using join_ok [OF inv p av, of "tID (tcbmem (lib c) b)" vp "\<lambda>_. 0"] b by (auto simp del: exec.simps)
  then show ?thesis using gives_way_rests [OF w] by blast
qed

text \<open>One turn of the loop: \<open>schedule\<close> is called, and the thread it runs looks at the state of \<open>b\<close> again.\<close>

fun turns :: "nat \<Rightarrow> tptr \<Rightarrow> bool \<Rightarrow> thread_call list" where
  "turns 0 b vp = []"
| "turns (Suc n) b vp = Dispatch # Rejoin b vp # turns n b vp"

lemma turns_rest:
  assumes av: "\<forall>n. avail n"
  shows "at_rest p b c \<Longrightarrow> \<exists>c'. exec_all avail (turns n b vp) c = Some c' \<and> at_rest p b c'"
proof (induction n arbitrary: c)
  case (Suc n)
  from dispatch_wakes [OF Suc.prems, of avail] obtain c1 where c1: "exec avail Dispatch c = Some c1" "at_work p b c1" by blast
  from rejoin_rests [OF c1(2) av] obtain c2 where c2: "exec avail (Rejoin b vp) c1 = Some c2" "at_rest p b c2" by blast
  from Suc.IH [OF c2(2)] show ?case using c1(1) c2(1) by (simp del: exec.simps)
qed simp

section \<open>Statistics\<close>

text \<open>
  Nothing ever writes the two averages \<open>print_app_stats\<close> prints: whatever the threads do, it
  reports 0 for both.
\<close>

definition same_averages :: "sys \<Rightarrow> sys \<Rightarrow> bool" where
  "same_averages s t \<longleftrightarrow> avg_turn_time t = avg_turn_time s \<and> avg_resp_time t = avg_resp_time s"

lemma enqueue_rq_averages: "enqueue_rq avail p s = Some t \<Longrightarrow> same_averages s t"
  by (auto simp: enqueue_rq_def same_averages_def split: Option.bind_splits)

lemma sched_psjf_averages: "sched_psjf avail sw s = Some (ctl, t) \<Longrightarrow> same_averages s t"
  by (auto simp: sched_psjf_def psjf_retire_def release_finished_def switch_to_def set_state_def update_tcb_def same_averages_def Let_def
      dest!: enqueue_rq_averages split: Option.bind_splits option.splits if_splits prod.splits)

lemma resume_averages: "resume_sched s = Some t \<Longrightarrow> same_averages s t"
  by (auto simp: resume_sched_def same_averages_def split: sched_point.splits)

lemma yield_averages: "worker_yield avail s = Some (ctl, t) \<Longrightarrow> same_averages s t"
  by (auto simp: worker_yield_def set_state_def update_tcb_def same_averages_def
      dest!: enqueue_rq_averages split: Option.bind_splits option.splits)

lemma join_loop_averages: "join_loop avail b vp s = Some (r, t) \<Longrightarrow> same_averages s t"
  by (auto simp: join_loop_def same_averages_def dest!: yield_averages split: Option.bind_splits if_splits prod.splits)

lemma call_averages:
  "worker_create avail stk mem f a s = Some (r, tid, t) \<Longrightarrow> same_averages s t"
  "worker_exit v s = Some (ctl, t) \<Longrightarrow> same_averages s t"
  "worker_mutex_lock avail m s = Some (ctl, m', t) \<Longrightarrow> same_averages s t"
  "worker_mutex_unlock avail m s = Some (n, m', t) \<Longrightarrow> same_averages s t"
  "worker_join avail i vp s = Some (j, t) \<Longrightarrow> same_averages s t"
  "join_answer j s = Some t \<Longrightarrow> same_averages s t"
  by (auto simp: worker_create_def worker_exit_def worker_mutex_lock_def worker_mutex_unlock_def worker_join_def
      join_answer_def set_state_def update_tcb_def same_averages_def Let_def
      dest!: enqueue_rq_averages join_loop_averages resume_averages
      split: Option.bind_splits option.splits if_splits prod.splits join_outcome.splits)

lemma same_averages_trans: "same_averages s t \<Longrightarrow> same_averages t u \<Longrightarrow> same_averages s u"
  by (simp add: same_averages_def)

lemma exec_averages: "exec avail call c = Some c' \<Longrightarrow> same_averages (lib c) (lib c')"
  by (cases call; auto simp: schedule_psjf dest!: sched_psjf_averages call_averages resume_averages yield_averages join_loop_averages
      split: Option.bind_splits if_splits;
      simp add: same_averages_def)

lemma averages_stay_zero:
  "exec_all avail calls c = Some c' \<Longrightarrow> avg_turn_time (lib c) = 0 \<Longrightarrow> avg_resp_time (lib c) = 0 \<Longrightarrow>
    \<exists>n. print_app_stats (lib c') = (n, 0, 0)"
proof (induction calls arbitrary: c)
  case (Cons call calls)
  from Cons.prems(1) obtain d where d: "exec avail call c = Some d" "exec_all avail calls d = Some c'"
    by (auto split: Option.bind_splits)
  show ?case using Cons.IH [OF d(2)] exec_averages [OF d(1)] Cons.prems(2,3) by (simp add: same_averages_def)
qed (simp add: print_app_stats_def)

section \<open>The library as it starts\<close>

text \<open>
  From the static state on: no queue has room, no thread is current and nothing was ever saved in
  \<open>schedCtx\<close>. An \<open>enqueue\<close> writes outside the array, or gives up when \<open>realloc\<close> does.
\<close>

definition inert :: "sys \<Rightarrow> bool" where
  "inert s \<longleftrightarrow> rq s = null_heap \<and> current s = None \<and> schedCtx s = No_context \<and> tot_cntx_switches s = 0"

lemma enqueue_inert:
  assumes "inert s"
  shows "enqueue_rq avail p s = (if avail 0 then None else Some s)"
proof -
  have q: "rq s = null_heap" using assms by (simp add: inert_def)
  have s: "s\<lparr>rq := null_heap\<rparr> = s" using q [symmetric] by simp
  have "enqueue avail st null_heap p = (if avail 0 then None else Some (-1, null_heap))" for st
    by (simp add: enqueue_def heapResize_def null_heap_def)
  then show ?thesis by (simp add: enqueue_rq_def q s)
qed

lemma inert_tcb [simp]: "inert (update_tcb p f s) = inert s" "inert (set_state p v s) = inert s"
  by (simp_all add: inert_def)

lemma schedule_inert:
  assumes "inert s"
  shows "schedule PSJF avail True s = Some (Continue, s)"
proof -
  have n: "current s = None" and q: "rq s = null_heap" using assms by (simp_all add: inert_def)
  have s: "s\<lparr>rq := null_heap\<rparr> = s" using q [symmetric] by simp
  have "dequeue st null_heap = Some (None, null_heap)" for st by (simp add: dequeue_def null_heap_def)
  then show ?thesis using n by (simp add: schedule_psjf sched_psjf_def psjf_retire_def q s)
qed

lemma search_inert: "searchByTID st null_heap t = None" "removeNode st null_heap t = (-1, null_heap)"
proof -
  show "searchByTID st null_heap t = None" by (simp add: searchByTID_def null_heap_def first_clear_None)
  then show "removeNode st null_heap t = (-1, null_heap)" by (rule removeNode_absent)
qed

lemma exec_inert:
  assumes "inert (lib c)" "exec avail call c = Some c'"
  shows "inert (lib c')"
proof -
  note i = assms(1) [unfolded inert_def]
  have create: "inert t" if "worker_create avail stk blk f a (lib c) = Some (r, tid, t)" for stk blk f a r tid t
  proof (cases "stk = 0 \<or> blk = None")
    case False
    then obtain b g where b: "blk = Some (b, g)" "stk \<noteq> 0" by auto
    have "inert ((lib c)\<lparr>threadID := n, tcbmem := m, freed_blocks := fs\<rparr>)" for n m fs using i by (simp add: inert_def)
    from enqueue_inert [OF this] show ?thesis
      using that b i by (auto simp: worker_create_def inert_def split: if_splits)
  qed (use that assms(1) in \<open>auto simp: worker_create_def Let_def split: if_splits\<close>)
  have yield: "worker_yield avail (lib c) = None" using i by (simp add: worker_yield_def)
  have loop: "inert t \<and> (\<exists>x y. r = Join_returns x y)" if "join_loop avail b vp (lib c) = Some (r, t)" for b vp r t
    using that yield i search_inert(2) by (auto simp: join_loop_def inert_def split: if_splits)
  have unlock: "inert t" if "worker_mutex_unlock avail m (lib c) = Some (r, m', t)" for m r m' t
  proof -
    have "inert (set_state p READY (lib c))" for p using assms(1) by simp
    from enqueue_inert [OF this] show ?thesis
      using that assms(1) by (auto simp: worker_mutex_unlock_def Let_def split: Option.bind_splits if_splits prod.splits)
  qed
  have search: "searchByTID (tcbmem (lib c)) (rq (lib c)) t = None" for t using i search_inert(1) by simp
  show ?thesis
  proof (cases call)
    case (Rejoin b vp)
    then show ?thesis using assms(2) by (auto simp: join_answer_def split: Option.bind_splits dest!: loop)
  qed (use assms i create unlock search yield schedule_inert [OF assms(1), of avail] in
    \<open>auto simp: worker_exit_def worker_mutex_lock_def worker_join_def join_answer_def split_beta
      split: Option.bind_splits if_splits\<close>)
qed

lemma exec_all_inert: "exec_all avail calls c = Some c' \<Longrightarrow> inert (lib c) \<Longrightarrow> inert (lib c')"
proof (induction calls arbitrary: c)
  case (Cons call calls)
  then obtain d where "exec avail call c = Some d" "exec_all avail calls d = Some c'" by (auto split: Option.bind_splits)
  then show ?case using Cons.IH exec_inert Cons.prems(2) by blast
qed simp

section \<open>What the library promises\<close>


text \<open>
  C7. No thread is lost, run twice or queued twice: after any sequence of allowed calls, those of
  \<open>schedule\<close> among them, every thread there was
  before is still ready, waiting, running or ended, and in one of these places only, unless a join
  released it; the queues hold each thread once and the numbers of the threads differ.
\<close>

theorem threads_kept:
  assumes "pool_inv c" "calls_ok avail calls c" "\<forall>n. avail n"
  shows "\<exists>c'. exec_all avail calls c = Some c' \<and> pool_inv c' \<and> one_place (abs_pool c') \<and>
    (\<forall>p \<in> members (abs_pool c). p \<in> members (abs_pool c') \<or> (\<exists>vp. Rejoin p vp \<in> set calls))"
  using exec_all_keeps [OF assms(3,1,2)] pool_one_place by blast

text \<open>
  C33. A thread that joins one with a longer quantum never comes back from \<open>worker_join\<close> when every ready
  thread has a longer quantum than its own: its yield puts it into the run queue, and however often
  \<open>schedule\<close> is called, each call takes it out again and runs it, only for it to find \<open>b\<close> not finished and yield
  once more. The thread it waits for never runs.
\<close>

theorem join_never_returns:
  assumes inv: "pool_inv c" and p: "running (abs_pool c) = Some p" and b: "b \<in> ready (abs_pool c)"
    and first: "\<forall>q \<in> ready (abs_pool c). timeQuant (tcbmem (lib c) p) < timeQuant (tcbmem (lib c) q)"
    and av: "\<forall>n. avail n"
  shows "\<exists>c1 c2. exec_all avail (Join (tID (tcbmem (lib c) b)) vp # turns n b vp) c = Some c1 \<and>
    running (abs_pool c1) = None \<and> p \<in> ready (abs_pool c1) \<and> b \<in> ready (abs_pool c1) \<and>
    exec avail Dispatch c1 = Some c2 \<and> running (abs_pool c2) = Some p \<and> b \<in> ready (abs_pool c2) \<and>
    state (tcbmem (lib c2) b) = READY"
proof -
  have "b \<noteq> p" using b first by auto
  then have w: "at_work p b c" using inv p b first by (simp add: at_work_def ahead_def)
  from join_rests [OF w av] obtain c0 where c0: "exec avail (Join (tID (tcbmem (lib c) b)) vp) c = Some c0" "at_rest p b c0" by blast
  from turns_rest [OF av c0(2)] obtain c1 where c1: "exec_all avail (turns n b vp) c0 = Some c1" "at_rest p b c1" by blast
  from dispatch_wakes [OF c1(2), of avail] obtain c2 where c2: "exec avail Dispatch c1 = Some c2" "at_work p b c2" by blast
  then have "state (tcbmem (lib c2) b) = READY" by (simp add: at_work_def ahead_def pool_inv_def once_def abs_pool_def)
  then show ?thesis using c0(1) c1 c2 by (auto simp: at_work_def at_rest_def ahead_def simp del: exec.simps)
qed

text \<open>
  C35. The library as it starts never runs a thread. From the static state, with any mutex and whatever the
  allocators answer, no sequence of calls that has not faulted, those of \<open>schedule\<close> among them, makes a thread current, puts one into
  the run queue or switches to one: \<open>rq\<close> is never initialised. The first \<open>worker_create\<close> whose three allocations
  succeed writes outside the array of the queue; one whose \<open>realloc\<close> fails answers 0 for a thread that is nowhere.
  \<open>worker_yield\<close> and \<open>worker_exit\<close> dereference \<open>NULL\<close>.
\<close>

theorem library_never_starts:
  assumes boot: "lib c = sys_boot m" and run: "exec_all avail calls c = Some c'"
  shows "running (abs_pool c') = None \<and> ready (abs_pool c') = {} \<and> tot_cntx_switches (lib c') = 0 \<and>
    worker_yield avail (lib c') = None \<and> worker_exit v (lib c') = None \<and>
    (stk \<noteq> 0 \<longrightarrow> (if avail 0 then worker_create avail stk (Some (b, g)) f a (lib c') = None
      else \<exists>s. worker_create avail stk (Some (b, g)) f a (lib c') = Some (0, Some (threadID (lib c')), s) \<and> rq s = null_heap))"
proof -
  have "inert (lib c)" by (simp add: boot sys_boot_def inert_def)
  from exec_all_inert [OF run this] have i: "inert (lib c')" .
  let ?s = "(lib c')\<lparr>threadID := threadID (lib c') + 1,
    tcbmem := (tcbmem (lib c'))(b := g\<lparr>tID := threadID (lib c'), state := READY, ctx := Fresh f a stk, stack := stk, next_tcb := None\<rparr>),
    freed_blocks := removeAll b (freed_blocks (lib c'))\<rparr>"
  have "inert ?s" using i by (simp add: inert_def)
  note e = enqueue_inert [OF this]
  show ?thesis using i e
    by (auto simp: inert_def abs_pool_def in_control_def items_def null_heap_def worker_yield_def worker_exit_def worker_create_def)
qed

section \<open>Witnesses\<close>

text \<open>Four ready threads and a running one of least quantum.\<close>

definition sample_pool :: pool where
  "sample_pool = \<lparr>mtx = sample_mutex,
     lib = sample_sys\<lparr>threadID := 10, schedCtx := Behind_switch, current := Some 9,
       tcbmem := sample_tcbs(9 := (sample_tcbs 9)\<lparr>state := RUNNING\<rparr>)\<rparr>,
     zombies = {}\<rparr>"

lemma sample_pool_fields:
  "current (lib sample_pool) = Some 9" "items (rq (lib sample_pool)) = {#7, 5, 4, 3#}"
  "items (blockList (mtx sample_pool)) = {#}" "zombies sample_pool = {}" "threadID (lib sample_pool) = 10"
  "tID (tcbmem (lib sample_pool) q) = int q" "timeQuant (tcbmem (lib sample_pool) q) = 10 - int q"
  "state (tcbmem (lib sample_pool) q) = (if q = 9 then RUNNING else READY)"
  "schedCtx (lib sample_pool) = Behind_switch" "in_control (lib sample_pool) = Some 9" "freed_blocks (lib sample_pool) = []"
  using empty_heap_ok(2)
  by (auto simp: sample_pool_def sample_sys_def sys_boot_def items_def sample_heap_def sample_mutex_def sample_tcbs_def idle_tcb_def
      in_control_def)

lemma sample_pool_inv: "pool_inv sample_pool"
proof -
  have "heap_inv (tcbmem (lib sample_pool)) sample_heap = heap_inv sample_tcbs sample_heap"
    by (rule heap_inv_cong) (simp add: sample_pool_fields sample_tcbs_def idle_tcb_def)
  then have "mutex_ok (mtx sample_pool) (lib sample_pool)"
    using sample_heap_inv empty_heap_ok(1) [of "tcbmem (lib sample_pool)"]
    by (simp add: mutex_ok_def sample_pool_def sample_sys_def sample_mutex_def)
  then show ?thesis
    by (auto simp: pool_inv_def once_def members_def abs_pool_def sample_pool_fields inj_on_def)
qed


lemma threads_kept_witness:
  "\<exists>c'. exec_all (\<lambda>_. True) [Yield, Dispatch] sample_pool = Some c' \<and> one_place (abs_pool c') \<and> 9 \<in> members (abs_pool c')"
proof -
  have "call_ok Yield (abs_pool sample_pool)" by (simp add: abs_pool_def sample_pool_fields)
  from exec_refines [OF sample_pool_inv this, of "\<lambda>_. True"]
  obtain c1 where c1: "exec (\<lambda>_. True) Yield sample_pool = Some c1" "abs_pool c1 = gives_way (abs_pool sample_pool)"
    by (auto simp del: exec.simps)
  then have "call_ok Dispatch (abs_pool c1)" by (simp add: gives_way_def)
  then have "calls_ok (\<lambda>_. True) [Yield, Dispatch] sample_pool"
    using c1(1) by (simp add: abs_pool_def sample_pool_fields split: option.split del: exec.simps)
  from threads_kept [OF sample_pool_inv this] obtain c' where
    c': "exec_all (\<lambda>_. True) [Yield, Dispatch] sample_pool = Some c'" "one_place (abs_pool c')"
    "\<forall>p \<in> members (abs_pool sample_pool). p \<in> members (abs_pool c') \<or> (\<exists>vp. Rejoin p vp \<in> set [Yield, Dispatch])" by blast
  moreover have "9 \<in> members (abs_pool sample_pool)" by (simp add: members_def abs_pool_def sample_pool_fields)
  ultimately show ?thesis by auto
qed

lemma join_never_returns_witness:
  "\<exists>c1 c2. exec_all (\<lambda>_. True) (Join 7 True # turns 1000 7 True) sample_pool = Some c1 \<and>
    exec (\<lambda>_. True) Dispatch c1 = Some c2 \<and> running (abs_pool c2) = Some 9 \<and> 7 \<in> ready (abs_pool c2)"
proof -
  have "running (abs_pool sample_pool) = Some 9" "7 \<in> ready (abs_pool sample_pool)"
    "\<forall>q \<in> ready (abs_pool sample_pool). timeQuant (tcbmem (lib sample_pool) 9) < timeQuant (tcbmem (lib sample_pool) q)"
    by (auto simp: abs_pool_def sample_pool_fields)
  from join_never_returns [OF sample_pool_inv this, of "\<lambda>_. True" True 1000]
  show ?thesis unfolding sample_pool_fields(6) by (auto simp del: exec.simps)
qed

text \<open>A thread created when \<open>realloc\<close> fails, the mutex taken, \<open>schedule\<close> called, the thread joined.\<close>

lemma library_never_starts_witness:
  "\<exists>c'. exec_all (\<lambda>_. False) [Create 65536 (Some (1, sample_tcbs 1)) 5 6, Lock, Dispatch, Join 0 True]
      \<lparr>mtx = sample_mutex, lib = sys_boot sample_tcbs, zombies = {}\<rparr> = Some c' \<and>
    threadID (lib c') = 1 \<and> ready (abs_pool c') = {} \<and> running (abs_pool c') = None"
proof -
  let ?c = "\<lparr>mtx = sample_mutex, lib = sys_boot sample_tcbs, zombies = {}\<rparr>"
  let ?calls = "[Create 65536 (Some (1, sample_tcbs 1)) 5 6, Lock, Dispatch, Join 0 True]"
  have "\<exists>c'. exec_all (\<lambda>_. False) ?calls ?c = Some c' \<and> threadID (lib c') = 1"
    by (simp add: worker_create_def enqueue_rq_def enqueue_def heapResize_def sys_boot_def null_heap_def sample_mutex_def
        worker_mutex_lock_def atomic_test_and_set_def schedule_psjf sched_psjf_def psjf_retire_def dequeue_def
        worker_join_def searchByTID_def first_clear.simps [of _ 0 0] join_answer_def Let_def)
  then obtain c' where c': "exec_all (\<lambda>_. False) ?calls ?c = Some c'" "threadID (lib c') = 1" by blast
  have "lib ?c = sys_boot sample_tcbs" by simp
  from library_never_starts [OF this c'(1)] c' show ?thesis by blast
qed

end
