(* ===== verification/VmState.thy ===== *)
theory VmState
  imports Complex_Main Bitmap
begin

text \<open>
  The state of \<open>project3/my_vm.c\<close> and the operations below the page tables: address macros of
  \<open>my_vm.h\<close>, \<open>ensure_vm_init\<close>, the TLB (\<open>TLB_add\<close>, \<open>TLB_check\<close>, the miss rate) and
  \<open>alloc_phys_frame\<close>.

  A pointer is its 64-bit address, 0 is \<open>NULL\<close>. The physical memory is the buffer
  \<open>phys_mem\<close> points to; its bytes are read and written by their offset, and an access that
  leaves the buffer stops the run. The two mutexes are flags: locking a mutex that is held is
  a deadlock and stops the run as well, so a theorem that an operation returns also says that
  it releases what it locked on the path taken. An operation returns the C result and the new state.
\<close>

section \<open>Constants and address macros of my_vm.h\<close>

definition PGSIZE :: nat where "PGSIZE = 4096"
definition MEMSIZE :: nat where "MEMSIZE = 2 ^ 30"
definition MAX_MEMSIZE :: nat where "MAX_MEMSIZE = 2 ^ 32"
definition PDXSHIFT :: nat where "PDXSHIFT = 22"
definition PTXSHIFT :: nat where "PTXSHIFT = 12"
definition PXMASK :: u32 where "PXMASK = 0x3FF"
definition OFFMASK :: u32 where "OFFMASK = 0xFFF"
definition PFN_SHIFT :: nat where "PFN_SHIFT = 12"
definition TLB_ENTRIES :: nat where "TLB_ENTRIES = 512"
definition VA_BASE :: u32 where "VA_BASE = 0x40000000"
definition PTE_PRESENT :: u32 where "PTE_PRESENT = 1"

definition PDX :: "u32 \<Rightarrow> u32" where "PDX va = drop_bit PDXSHIFT va AND PXMASK"
definition PTX :: "u32 \<Rightarrow> u32" where "PTX va = drop_bit PTXSHIFT va AND PXMASK"
definition OFF :: "u32 \<Rightarrow> u32" where "OFF va = va AND OFFMASK"

definition VA2U :: "u64 \<Rightarrow> u32" where "VA2U va = ucast va"
definition U2VA :: "u32 \<Rightarrow> u64" where "U2VA u = ucast u"

definition NUM_PHYS_PAGES :: nat where "NUM_PHYS_PAGES = MEMSIZE div PGSIZE"
definition NUM_VIRT_PAGES :: nat where "NUM_VIRT_PAGES = MAX_MEMSIZE div PGSIZE"

lemmas vm_consts = PGSIZE_def MEMSIZE_def MAX_MEMSIZE_def NUM_PHYS_PAGES_def NUM_VIRT_PAGES_def

section \<open>State\<close>

record tlb =
  vpn :: u32
  pfn :: u32
  valid :: bool
  last_used :: u64

record vm =
  phys_mem :: u64
  mem :: memory
  phys_bitmap :: "u8 list"
  virt_bitmap :: "u8 list"
  pgdir :: "u32 list option"
  tlbGlobal :: "tlb list"
  tlb_lookups :: u64
  tlb_misses :: u64
  vm_initialized :: bool
  vm_lock :: bool
  tlb_lock :: bool

text \<open>
  What the C library answers: the address \<open>calloc\<close> returns for the physical memory (0 when
  it has none), whether the three other \<open>calloc\<close> calls and a \<open>malloc\<close> of some bytes succeed.
\<close>

record libc =
  calloc_phys_mem :: u64
  calloc_phys_bitmap :: bool
  calloc_virt_bitmap :: bool
  calloc_pgdir :: bool
  malloc_ok :: "nat \<Rightarrow> bool"

definition empty_tlb :: tlb where
  "empty_tlb = \<lparr>vpn = 0, pfn = 0, valid = False, last_used = 0\<rparr>"

text \<open>The static initial state, before any call.\<close>

definition vm_boot :: vm where
  "vm_boot = \<lparr>phys_mem = 0, mem = (\<lambda>_. 0), phys_bitmap = [], virt_bitmap = [], pgdir = None,
     tlbGlobal = replicate TLB_ENTRIES empty_tlb, tlb_lookups = 0, tlb_misses = 0,
     vm_initialized = False, vm_lock = False, tlb_lock = False\<rparr>"

definition lock_vm :: "vm \<Rightarrow> vm option" where
  "lock_vm s = (if vm_lock s then None else Some (s\<lparr>vm_lock := True\<rparr>))"

definition unlock_vm :: "vm \<Rightarrow> vm" where
  "unlock_vm s = s\<lparr>vm_lock := False\<rparr>"

definition lock_tlb :: "vm \<Rightarrow> vm option" where
  "lock_tlb s = (if tlb_lock s then None else Some (s\<lparr>tlb_lock := True\<rparr>))"

definition unlock_tlb :: "vm \<Rightarrow> vm" where
  "unlock_tlb s = s\<lparr>tlb_lock := False\<rparr>"

section \<open>ensure_vm_init\<close>

definition ensure_vm_init :: "libc \<Rightarrow> vm \<Rightarrow> vm option" where
  "ensure_vm_init c s =
     (if vm_initialized s then Some s
      else do {
        s \<leftarrow> lock_vm s;
        s \<leftarrow> (if \<not> vm_initialized s then do {
                 ensure (calloc_phys_mem c \<noteq> 0);
                 let s = s\<lparr>phys_mem := calloc_phys_mem c, mem := (\<lambda>_. 0)\<rparr>;
                 ensure (calloc_phys_bitmap c);
                 let s = s\<lparr>phys_bitmap := replicate ((NUM_PHYS_PAGES + 7) div 8) 0\<rparr>;
                 ensure (calloc_virt_bitmap c);
                 let s = s\<lparr>virt_bitmap := replicate ((NUM_VIRT_PAGES + 7) div 8) 0\<rparr>;
                 ensure (calloc_pgdir c);
                 let s = s\<lparr>pgdir := Some (replicate 1024 0)\<rparr>;
                 let s = s\<lparr>tlbGlobal := replicate TLB_ENTRIES empty_tlb\<rparr>;
                 Some (s\<lparr>tlb_lookups := 0, tlb_misses := 0, vm_initialized := True\<rparr>)
               } else Some s);
        Some (unlock_vm s)
      })"

definition set_physical_mem :: "libc \<Rightarrow> vm \<Rightarrow> vm option" where
  "set_physical_mem c s = ensure_vm_init c s"

section \<open>TLB\<close>

function lru_scan :: "tlb list \<Rightarrow> nat \<Rightarrow> u64 \<Rightarrow> nat \<Rightarrow> nat" where
  "lru_scan es i lo idx =
     (if i < TLB_ENTRIES then
        if last_used (es ! i) < lo then lru_scan es (Suc i) (last_used (es ! i)) i
        else lru_scan es (Suc i) lo idx
      else idx)"
  by pat_completeness auto
termination
  by (relation "measure (\<lambda>(es, i, lo, idx). TLB_ENTRIES - i)") auto

declare lru_scan.simps [simp del]

text \<open>The first invalid slot, else the least recently used one.\<close>

definition tlb_victim :: "tlb list \<Rightarrow> nat" where
  "tlb_victim es =
     (case first_clear (\<lambda>i. valid (es ! i)) 0 TLB_ENTRIES of
        Some i \<Rightarrow> i
      | None \<Rightarrow> lru_scan es 1 (last_used (es ! 0)) 0)"

definition TLB_add :: "u64 \<Rightarrow> u64 \<Rightarrow> vm \<Rightarrow> (int \<times> vm) option" where
  "TLB_add va pa s =
     (if pa = 0 then Some (-1, s)
      else do {
        let v = VA2U va;
        let page = drop_bit PFN_SHIFT v;
        let frame = (ucast (drop_bit PFN_SHIFT (pa - phys_mem s)) :: u32);
        s \<leftarrow> lock_tlb s;
        let idx = tlb_victim (tlbGlobal s);
        let s = s\<lparr>tlb_lookups := tlb_lookups s + 1\<rparr>;
        let s = s\<lparr>tlbGlobal := (tlbGlobal s)[idx :=
                  \<lparr>vpn = page, pfn = frame, valid = True, last_used = tlb_lookups s\<rparr>]\<rparr>;
        Some (0, unlock_tlb s)
      })"

definition TLB_check :: "u64 \<Rightarrow> vm \<Rightarrow> (u64 \<times> vm) option" where
  "TLB_check va s = do {
     let v = VA2U va;
     let page = drop_bit PFN_SHIFT v;
     s \<leftarrow> lock_tlb s;
     (case first_clear (\<lambda>i. \<not> (valid (tlbGlobal s ! i) \<and> vpn (tlbGlobal s ! i) = page)) 0 TLB_ENTRIES of
        Some i \<Rightarrow>
          let s = s\<lparr>tlb_lookups := tlb_lookups s + 1\<rparr>;
              s = s\<lparr>tlbGlobal := (tlbGlobal s)[i := (tlbGlobal s ! i)\<lparr>last_used := tlb_lookups s\<rparr>]\<rparr>;
              page_base = phys_mem s + push_bit PFN_SHIFT (ucast (pfn (tlbGlobal s ! i)))
          in Some (page_base, unlock_tlb s)
      | None \<Rightarrow> Some (0, unlock_tlb (s\<lparr>tlb_misses := tlb_misses s + 1\<rparr>)))
   }"

text \<open>\<open>print_TLB_missrate\<close> prints this quotient (as the nearest \<open>double\<close>).\<close>

definition TLB_missrate :: "vm \<Rightarrow> rat" where
  "TLB_missrate s =
     (if tlb_lookups s = 0 then 0 else of_nat (unat (tlb_misses s)) / of_nat (unat (tlb_lookups s)))"

section \<open>Physical frames and memory\<close>

definition alloc_phys_frame :: "vm \<Rightarrow> (int \<times> vm) option" where
  "alloc_phys_frame s = do {
     ensure (NUM_PHYS_PAGES \<le> capacity (phys_bitmap s));
     (case first_clear (\<lambda>i. BIT_TEST (phys_bitmap s) i \<noteq> 0) 0 NUM_PHYS_PAGES of
        Some i \<Rightarrow> Some (int i, s\<lparr>phys_bitmap := BIT_SET (phys_bitmap s) i\<rparr>)
      | None \<Rightarrow> Some (-1, s))
   }"

text \<open>Accesses through a pointer into the physical memory.\<close>

definition phys_off :: "vm \<Rightarrow> u64 \<Rightarrow> nat" where
  "phys_off s p = unat (p - phys_mem s)"

definition load32 :: "vm \<Rightarrow> u64 \<Rightarrow> u32 option" where
  "load32 s p = do {
     ensure (phys_off s p + 4 \<le> MEMSIZE);
     Some (of_nat (le_dec (load_bytes (mem s) (phys_off s p) 4)))
   }"

definition store32 :: "u64 \<Rightarrow> u32 \<Rightarrow> vm \<Rightarrow> vm option" where
  "store32 p w s = do {
     ensure (phys_off s p + 4 \<le> MEMSIZE);
     Some (s\<lparr>mem := store_bytes (mem s) (phys_off s p) (le_enc 4 (unat w))\<rparr>)
   }"

definition memset_phys :: "u64 \<Rightarrow> u8 \<Rightarrow> nat \<Rightarrow> vm \<Rightarrow> vm option" where
  "memset_phys p v n s = do {
     ensure (phys_off s p + n \<le> MEMSIZE);
     Some (s\<lparr>mem := fill_bytes (mem s) (phys_off s p) n v\<rparr>)
   }"

definition memcpy_to_phys :: "u64 \<Rightarrow> u8 list \<Rightarrow> vm \<Rightarrow> vm option" where
  "memcpy_to_phys p bs s = do {
     ensure (phys_off s p + length bs \<le> MEMSIZE);
     Some (s\<lparr>mem := store_bytes (mem s) (phys_off s p) bs\<rparr>)
   }"

definition memcpy_from_phys :: "vm \<Rightarrow> u64 \<Rightarrow> nat \<Rightarrow> u8 list option" where
  "memcpy_from_phys s p n = do {
     ensure (phys_off s p + n \<le> MEMSIZE);
     Some (load_bytes (mem s) (phys_off s p) n)
   }"

end
