(* ===== verification/PageTable.thy ===== *)
theory PageTable
  imports VmState
begin

text \<open>
  The two-level page table of \<open>project3/my_vm.c\<close>: \<open>translate\<close> and \<open>map_page\<close>. The page
  directory is the array \<open>pgdir\<close>; a page table is a frame of the physical memory, its
  entries are read and written there as 32-bit little-endian words. Every caller of the
  repository passes the global \<open>pgdir\<close> as the root, so the root argument is that array.
\<close>

section \<open>translate and map_page\<close>

definition dir_entry :: "vm \<Rightarrow> u32 \<Rightarrow> u32 option" where
  "dir_entry s pd_index =
     (case pgdir s of
        None \<Rightarrow> None
      | Some d \<Rightarrow> if unat pd_index < length d then Some (d ! unat pd_index) else None)"

definition set_dir_entry :: "u32 \<Rightarrow> u32 \<Rightarrow> vm \<Rightarrow> vm option" where
  "set_dir_entry pd_index pde s =
     (case pgdir s of
        None \<Rightarrow> None
      | Some d \<Rightarrow> if unat pd_index < length d then Some (s\<lparr>pgdir := Some (d[unat pd_index := pde])\<rparr>)
                  else None)"

definition translate :: "libc \<Rightarrow> u64 \<Rightarrow> vm \<Rightarrow> (u64 \<times> vm) option" where
  "translate c va s =
     (if pgdir s = None then Some (0, s)
      else do {
        s \<leftarrow> ensure_vm_init c s;
        (tlb_page_base, s) \<leftarrow> TLB_check va s;
        if tlb_page_base \<noteq> 0 then Some (tlb_page_base, s)
        else do {
          let vaddr = VA2U va;
          let pd_index = PDX vaddr;
          let pt_index = PTX vaddr;
          pde \<leftarrow> dir_entry s pd_index;
          if pde AND PTE_PRESENT = 0 then Some (0, s)
          else do {
            let pt_frame = drop_bit PFN_SHIFT pde;
            let pt = phys_mem s + push_bit PFN_SHIFT (ucast pt_frame);
            pte \<leftarrow> load32 s (pt + 4 * ucast pt_index);
            if pte AND PTE_PRESENT = 0 then Some (0, s)
            else do {
              let data_frame = drop_bit PFN_SHIFT pte;
              let page_base = phys_mem s + push_bit PFN_SHIFT (ucast data_frame);
              (_, s) \<leftarrow> TLB_add va page_base s;
              Some (page_base, s)
            }
          }
        }
      })"

definition map_page :: "libc \<Rightarrow> u64 \<Rightarrow> u64 \<Rightarrow> vm \<Rightarrow> (int \<times> vm) option" where
  "map_page c va pa s =
     (if pgdir s = None \<or> va = 0 \<or> pa = 0 then Some (-1, s)
      else do {
        s \<leftarrow> ensure_vm_init c s;
        let vaddr = VA2U va;
        let p_off = pa - phys_mem s;
        if vaddr AND OFFMASK \<noteq> 0 \<or> p_off AND ucast OFFMASK \<noteq> 0 then Some (-1, s)
        else do {
          let pd_index = PDX vaddr;
          let pt_index = PTX vaddr;
          s \<leftarrow> lock_vm s;
          pde \<leftarrow> dir_entry s pd_index;
          (pt, s) \<leftarrow>
            (if pde AND PTE_PRESENT = 0 then do {
               (pt_frame, s) \<leftarrow> alloc_phys_frame s;
               if pt_frame < 0 then Some (None, s)
               else do {
                 let pt = phys_mem s + push_bit PFN_SHIFT (of_int pt_frame);
                 s \<leftarrow> memset_phys pt 0 PGSIZE s;
                 s \<leftarrow> set_dir_entry pd_index
                       (ucast (push_bit PFN_SHIFT (of_int pt_frame :: u64) OR ucast PTE_PRESENT)) s;
                 Some (Some pt, s)
               }
             } else do {
               let pt_frame = drop_bit PFN_SHIFT pde;
               Some (Some (phys_mem s + push_bit PFN_SHIFT (ucast pt_frame)), s)
             });
          case pt of
            None \<Rightarrow> Some (-1, unlock_vm s)
          | Some pt \<Rightarrow> do {
              pte \<leftarrow> load32 s (pt + 4 * ucast pt_index);
              if pte AND PTE_PRESENT \<noteq> 0 then Some (-1, unlock_vm s)
              else do {
                let frame_index = (ucast (p_off div of_nat PGSIZE) :: u32);
                s \<leftarrow> store32 (pt + 4 * ucast pt_index)
                      (ucast (push_bit PFN_SHIFT (ucast frame_index :: u64) OR ucast PTE_PRESENT)) s;
                Some (0, unlock_vm s)
              }
            }
        }
      })"

section \<open>Addresses as numbers\<close>

lemma unat_and_mask: "unat ((w :: 'a::len word) AND mask k) = unat w mod 2 ^ k"
  by (metis take_bit_eq_mask take_bit_eq_mod unsigned_take_bit_eq)

lemma unat_PDX: "unat (PDX v) = unat v div 4096 div 1024"
proof -
  have "unat v < 2 ^ 32" using unsigned_less [of v] by simp
  then have "unat v div 2 ^ 22 mod 2 ^ 10 = unat v div 4096 div 1024"
    by (simp flip: div_mult2_eq)
  moreover have "(0x3FF :: u32) = mask 10" by (simp add: mask_eq_exp_minus_1)
  ultimately show ?thesis
    by (simp only: PDX_def PXMASK_def PDXSHIFT_def unat_and_mask unat_drop_bit)
qed

lemma unat_PTX: "unat (PTX v) = unat v div 4096 mod 1024"
proof -
  have "(0x3FF :: u32) = mask 10" by (simp add: mask_eq_exp_minus_1)
  then show ?thesis
    by (simp only: PTX_def PXMASK_def PTXSHIFT_def unat_and_mask unat_drop_bit) simp
qed

lemma unat_OFF: "unat (v AND OFFMASK) = unat v mod 4096"
proof -
  have "(0xFFF :: u32) = mask 12" by (simp add: mask_eq_exp_minus_1)
  then show ?thesis by (simp only: OFFMASK_def unat_and_mask) simp
qed

lemma unat_vpn: "unat (drop_bit PFN_SHIFT (v :: u32)) = unat v div 4096"
  by (simp add: PFN_SHIFT_def unat_drop_bit)

lemma PDX_bound: "unat (PDX v) < 1024"
  using unat_u32_bound [of v] by (simp add: unat_PDX flip: div_mult2_eq)

lemma PTX_bound: "unat (PTX v) < 1024"
  by (simp add: unat_PTX)

lemma unat_frame_shift: "unat (push_bit PFN_SHIFT (ucast (f :: u32)) :: u64) = 4096 * unat f"
proof -
  have "unat f < 2 ^ 32" using unsigned_less [of f] by simp
  then have "unat (2 ^ 12 * ucast f :: u64) = 2 ^ 12 * unat f"
    by (subst unat_mult_lem [THEN iffD1]) (simp_all add: unat_ucast64)
  then show ?thesis by (simp add: PFN_SHIFT_def push_bit_eq_mult mult.commute)
qed

lemma phys_off_base [simp]: "phys_off s (phys_mem s + x) = unat x"
  by (simp add: phys_off_def)

lemma phys_off_base2: "phys_off s (phys_mem s + x + y) = unat (x + y)"
  by (simp add: phys_off_def algebra_simps)

lemma phys_off_entry:
  "phys_off s (phys_mem s + push_bit PFN_SHIFT (ucast (f :: u32)) + 4 * ucast (PTX v)) =
   4096 * unat f + 4 * (unat v div 4096 mod 1024)"
proof -
  have f: "unat f < 2 ^ 32" using unsigned_less [of f] by simp
  have t: "unat (PTX v) < 1024" by (rule PTX_bound)
  have e: "unat (4 * ucast (PTX v) :: u64) = 4 * unat (PTX v)"
    using t by (subst unat_mult_lem [THEN iffD1]) (simp_all add: unat_ucast64)
  have "unat (push_bit PFN_SHIFT (ucast f) + 4 * ucast (PTX v) :: u64) =
      4096 * unat f + 4 * unat (PTX v)"
    using f t by (subst unat_add_lem [THEN iffD1]) (simp_all add: unat_frame_shift e)
  then show ?thesis by (simp add: phys_off_base2 unat_PTX)
qed

text \<open>A directory or table entry for frame \<open>f\<close> is present and names \<open>f\<close>.\<close>

definition entry_for :: "nat \<Rightarrow> u32" where
  "entry_for f = ucast (push_bit PFN_SHIFT (of_nat f :: u64) OR ucast PTE_PRESENT)"

lemma entry_for_present: "entry_for f AND PTE_PRESENT \<noteq> 0"
proof -
  have "bit (entry_for f) 0" by (simp add: entry_for_def PTE_PRESENT_def bit_simps)
  then have "bit (entry_for f AND PTE_PRESENT) 0" by (simp add: PTE_PRESENT_def bit_simps)
  then show ?thesis by (metis bit_0_eq bot_apply bot_bool_def)
qed

lemma entry_for_frame:
  assumes "f < NUM_PHYS_PAGES"
  shows "unat (drop_bit PFN_SHIFT (entry_for f)) = f"
proof -
  have f: "f < 2 ^ 18" using assms by (simp add: vm_consts)
  have hi: "\<not> bit f n" if "18 \<le> n" for n
    using f that by (metis bit_take_bit_iff not_less take_bit_nat_eq_self)
  have lo: "n < 20" if "bit f n" for n
  proof (rule ccontr)
    assume "\<not> n < 20"
    then show False using hi [of n] that by simp
  qed
  have "drop_bit PFN_SHIFT (entry_for f) = (of_nat f :: u32)"
    by (rule bit_word_eqI)
      (auto simp: entry_for_def PFN_SHIFT_def PTE_PRESENT_def bit_simps bit_1_iff dest: lo)
  then show ?thesis using f by (simp add: unat_of_nat)
qed

section \<open>What the tables say\<close>

text \<open>
  \<open>table_frame s d\<close> is the frame of the page table for directory slot \<open>d\<close>,
  \<open>page_frame s n\<close> the frame of virtual page \<open>n\<close>: the walk \<open>translate\<close> performs, without
  the TLB.
\<close>

definition table_frame :: "vm \<Rightarrow> nat \<Rightarrow> nat option" where
  "table_frame s d =
     (case pgdir s of
        None \<Rightarrow> None
      | Some ds \<Rightarrow>
          if d < length ds \<and> ds ! d AND PTE_PRESENT \<noteq> 0
          then Some (unat (drop_bit PFN_SHIFT (ds ! d))) else None)"

definition entry_at :: "vm \<Rightarrow> nat \<Rightarrow> nat \<Rightarrow> u32" where
  "entry_at s f t = of_nat (le_dec (load_bytes (mem s) (4096 * f + 4 * t) 4))"

definition page_frame :: "vm \<Rightarrow> nat \<Rightarrow> nat option" where
  "page_frame s n =
     (case table_frame s (n div 1024) of
        None \<Rightarrow> None
      | Some f \<Rightarrow>
          if entry_at s f (n mod 1024) AND PTE_PRESENT \<noteq> 0
          then Some (unat (drop_bit PFN_SHIFT (entry_at s f (n mod 1024)))) else None)"

definition page_of :: "u32 \<Rightarrow> nat" where
  "page_of v = unat v div 4096"

definition frame_ptr :: "vm \<Rightarrow> nat \<Rightarrow> u64" where
  "frame_ptr s f = phys_mem s + of_nat (4096 * f)"

text \<open>
  The well-formedness of a state. \<open>vm_shape\<close>: initialised, no mutex held, every object of its
  size. \<open>tables_ok\<close>: a page table lies in a frame that is marked used, two directory slots
  never share one. \<open>pages_ok\<close>: a mapped page lies in the physical memory. \<open>virt_ok\<close>: a page
  whose bit in the virtual bitmap is clear is not mapped. \<open>tlb_ok\<close>: a valid TLB entry says
  what the tables say.
\<close>

definition vm_shape :: "vm \<Rightarrow> bool" where
  "vm_shape s \<longleftrightarrow> vm_initialized s \<and> \<not> vm_lock s \<and> \<not> tlb_lock s \<and>
     phys_mem s \<noteq> 0 \<and> unat (phys_mem s) + MEMSIZE \<le> 2 ^ 64 \<and>
     (\<exists>d. pgdir s = Some d \<and> length d = 1024) \<and>
     length (phys_bitmap s) = NUM_PHYS_PAGES div 8 \<and>
     length (virt_bitmap s) = NUM_VIRT_PAGES div 8 \<and> length (tlbGlobal s) = TLB_ENTRIES"

definition tables_ok :: "vm \<Rightarrow> bool" where
  "tables_ok s \<longleftrightarrow>
     (\<forall>d f. table_frame s d = Some f \<longrightarrow> f < NUM_PHYS_PAGES \<and> bit_at (phys_bitmap s) f) \<and>
     (\<forall>d d' f. table_frame s d = Some f \<longrightarrow> table_frame s d' = Some f \<longrightarrow> d = d')"

definition pages_ok :: "vm \<Rightarrow> bool" where
  "pages_ok s \<longleftrightarrow> (\<forall>n f. page_frame s n = Some f \<longrightarrow> f < NUM_PHYS_PAGES)"

definition virt_page :: "nat \<Rightarrow> nat" where
  "virt_page i = (unat VA_BASE div 4096 + i) mod NUM_VIRT_PAGES"

definition virt_ok :: "vm \<Rightarrow> bool" where
  "virt_ok s \<longleftrightarrow> (\<forall>i<NUM_VIRT_PAGES. \<not> bit_at (virt_bitmap s) i \<longrightarrow> page_frame s (virt_page i) = None)"

definition tlb_ok :: "vm \<Rightarrow> bool" where
  "tlb_ok s \<longleftrightarrow>
     (\<forall>i<TLB_ENTRIES. valid (tlbGlobal s ! i) \<longrightarrow>
        page_frame s (unat (vpn (tlbGlobal s ! i))) = Some (unat (pfn (tlbGlobal s ! i))))"

definition vm_ok :: "vm \<Rightarrow> bool" where
  "vm_ok s \<longleftrightarrow> vm_shape s \<and> tables_ok s \<and> pages_ok s \<and> virt_ok s \<and> tlb_ok s"

text \<open>
  \<open>live_ok L s\<close>: the pages of \<open>L\<close>, those the client was given and has not freed, are mapped,
  each to a frame of its own that is marked used and is not a page table.
\<close>

definition live_ok :: "nat set \<Rightarrow> vm \<Rightarrow> bool" where
  "live_ok L s \<longleftrightarrow>
     (\<forall>n\<in>L. \<exists>f. page_frame s n = Some f \<and> bit_at (phys_bitmap s) f \<and> (\<forall>d. table_frame s d \<noteq> Some f)) \<and>
     (\<forall>n\<in>L. \<forall>m\<in>L. page_frame s n = page_frame s m \<longrightarrow> n = m)"

definition vm_inv :: "nat set \<Rightarrow> vm \<Rightarrow> bool" where
  "vm_inv L s \<longleftrightarrow> vm_ok s \<and> live_ok L s"

text \<open>A step that touches the TLB only.\<close>

definition tlb_step :: "vm \<Rightarrow> vm \<Rightarrow> bool" where
  "tlb_step s s' \<longleftrightarrow> phys_mem s' = phys_mem s \<and> mem s' = mem s \<and> phys_bitmap s' = phys_bitmap s \<and>
     virt_bitmap s' = virt_bitmap s \<and> pgdir s' = pgdir s \<and> vm_initialized s' = vm_initialized s \<and>
     vm_lock s' = vm_lock s \<and> tlb_lock s' = tlb_lock s"

lemma tlb_step_refl [simp]: "tlb_step s s"
  by (simp add: tlb_step_def)

lemma tlb_step_trans: "tlb_step s t \<Longrightarrow> tlb_step t u \<Longrightarrow> tlb_step s u"
  by (simp add: tlb_step_def)

lemma table_frame_cong: "pgdir s' = pgdir s \<Longrightarrow> table_frame s' d = table_frame s d"
  by (simp add: table_frame_def)

lemma page_frame_cong:
  assumes "pgdir s' = pgdir s" "mem s' = mem s"
  shows "page_frame s' n = page_frame s n"
proof -
  have "table_frame s' = table_frame s" "entry_at s' = entry_at s"
    by (intro ext; simp add: assms entry_at_def table_frame_def)+
  then show ?thesis by (simp add: page_frame_def split: option.split)
qed

lemma tlb_step_views:
  assumes "tlb_step s s'"
  shows "table_frame s' = table_frame s" "page_frame s' = page_frame s" "frame_ptr s' = frame_ptr s"
proof -
  have e: "pgdir s' = pgdir s" "mem s' = mem s" "phys_mem s' = phys_mem s"
    using assms by (simp_all add: tlb_step_def)
  show "table_frame s' = table_frame s" by (rule ext) (rule table_frame_cong [OF e(1)])
  show "page_frame s' = page_frame s" by (rule ext) (rule page_frame_cong [OF e(1,2)])
  show "frame_ptr s' = frame_ptr s" by (rule ext) (simp add: frame_ptr_def e)
qed

lemma vm_ok_tlb_step:
  assumes ok: "vm_ok s" and step: "tlb_step s s'"
    and "length (tlbGlobal s') = TLB_ENTRIES" "tlb_ok s'"
  shows "vm_ok s'"
proof -
  note v = tlb_step_views [OF step]
  have "vm_shape s'" using ok step assms(3) by (simp add: vm_ok_def vm_shape_def tlb_step_def)
  moreover have "tables_ok s'" using ok step unfolding vm_ok_def tables_ok_def tlb_step_def v by simp
  moreover have "pages_ok s'" using ok unfolding vm_ok_def pages_ok_def v by simp
  moreover have "virt_ok s'" using ok step unfolding vm_ok_def virt_ok_def tlb_step_def v by simp
  ultimately show ?thesis using assms(4) by (simp add: vm_ok_def)
qed

lemma vm_inv_tlb_step:
  assumes "vm_inv L s" "tlb_step s s'" "vm_ok s'"
  shows "vm_inv L s'"
  using assms unfolding vm_inv_def live_ok_def tlb_step_views [OF assms(2)] tlb_step_def by simp

lemma vm_ok_fields:
  assumes "vm_ok s"
  shows "vm_initialized s" "\<not> vm_lock s" "\<not> tlb_lock s" "phys_mem s \<noteq> 0"
    "unat (phys_mem s) + MEMSIZE \<le> 2 ^ 64" "length (phys_bitmap s) = NUM_PHYS_PAGES div 8"
    "length (virt_bitmap s) = NUM_VIRT_PAGES div 8" "length (tlbGlobal s) = TLB_ENTRIES"
    "pgdir s \<noteq> None"
  using assms by (auto simp: vm_ok_def vm_shape_def)

lemma len64: "LENGTH(64) = 64"
  by simp

lemma frame_ptr_off:
  assumes "vm_ok s" "f < NUM_PHYS_PAGES"
  shows "phys_off s (frame_ptr s f) = 4096 * f" "frame_ptr s f \<noteq> 0"
    "frame_ptr s f = phys_mem s + push_bit PFN_SHIFT (of_nat f)"
proof -
  have f: "4096 * f < 2 ^ 30" using assms(2) by (simp add: vm_consts)
  then have u: "unat (of_nat (4096 * f) :: u64) = 4096 * f"
    by (intro unat_of_nat_small) simp
  then show off: "phys_off s (frame_ptr s f) = 4096 * f"
    by (simp only: frame_ptr_def phys_off_base)
  have "unat (phys_mem s) + 4096 * f < 2 ^ 64"
    using vm_ok_fields(5) [OF assms(1)] f by (simp add: vm_consts)
  then have "unat (frame_ptr s f) = unat (phys_mem s) + 4096 * f"
    unfolding frame_ptr_def by (subst unat_add_lem [THEN iffD1]) (simp_all only: u len64)
  moreover have "unat (phys_mem s) \<noteq> 0"
    using vm_ok_fields(4) [OF assms(1)] by (simp add: unat_eq_0)
  ultimately show "frame_ptr s f \<noteq> 0" by (metis add_is_0 unsigned_0)
  show "frame_ptr s f = phys_mem s + push_bit PFN_SHIFT (of_nat f)"
    by (simp add: frame_ptr_def PFN_SHIFT_def push_bit_eq_mult mult.commute)
qed

section \<open>The TLB\<close>

lemma lru_scan_bound: "idx < TLB_ENTRIES \<Longrightarrow> lru_scan es i lo idx < TLB_ENTRIES"
  by (induction es i lo idx rule: lru_scan.induct) (simp add: lru_scan.simps)

lemma tlb_victim_bound: "tlb_victim es < TLB_ENTRIES"
  unfolding tlb_victim_def
  by (auto simp: first_clear_Some TLB_ENTRIES_def intro: lru_scan_bound [unfolded TLB_ENTRIES_def]
      split: option.split)

lemma TLB_add_ok:
  assumes ok: "vm_ok s" and f: "page_frame s (page_of (VA2U va)) = Some f"
  shows "\<exists>s'. TLB_add va (frame_ptr s f) s = Some (0, s') \<and> tlb_step s s' \<and> vm_ok s'"
proof -
  have fb: "f < NUM_PHYS_PAGES" using ok f by (auto simp: vm_ok_def pages_ok_def)
  have frame: "unat (ucast (drop_bit PFN_SHIFT (frame_ptr s f - phys_mem s)) :: u32) = f"
  proof -
    have "unat (drop_bit PFN_SHIFT (frame_ptr s f - phys_mem s)) = f"
      using frame_ptr_off(1) [OF ok fb] by (simp add: phys_off_def PFN_SHIFT_def unat_drop_bit)
    moreover have "f < 2 ^ 32" using fb by (simp add: vm_consts)
    ultimately show ?thesis by (simp add: unsigned_ucast_eq take_bit_nat_eq_self)
  qed
  let ?i = "tlb_victim (tlbGlobal s)" and ?c = "tlb_lookups s + 1"
  let ?e = "\<lparr>vpn = drop_bit PFN_SHIFT (VA2U va),
     pfn = ucast (drop_bit PFN_SHIFT (frame_ptr s f - phys_mem s)), valid = True, last_used = ?c\<rparr>"
  let ?s = "s\<lparr>tlb_lock := False, tlb_lookups := ?c, tlbGlobal := (tlbGlobal s)[?i := ?e]\<rparr>"
  have run: "TLB_add va (frame_ptr s f) s = Some (0, ?s)"
    using vm_ok_fields(3) [OF ok] frame_ptr_off(2) [OF ok fb]
    by (simp add: TLB_add_def lock_tlb_def unlock_tlb_def)
  have step: "tlb_step s ?s" using vm_ok_fields(3) [OF ok] by (simp add: tlb_step_def)
  have "tlb_ok ?s"
    using ok f frame vm_ok_fields(8) [OF ok]
    using tlb_victim_bound [of "tlbGlobal s"]
    by (simp add: tlb_ok_def vm_ok_def tlb_step_views [OF step] nth_list_update unat_vpn page_of_def)
  then have "vm_ok ?s"
    using ok step vm_ok_fields(8) [OF ok] by (intro vm_ok_tlb_step [OF ok step]) auto
  with run step show ?thesis by blast
qed

lemma TLB_check_ok:
  assumes ok: "vm_ok s"
  obtains (hit) f s' where "TLB_check va s = Some (frame_ptr s f, s')"
      "page_frame s (page_of (VA2U va)) = Some f" "tlb_step s s'" "vm_ok s'"
  | (miss) s' where "TLB_check va s = Some (0, s')" "tlb_step s s'" "vm_ok s'"
proof -
  let ?v = "drop_bit PFN_SHIFT (VA2U va)"
  let ?p = "\<lambda>i. \<not> (valid (tlbGlobal s ! i) \<and> vpn (tlbGlobal s ! i) = ?v)"
  have lock: "lock_tlb s = Some (s\<lparr>tlb_lock := True\<rparr>)"
    using vm_ok_fields(3) [OF ok] by (simp add: lock_tlb_def)
  show ?thesis
  proof (cases "first_clear ?p 0 TLB_ENTRIES")
    case None
    let ?s = "s\<lparr>tlb_lock := False, tlb_misses := tlb_misses s + 1\<rparr>"
    have "TLB_check va s = Some (0, ?s)"
      using None lock by (simp add: TLB_check_def unlock_tlb_def)
    moreover have step: "tlb_step s ?s" using vm_ok_fields(3) [OF ok] by (simp add: tlb_step_def)
    moreover have "vm_ok ?s"
      using ok vm_ok_fields(8) [OF ok]
      by (intro vm_ok_tlb_step [OF ok step]) (auto simp: tlb_ok_def vm_ok_def tlb_step_views [OF step])
    ultimately show ?thesis by (rule miss)
  next
    case (Some i)
    then have i: "i < TLB_ENTRIES" "valid (tlbGlobal s ! i)" "vpn (tlbGlobal s ! i) = ?v"
      by (auto simp: first_clear_Some)
    let ?f = "unat (pfn (tlbGlobal s ! i))" and ?c = "tlb_lookups s + 1"
    let ?s = "s\<lparr>tlb_lock := False, tlb_lookups := ?c,
      tlbGlobal := (tlbGlobal s)[i := (tlbGlobal s ! i)\<lparr>last_used := ?c\<rparr>]\<rparr>"
    have len: "i < length (tlbGlobal s)" using i vm_ok_fields(8) [OF ok] by simp
    have f: "page_frame s (page_of (VA2U va)) = Some ?f"
      using ok i by (auto simp: vm_ok_def tlb_ok_def page_of_def unat_vpn dest: spec [of _ i])
    then have "?f < NUM_PHYS_PAGES" using ok by (auto simp: vm_ok_def pages_ok_def)
    then have "TLB_check va s = Some (frame_ptr s ?f, ?s)"
      using Some lock len frame_ptr_off(3) [OF ok]
      by (simp add: TLB_check_def unlock_tlb_def Let_def)
    moreover have step: "tlb_step s ?s" using vm_ok_fields(3) [OF ok] by (simp add: tlb_step_def)
    moreover have "vm_ok ?s"
      using ok vm_ok_fields(8) [OF ok] len
      by (intro vm_ok_tlb_step [OF ok step])
        (auto simp: tlb_ok_def vm_ok_def tlb_step_views [OF step] nth_list_update)
    ultimately show ?thesis using f by (intro hit)
  qed
qed

section \<open>translate agrees with the walk\<close>

lemma ensure_vm_init_done [simp]: "vm_initialized s \<Longrightarrow> ensure_vm_init c s = Some s"
  by (simp add: ensure_vm_init_def)

lemma dir_entry_ok:
  assumes "vm_ok s"
  obtains pde where "dir_entry s (PDX v) = Some pde"
    "table_frame s (page_of v div 1024) =
      (if pde AND PTE_PRESENT = 0 then None else Some (unat (drop_bit PFN_SHIFT pde)))"
proof -
  obtain d where d: "pgdir s = Some d" "length d = 1024"
    using assms by (auto simp: vm_ok_def vm_shape_def)
  have i: "unat (PDX v) = page_of v div 1024" by (simp add: unat_PDX page_of_def)
  then have "page_of v div 1024 < 1024" using PDX_bound [of v] by simp
  with d i show ?thesis
    by (intro that [of "d ! unat (PDX v)"]) (simp_all add: dir_entry_def table_frame_def)
qed

lemma load_entry:
  fixes ptf :: u32
  assumes "unat ptf < NUM_PHYS_PAGES"
  shows "load32 s (phys_mem s + push_bit PFN_SHIFT (ucast ptf) + 4 * ucast (PTX v)) =
    Some (entry_at s (unat ptf) (page_of v mod 1024))"
proof -
  have "4096 * unat ptf + 4 * (page_of v mod 1024) + 4 \<le> MEMSIZE"
    using assms by (simp add: vm_consts)
  then show ?thesis
    by (simp add: load32_def phys_off_entry page_of_def entry_at_def)
qed

text \<open>
  The state in which \<open>translate\<close> leaves the machine differs in the TLB only, and its result
  is that of the walk: on a TLB hit too.
\<close>

lemma translate_walk:
  assumes ok: "vm_ok s"
  obtains s' where
    "translate c va s = Some (case page_frame s (page_of (VA2U va)) of
        None \<Rightarrow> 0 | Some f \<Rightarrow> frame_ptr s f, s')"
    "tlb_step s s'" "vm_ok s'"
proof -
  obtain d where init: "vm_initialized s" "pgdir s = Some d"
    using vm_ok_fields(1,9) [OF ok] by blast
  show ?thesis
  proof (cases rule: TLB_check_ok [OF ok, of va])
    case (1 f s')
    have "f < NUM_PHYS_PAGES" using ok 1(2) by (auto simp: vm_ok_def pages_ok_def)
    then have "frame_ptr s f \<noteq> 0" by (rule frame_ptr_off(2) [OF ok])
    with 1 init show ?thesis by (intro that [of s']) (simp_all add: translate_def)
  next
    case (2 t)
    note v = tlb_step_views [OF 2(2)]
    obtain pde where pde: "dir_entry t (PDX (VA2U va)) = Some pde"
      "table_frame t (page_of (VA2U va) div 1024) =
        (if pde AND PTE_PRESENT = 0 then None else Some (unat (drop_bit PFN_SHIFT pde)))"
      by (rule dir_entry_ok [OF 2(3)])
    show ?thesis
    proof (cases "pde AND PTE_PRESENT = 0")
      case True
      then have "page_frame t (page_of (VA2U va)) = None" using pde by (simp add: page_frame_def)
      with 2 init pde True v show ?thesis by (intro that [of t]) (simp_all add: translate_def)
    next
      case False
      let ?f = "unat (drop_bit PFN_SHIFT pde)"
      let ?w = "entry_at t ?f (page_of (VA2U va) mod 1024)"
      have tf: "table_frame t (page_of (VA2U va) div 1024) = Some ?f" using False pde by simp
      then have "?f < NUM_PHYS_PAGES" using 2(3) unfolding vm_ok_def tables_ok_def by blast
      then have load: "load32 t (phys_mem t + push_bit PFN_SHIFT (ucast (drop_bit PFN_SHIFT pde)) +
          4 * ucast (PTX (VA2U va))) = Some ?w" by (rule load_entry)
      show ?thesis
      proof (cases "?w AND PTE_PRESENT = 0")
        case True
        then have "page_frame t (page_of (VA2U va)) = None" using tf by (simp add: page_frame_def)
        with 2 init pde False load True v show ?thesis
          by (intro that [of t]) (simp_all add: translate_def)
      next
        case present: False
        let ?g = "unat (drop_bit PFN_SHIFT ?w)"
        have g: "page_frame t (page_of (VA2U va)) = Some ?g"
          using tf present by (simp add: page_frame_def)
        then have "?g < NUM_PHYS_PAGES" using 2(3) by (auto simp: vm_ok_def pages_ok_def)
        then have ptr: "phys_mem t + push_bit PFN_SHIFT (ucast (drop_bit PFN_SHIFT ?w)) = frame_ptr t ?g"
          using frame_ptr_off(3) [OF 2(3)] by simp
        obtain u where u: "TLB_add va (frame_ptr t ?g) t = Some (0, u)" "tlb_step t u" "vm_ok u"
          using TLB_add_ok [OF 2(3) g] by blast
        show ?thesis
        proof (rule that [of u])
          show "translate c va s = Some (case page_frame s (page_of (VA2U va)) of
              None \<Rightarrow> 0 | Some f \<Rightarrow> frame_ptr s f, u)"
            using 2 init pde False load present g ptr u v by (simp add: translate_def)
          show "tlb_step s u" using 2 u tlb_step_trans by blast
        qed (rule u)
      qed
    qed
  qed
qed

section \<open>map_page\<close>

lemma alloc_phys_frame_cases:
  assumes "NUM_PHYS_PAGES \<le> capacity (phys_bitmap s)"
  obtains (none) "alloc_phys_frame s = Some (-1, s)"
      "\<And>f. f < NUM_PHYS_PAGES \<Longrightarrow> bit_at (phys_bitmap s) f"
  | (frame) f where "alloc_phys_frame s = Some (int f, s\<lparr>phys_bitmap := BIT_SET (phys_bitmap s) f\<rparr>)"
      "f < NUM_PHYS_PAGES" "\<not> bit_at (phys_bitmap s) f" "\<And>g. g < f \<Longrightarrow> bit_at (phys_bitmap s) g"
proof (cases "first_clear (bit_at (phys_bitmap s)) 0 NUM_PHYS_PAGES")
  case None
  with assms have "alloc_phys_frame s = Some (-1, s)"
    by (simp add: alloc_phys_frame_def BIT_TEST_bit)
  moreover have "bit_at (phys_bitmap s) f" if "f < NUM_PHYS_PAGES" for f
    using None that by (simp add: first_clear_None)
  ultimately show ?thesis by (rule none)
next
  case (Some f)
  with assms have "alloc_phys_frame s = Some (int f, s\<lparr>phys_bitmap := BIT_SET (phys_bitmap s) f\<rparr>)"
    by (simp add: alloc_phys_frame_def BIT_TEST_bit)
  moreover have "f < NUM_PHYS_PAGES" "\<not> bit_at (phys_bitmap s) f"
    "\<And>g. g < f \<Longrightarrow> bit_at (phys_bitmap s) g"
    using Some by (simp_all add: first_clear_Some)
  ultimately show ?thesis by (rule frame)
qed

lemma entry_at_mem: "mem s' = mem s \<Longrightarrow> entry_at s' f t = entry_at s f t"
  by (simp add: entry_at_def)

lemma entry_at_fill_other:
  "g \<noteq> f \<Longrightarrow> t < 1024 \<Longrightarrow>
   entry_at (s\<lparr>mem := fill_bytes (mem s) (4096 * f) 4096 v\<rparr>) g t = entry_at s g t"
proof -
  assume "g \<noteq> f" "t < 1024"
  then have "4096 * g + 4 * t + 4 \<le> 4096 * f \<or> 4096 * f + 4096 \<le> 4096 * g + 4 * t"
    by (cases "g < f") auto
  then show ?thesis by (simp add: entry_at_def load_fill_other)
qed

lemma entry_at_fill_same:
  "t < 1024 \<Longrightarrow> entry_at (s\<lparr>mem := fill_bytes (mem s) (4096 * f) 4096 0\<rparr>) f t = 0"
proof -
  assume "t < 1024"
  then have "load_bytes (fill_bytes (mem s) (4096 * f) 4096 0) (4096 * f + 4 * t) 4 = replicate 4 0"
    by (intro nth_equalityI) (auto simp: fill_bytes_def)
  then show ?thesis by (simp add: entry_at_def numeral_eq_Suc)
qed

lemma entry_at_store:
  assumes "t < 1024" "u < 1024"
  shows "entry_at (s\<lparr>mem := store_bytes (mem s) (4096 * f + 4 * t) (le_enc 4 (unat w))\<rparr>) g u =
    (if g = f \<and> u = t then w else entry_at s g u)"
proof (cases "g = f \<and> u = t")
  case True
  have "unat w mod 256 ^ 4 = unat w" using unat_u32_bound [of w] by simp
  with True show ?thesis by (simp add: entry_at_def le_dec_enc)
next
  case False
  then have "4096 * g + 4 * u + 4 \<le> 4096 * f + 4 * t \<or> 4096 * f + 4 * t + 4 \<le> 4096 * g + 4 * u"
  proof (cases "g = f")
    case True
    with False have "u < t \<or> t < u" by auto
    with True show ?thesis by auto
  next
    case False
    then consider "g < f" | "f < g" by linarith
    then show ?thesis using assms by cases simp_all
  qed
  then have "load_bytes (store_bytes (mem s) (4096 * f + 4 * t) (le_enc 4 (unat w))) (4096 * g + 4 * u) 4 =
      load_bytes (mem s) (4096 * g + 4 * u) 4"
    by (intro load_store_other) (simp only: length_le_enc)
  with False show ?thesis by (auto simp: entry_at_def)
qed

text \<open>
  What mapping page \<open>n\<close> to frame \<open>f\<close> leaves: the mapping is added, nothing else changes but
  the page tables, which may take one more frame, free until then.
\<close>

definition maps_to :: "vm \<Rightarrow> nat \<Rightarrow> nat \<Rightarrow> vm \<Rightarrow> bool" where
  "maps_to s n f s' \<longleftrightarrow>
     phys_mem s' = phys_mem s \<and> virt_bitmap s' = virt_bitmap s \<and> tlbGlobal s' = tlbGlobal s \<and>
     page_frame s' = (page_frame s)(n := Some f) \<and>
     (\<forall>g<NUM_PHYS_PAGES. bit_at (phys_bitmap s') g \<longleftrightarrow>
        bit_at (phys_bitmap s) g \<or> (\<exists>d. table_frame s' d = Some g)) \<and>
     (\<exists>x. \<forall>g<NUM_PHYS_PAGES. bit_at (phys_bitmap s') g \<longrightarrow> bit_at (phys_bitmap s) g \<or> g = x) \<and>
     (\<forall>d g. table_frame s d = Some g \<longrightarrow> table_frame s' d = Some g) \<and>
     (\<forall>d g. table_frame s' d = Some g \<longrightarrow>
        table_frame s d = Some g \<or> g < NUM_PHYS_PAGES \<and> \<not> bit_at (phys_bitmap s) g) \<and>
     (\<forall>g i. g < NUM_PHYS_PAGES \<longrightarrow> bit_at (phys_bitmap s) g \<longrightarrow> (\<forall>d. table_frame s d \<noteq> Some g) \<longrightarrow>
        i < 4096 \<longrightarrow> mem s' (4096 * g + i) = mem s (4096 * g + i))"

text \<open>First step: the page table of directory slot \<open>d\<close> is made.\<close>

definition new_table :: "vm \<Rightarrow> nat \<Rightarrow> nat \<Rightarrow> vm" where
  "new_table s d f = s\<lparr>phys_bitmap := BIT_SET (phys_bitmap s) f,
     mem := fill_bytes (mem s) (4096 * f) 4096 0,
     pgdir := map_option (\<lambda>ds. ds[d := entry_for f]) (pgdir s)\<rparr>"

lemma new_table_views:
  assumes ok: "vm_ok s" and d: "d < 1024" and none: "table_frame s d = None"
    and f: "f < NUM_PHYS_PAGES" "\<not> bit_at (phys_bitmap s) f"
  shows "table_frame (new_table s d f) = (table_frame s)(d := Some f)"
    and "page_frame (new_table s d f) = page_frame s"
proof -
  obtain ds where ds: "pgdir s = Some ds" "length ds = 1024"
    using ok by (auto simp: vm_ok_def vm_shape_def)
  show t: "table_frame (new_table s d f) = (table_frame s)(d := Some f)"
    using ds d f by (auto simp: fun_eq_iff table_frame_def new_table_def entry_for_present
        entry_for_frame nth_list_update)
  show "page_frame (new_table s d f) = page_frame s"
  proof (rule ext)
    fix m
    show "page_frame (new_table s d f) m = page_frame s m"
    proof (cases "m div 1024 = d")
      case True
      have "entry_at (new_table s d f) f (m mod 1024) =
          entry_at (s\<lparr>mem := fill_bytes (mem s) (4096 * f) 4096 0\<rparr>) f (m mod 1024)"
        by (rule entry_at_mem) (simp add: new_table_def)
      with True none show ?thesis by (simp add: page_frame_def t entry_at_fill_same)
    next
      case False
      have "g \<noteq> f" if "table_frame s (m div 1024) = Some g" for g
        using ok that f unfolding vm_ok_def tables_ok_def by blast
      moreover have "entry_at (new_table s d f) g (m mod 1024) =
          entry_at (s\<lparr>mem := fill_bytes (mem s) (4096 * f) 4096 0\<rparr>) g (m mod 1024)" for g
        by (rule entry_at_mem) (simp add: new_table_def)
      ultimately show ?thesis using False
        by (auto simp: page_frame_def t entry_at_fill_other split: option.split)
    qed
  qed
qed

lemma new_table_ok:
  assumes ok: "vm_ok s" and d: "d < 1024" and none: "table_frame s d = None"
    and f: "f < NUM_PHYS_PAGES" "\<not> bit_at (phys_bitmap s) f"
  shows "vm_ok (new_table s d f)"
proof -
  note v = new_table_views [OF assms]
  note len = vm_ok_fields(6,8) [OF ok]
  have cap: "capacity (phys_bitmap s) = NUM_PHYS_PAGES" using len by (simp add: vm_consts)
  have bit: "bit_at (phys_bitmap (new_table s d f)) g \<longleftrightarrow> g = f \<or> bit_at (phys_bitmap s) g"
    if "g < NUM_PHYS_PAGES" for g
    using that f cap by (simp add: new_table_def bit_at_set)
  have "vm_shape (new_table s d f)"
    using ok by (auto simp: vm_ok_def vm_shape_def new_table_def)
  moreover have "tables_ok (new_table s d f)"
    using ok f bit unfolding vm_ok_def tables_ok_def v by (auto split: if_splits)
  moreover have "pages_ok (new_table s d f)" "virt_ok (new_table s d f)" "tlb_ok (new_table s d f)"
    using ok unfolding vm_ok_def pages_ok_def virt_ok_def tlb_ok_def v
    by (simp_all add: new_table_def)
  ultimately show ?thesis by (simp add: vm_ok_def)
qed

text \<open>Second step: the entry of page \<open>n\<close> is written in the page table in frame \<open>t\<close>.\<close>

definition set_pte :: "vm \<Rightarrow> nat \<Rightarrow> nat \<Rightarrow> u32 \<Rightarrow> vm" where
  "set_pte s t n w =
     s\<lparr>mem := store_bytes (mem s) (4096 * t + 4 * (n mod 1024)) (le_enc 4 (unat w))\<rparr>"

definition entry_frame :: "u32 \<Rightarrow> nat option" where
  "entry_frame w = (if w AND PTE_PRESENT = 0 then None else Some (unat (drop_bit PFN_SHIFT w)))"

lemma entry_frame_for: "f < NUM_PHYS_PAGES \<Longrightarrow> entry_frame (entry_for f) = Some f"
  by (simp add: entry_frame_def entry_for_present entry_for_frame)

lemma entry_frame_0 [simp]: "entry_frame 0 = None"
  by (simp add: entry_frame_def)

lemma page_frame_entry:
  "page_frame s n =
     (case table_frame s (n div 1024) of None \<Rightarrow> None | Some t \<Rightarrow> entry_frame (entry_at s t (n mod 1024)))"
  by (simp add: page_frame_def entry_frame_def split: option.split)

lemma set_pte_views:
  assumes ok: "tables_ok s" and t: "table_frame s (n div 1024) = Some t"
  shows "table_frame (set_pte s t n w) = table_frame s"
    and "page_frame (set_pte s t n w) = (page_frame s)(n := entry_frame w)"
proof -
  show tab: "table_frame (set_pte s t n w) = table_frame s"
    by (intro ext table_frame_cong) (simp add: set_pte_def)
  have entry: "entry_at (set_pte s t n w) g u = (if g = t \<and> u = n mod 1024 then w else entry_at s g u)"
    if "u < 1024" for g u
    using that by (simp add: set_pte_def entry_at_store)
  show "page_frame (set_pte s t n w) = (page_frame s)(n := entry_frame w)"
  proof (rule ext)
    fix m
    show "page_frame (set_pte s t n w) m = ((page_frame s)(n := entry_frame w)) m"
    proof (cases "table_frame s (m div 1024)")
      case None
      with t show ?thesis by (auto simp: page_frame_entry tab)
    next
      case (Some g)
      have "m = n" if "g = t" "m mod 1024 = n mod 1024"
      proof -
        have "m div 1024 = n div 1024" using ok t Some that unfolding tables_ok_def by blast
        then show ?thesis using that by (metis div_mult_mod_eq)
      qed
      with Some t show ?thesis by (auto simp: page_frame_entry tab entry)
    qed
  qed
qed

lemma vm_shape_mem [simp]: "vm_shape (s\<lparr>mem := m\<rparr>) = vm_shape s"
  by (simp add: vm_shape_def)

lemma set_pte_ok:
  assumes ok: "vm_ok s" and t: "table_frame s (n div 1024) = Some t"
    and free: "page_frame s n = None"
    and virt: "\<forall>i<NUM_VIRT_PAGES. virt_page i = n \<longrightarrow> bit_at (virt_bitmap s) i"
    and f: "f < NUM_PHYS_PAGES"
  shows "vm_ok (set_pte s t n (entry_for f))"
proof -
  have ts: "tables_ok s" using ok by (simp add: vm_ok_def)
  note v = set_pte_views [OF ts t, of "entry_for f", unfolded entry_frame_for [OF f]]
  have e: "phys_bitmap (set_pte s t n (entry_for f)) = phys_bitmap s"
    "virt_bitmap (set_pte s t n (entry_for f)) = virt_bitmap s"
    "tlbGlobal (set_pte s t n (entry_for f)) = tlbGlobal s" by (simp_all add: set_pte_def)
  have "vm_shape (set_pte s t n (entry_for f))" using ok by (simp add: vm_ok_def set_pte_def)
  moreover have "tables_ok (set_pte s t n (entry_for f))"
    using ts unfolding tables_ok_def v e .
  moreover have "pages_ok (set_pte s t n (entry_for f))"
    using ok f unfolding vm_ok_def pages_ok_def v by simp
  moreover have "virt_ok (set_pte s t n (entry_for f))"
    using ok virt unfolding vm_ok_def virt_ok_def v e by auto
  moreover have "tlb_ok (set_pte s t n (entry_for f))"
    using ok free unfolding vm_ok_def tlb_ok_def v e by auto
  ultimately show ?thesis by (simp add: vm_ok_def)
qed

text \<open>The accesses of the code, in terms of frame numbers.\<close>

lemma frame_shift_of_nat: "push_bit PFN_SHIFT (ucast (w :: u32)) = (push_bit PFN_SHIFT (of_nat (unat w)) :: u64)"
  by simp

lemma phys_off_entry_nat:
  assumes "f < NUM_PHYS_PAGES"
  shows "phys_off s (phys_mem s + push_bit PFN_SHIFT (of_nat f) + 4 * ucast (PTX v)) =
    4096 * f + 4 * (page_of v mod 1024)"
proof -
  have "unat (of_nat f :: u32) = f" using assms by (intro unat_of_nat_small) (simp add: vm_consts)
  moreover have "(ucast (of_nat f :: u32) :: u64) = of_nat (unat (of_nat f :: u32))" by simp
  ultimately show ?thesis using phys_off_entry [of s "of_nat f" v] by (simp add: page_of_def)
qed

lemma entry_in_memory: "f < NUM_PHYS_PAGES \<Longrightarrow> 4096 * f + 4 * (n mod 1024) + 4 \<le> MEMSIZE"
  by (simp add: vm_consts)

lemma load_entry_nat:
  "f < NUM_PHYS_PAGES \<Longrightarrow>
   load32 s (phys_mem s + push_bit PFN_SHIFT (of_nat f) + 4 * ucast (PTX v)) =
   Some (entry_at s f (page_of v mod 1024))"
  by (simp add: load32_def phys_off_entry_nat entry_at_def entry_in_memory)

lemma store_entry_nat:
  "f < NUM_PHYS_PAGES \<Longrightarrow>
   store32 (phys_mem s + push_bit PFN_SHIFT (of_nat f) + 4 * ucast (PTX v)) w s =
   Some (set_pte s f (page_of v) w)"
  by (simp add: store32_def phys_off_entry_nat set_pte_def entry_in_memory)

lemma frame_index:
  assumes "f < NUM_PHYS_PAGES"
  shows "(ucast (ucast ((of_nat (4096 * f) :: u64) div of_nat PGSIZE) :: u32) :: u64) = of_nat f"
proof -
  have f: "f < 2 ^ 18" using assms by (simp add: vm_consts)
  have "unat (of_nat (4096 * f) :: u64) = 4096 * f" using f by (intro unat_of_nat_small) simp
  then have "unat ((of_nat (4096 * f) :: u64) div of_nat PGSIZE) = f"
    by (simp only: unat_div) (simp add: PGSIZE_def)
  then have "unat (ucast ((of_nat (4096 * f) :: u64) div of_nat PGSIZE) :: u32) = f"
    using f by (simp only: unsigned_ucast_eq) (simp add: take_bit_nat_eq_self)
  moreover have "unat (of_nat f :: u64) = f" using f by (intro unat_of_nat_small) simp
  ultimately show ?thesis by (metis unat_ucast64 word_unat_eq_iff)
qed

lemma frame_aligned:
  assumes "f < NUM_PHYS_PAGES"
  shows "(of_nat (4096 * f) :: u64) AND ucast OFFMASK = 0"
proof -
  have f: "f < 2 ^ 18" using assms by (simp add: vm_consts)
  then have "unat (of_nat (4096 * f) :: u64) = 4096 * f" by (intro unat_of_nat_small) simp
  moreover have "(ucast OFFMASK :: u64) = mask 12"
    by (simp add: OFFMASK_def mask_eq_exp_minus_1)
  ultimately have "unat ((of_nat (4096 * f) :: u64) AND ucast OFFMASK) = 0"
    by (simp only: unat_and_mask) simp
  then show ?thesis by (simp only: unat_eq_0)
qed

lemma vm_lock_same: "\<not> vm_lock s \<Longrightarrow> s\<lparr>vm_lock := False\<rparr> = s"
  by (cases s) simp

lemma page_aligned: "v AND OFFMASK = 0 \<longleftrightarrow> unat v mod 4096 = 0"
  by (metis unat_OFF unat_eq_0)

lemma VA2U_U2VA [simp]: "VA2U (U2VA v) = v"
  unfolding VA2U_def U2VA_def by (rule bit_word_eqI) (simp add: bit_simps)

lemma U2VA_0 [simp]: "U2VA v = 0 \<longleftrightarrow> v = 0"
  by (metis U2VA_def VA2U_U2VA VA2U_def unsigned_0)

lemma set_pte_lock: "(set_pte (s\<lparr>vm_lock := b\<rparr>) t n w)\<lparr>vm_lock := b'\<rparr> = (set_pte s t n w)\<lparr>vm_lock := b'\<rparr>"
  by (simp add: set_pte_def)

lemma set_pte_vm_lock [simp]: "vm_lock (set_pte s t n w) = vm_lock s"
  by (simp add: set_pte_def)

lemma vm_lock_views [simp]:
  "table_frame (s\<lparr>vm_lock := b\<rparr>) = table_frame s" "page_frame (s\<lparr>vm_lock := b\<rparr>) = page_frame s"
  "entry_at (s\<lparr>vm_lock := b\<rparr>) = entry_at s" "dir_entry (s\<lparr>vm_lock := b\<rparr>) i = dir_entry s i"
  by (auto simp: fun_eq_iff table_frame_def page_frame_def entry_at_def dir_entry_def split: option.split)

text \<open>What \<open>map_page\<close> does once the page table is there, at frame \<open>t\<close>.\<close>

lemma map_page_entry:
  assumes ok: "vm_ok s" and al: "unat v mod 4096 = 0" "v \<noteq> 0" and f: "f < NUM_PHYS_PAGES"
    and t: "table_frame s (page_of v div 1024) = Some t"
  shows "map_page c (U2VA v) (frame_ptr s f) s =
    Some (if page_frame s (page_of v) = None then (0, set_pte s t (page_of v) (entry_for f)) else (-1, s))"
proof -
  let ?l = "s\<lparr>vm_lock := True\<rparr>"
  obtain ds where ds: "pgdir s = Some ds" using vm_ok_fields(9) [OF ok] by blast
  have tf: "t < NUM_PHYS_PAGES" using ok t unfolding vm_ok_def tables_ok_def by blast
  obtain pde where pde: "dir_entry s (PDX v) = Some pde"
    "table_frame s (page_of v div 1024) =
      (if pde AND PTE_PRESENT = 0 then None else Some (unat (drop_bit PFN_SHIFT pde)))"
    by (rule dir_entry_ok [OF ok])
  then have p: "pde AND PTE_PRESENT \<noteq> 0" "unat (drop_bit PFN_SHIFT pde) = t"
    using t by (auto split: if_splits)
  then have base: "(push_bit PFN_SHIFT (ucast (drop_bit PFN_SHIFT pde)) :: u64) = push_bit PFN_SHIFT (of_nat t)"
    by (simp only: frame_shift_of_nat)
  have off: "frame_ptr s f - phys_mem s = of_nat (4096 * f)" by (simp add: frame_ptr_def)
  have ld: "load32 ?l (phys_mem s + push_bit PFN_SHIFT (of_nat t) + 4 * ucast (PTX v)) =
      Some (entry_at s t (page_of v mod 1024))"
    using load_entry_nat [OF tf, of ?l v] by simp
  have st: "store32 (phys_mem s + push_bit PFN_SHIFT (of_nat t) + 4 * ucast (PTX v)) w ?l =
      Some (set_pte ?l t (page_of v) w)" for w
    using store_entry_nat [OF tf, of ?l v] by simp
  have mapped: "page_frame s (page_of v) = None \<longleftrightarrow> entry_at s t (page_of v mod 1024) AND PTE_PRESENT = 0"
    using t by (simp add: page_frame_def)
  have same: "s\<lparr>vm_lock := False\<rparr> = s" by (rule vm_lock_same [OF vm_ok_fields(2) [OF ok]])
  have new: "(set_pte ?l t n w)\<lparr>vm_lock := False\<rparr> = set_pte s t n w" for n w
    unfolding set_pte_lock by (rule vm_lock_same) (simp add: vm_ok_fields(2) [OF ok])
  have entry: "ucast (push_bit PFN_SHIFT (ucast (ucast ((of_nat (4096 * f) :: u64) div of_nat PGSIZE) :: u32) :: u64)
      OR ucast PTE_PRESENT) = entry_for f"
    by (simp only: frame_index [OF f] entry_for_def)
  have nz: "frame_ptr s f \<noteq> 0" by (rule frame_ptr_off(2) [OF ok f])
  have run: "map_page c (U2VA v) (frame_ptr s f) s =
     (if entry_at s t (page_of v mod 1024) AND PTE_PRESENT \<noteq> 0 then Some (-1, unlock_vm ?l)
      else Some (0, unlock_vm (set_pte ?l t (page_of v) (entry_for f))))"
    using vm_ok_fields(1,2) [OF ok] ds al nz pde(1) p(1)
    by (simp add: map_page_def off lock_vm_def page_aligned frame_aligned [OF f] base ld st
        entry Let_def del: of_nat_mult of_nat_unat)
  then show ?thesis by (simp add: mapped unlock_vm_def same new)
qed

text \<open>What \<open>map_page\<close> does when it has to make the page table first.\<close>

lemma new_table_fields [simp]:
  "phys_mem (new_table s d f) = phys_mem s" "virt_bitmap (new_table s d f) = virt_bitmap s"
  "tlbGlobal (new_table s d f) = tlbGlobal s" "vm_initialized (new_table s d f) = vm_initialized s"
  "vm_lock (new_table s d f) = vm_lock s"
  by (simp_all add: new_table_def)

lemma map_page_new_table:
  assumes ok: "vm_ok s" and al: "unat v mod 4096 = 0" "v \<noteq> 0" and f: "f < NUM_PHYS_PAGES"
    and none: "table_frame s (page_of v div 1024) = None"
    and alloc: "alloc_phys_frame s = Some (int g, s\<lparr>phys_bitmap := BIT_SET (phys_bitmap s) g\<rparr>)"
    and g: "g < NUM_PHYS_PAGES" "\<not> bit_at (phys_bitmap s) g"
  shows "map_page c (U2VA v) (frame_ptr s f) s =
    map_page c (U2VA v) (frame_ptr s f) (new_table s (page_of v div 1024) g)"
proof -
  let ?d = "page_of v div 1024"
  let ?l = "s\<lparr>vm_lock := True\<rparr>" and ?n = "new_table s ?d g"
  have d: "?d < 1024" using PDX_bound [of v] by (simp add: unat_PDX page_of_def)
  obtain ds where ds: "pgdir s = Some ds" "length ds = 1024"
    using ok by (auto simp: vm_ok_def vm_shape_def)
  have i: "unat (PDX v) = ?d" by (simp add: unat_PDX page_of_def)
  have absent: "ds ! ?d AND PTE_PRESENT = 0" using none ds d by (auto simp: table_frame_def split: if_splits)
  have off: "frame_ptr s f - phys_mem s = of_nat (4096 * f)" by (simp add: frame_ptr_def)
  have nz: "frame_ptr s f \<noteq> 0" by (rule frame_ptr_off(2) [OF ok f])
  have al': "alloc_phys_frame ?l = Some (int g, ?l\<lparr>phys_bitmap := BIT_SET (phys_bitmap s) g\<rparr>)"
    using alloc by (simp add: alloc_phys_frame_def split: option.splits if_splits)
  have ug: "unat (push_bit PFN_SHIFT (of_nat g) :: u64) = 4096 * g"
  proof -
    have "unat (of_nat g :: u32) = g" using g by (intro unat_of_nat_small) (simp add: vm_consts)
    moreover have "(ucast (of_nat g :: u32) :: u64) = of_nat (unat (of_nat g :: u32))" by simp
    ultimately show ?thesis by (metis unat_frame_shift)
  qed
  have set: "memset_phys (phys_mem s + push_bit PFN_SHIFT (of_nat g)) 0 PGSIZE
      (?l\<lparr>phys_bitmap := BIT_SET (phys_bitmap s) g\<rparr>) =
      Some (?l\<lparr>phys_bitmap := BIT_SET (phys_bitmap s) g, mem := fill_bytes (mem s) (4096 * g) 4096 0\<rparr>)"
    using g by (simp add: memset_phys_def phys_off_def ug vm_consts)
  have rec: "?n\<lparr>vm_lock := True\<rparr> =
      ?l\<lparr>phys_bitmap := BIT_SET (phys_bitmap s) g, mem := fill_bytes (mem s) (4096 * g) 4096 0,
         pgdir := Some (ds[?d := entry_for g])\<rparr>"
    using ds by (simp add: new_table_def)
  have pn: "pgdir ?n = Some (ds[?d := entry_for g])" using ds by (simp add: new_table_def)
  have "dir_entry (?n\<lparr>vm_lock := True\<rparr>) (PDX v) = Some (entry_for g)"
    using ds d i by (simp add: dir_entry_def new_table_def)
  moreover have "drop_bit PFN_SHIFT (entry_for g) = of_nat g"
    using entry_for_frame [OF g(1)] by (metis of_nat_unat ucast_id)
  moreover have "(ucast (of_nat g :: u32) :: u64) = of_nat g"
  proof -
    have "unat (of_nat g :: u32) = g" using g by (intro unat_of_nat_small) (simp add: vm_consts)
    then show ?thesis by (metis of_nat_unat)
  qed
  ultimately show ?thesis
    using vm_ok_fields(1,2) [OF ok] al nz ds d i absent
    by (simp add: map_page_def off lock_vm_def page_aligned frame_aligned [OF f] al' set
        dir_entry_def set_dir_entry_def Let_def entry_for_present rec entry_for_def [symmetric] pn
        del: of_nat_mult cong: if_cong)
qed

lemma map_page_no_frame:
  assumes ok: "vm_ok s" and al: "unat v mod 4096 = 0" "v \<noteq> 0" and f: "f < NUM_PHYS_PAGES"
    and none: "table_frame s (page_of v div 1024) = None"
    and alloc: "alloc_phys_frame s = Some (-1, s)"
  shows "map_page c (U2VA v) (frame_ptr s f) s = Some (-1, s)"
proof -
  let ?d = "page_of v div 1024" and ?l = "s\<lparr>vm_lock := True\<rparr>"
  have d: "?d < 1024" using PDX_bound [of v] by (simp add: unat_PDX page_of_def)
  obtain ds where ds: "pgdir s = Some ds" "length ds = 1024"
    using ok by (auto simp: vm_ok_def vm_shape_def)
  have i: "unat (PDX v) = ?d" by (simp add: unat_PDX page_of_def)
  have absent: "ds ! ?d AND PTE_PRESENT = 0" using none ds d by (auto simp: table_frame_def split: if_splits)
  have off: "frame_ptr s f - phys_mem s = of_nat (4096 * f)" by (simp add: frame_ptr_def)
  have nz: "frame_ptr s f \<noteq> 0" by (rule frame_ptr_off(2) [OF ok f])
  have al': "alloc_phys_frame ?l = Some (-1, ?l)"
    using alloc by (simp add: alloc_phys_frame_def split: option.splits if_splits)
  have same: "unlock_vm ?l = s"
    using vm_lock_same [OF vm_ok_fields(2) [OF ok]] by (simp add: unlock_vm_def)
  show ?thesis
    using vm_ok_fields(1,2) [OF ok] al nz ds d i absent
    by (simp add: map_page_def off lock_vm_def page_aligned frame_aligned [OF f] al' same
        dir_entry_def Let_def del: of_nat_mult cong: if_cong)
qed

lemma page_of_bound: "page_of v < NUM_VIRT_PAGES"
  using unat_u32_bound [of v] by (simp add: page_of_def vm_consts)

lemma phys_capacity: "vm_ok s \<Longrightarrow> capacity (phys_bitmap s) = NUM_PHYS_PAGES"
  using vm_ok_fields(6) [of s] by (simp add: vm_consts)

lemma virt_capacity: "vm_ok s \<Longrightarrow> capacity (virt_bitmap s) = NUM_VIRT_PAGES"
  using vm_ok_fields(7) [of s] by (simp add: vm_consts)

lemma tables_used: "vm_ok s \<Longrightarrow> table_frame s d = Some f \<Longrightarrow> f < NUM_PHYS_PAGES \<and> bit_at (phys_bitmap s) f"
  unfolding vm_ok_def tables_ok_def by blast

lemma pages_in_memory: "vm_ok s \<Longrightarrow> page_frame s n = Some f \<Longrightarrow> f < NUM_PHYS_PAGES"
  unfolding vm_ok_def pages_ok_def by blast

lemma set_pte_maps:
  assumes ok: "vm_ok s" and t: "table_frame s (n div 1024) = Some t" and f: "f < NUM_PHYS_PAGES"
  shows "maps_to s n f (set_pte s t n (entry_for f))"
proof -
  have "tables_ok s" using ok by (simp add: vm_ok_def)
  note v = set_pte_views [OF this t, of "entry_for f", unfolded entry_frame_for [OF f]]
  have "mem (set_pte s t n (entry_for f)) (4096 * g + i) = mem s (4096 * g + i)"
    if "g \<noteq> t" "i < 4096" for g i
  proof -
    have "g < t \<or> t < g" using that by linarith
    then have "4096 * g + i < 4096 * t + 4 * (n mod 1024) \<or> 4096 * t + 4 * (n mod 1024) + 4 \<le> 4096 * g + i"
      using that mod_less_divisor [of 1024 n] by auto
    then show ?thesis by (simp add: set_pte_def store_bytes_out)
  qed
  then have "mem (set_pte s t n (entry_for f)) (4096 * g + i) = mem s (4096 * g + i)"
    if "\<forall>d. table_frame s d \<noteq> Some g" "i < 4096" for g i using that t by metis
  moreover have "phys_bitmap (set_pte s t n (entry_for f)) = phys_bitmap s"
    "virt_bitmap (set_pte s t n (entry_for f)) = virt_bitmap s"
    "tlbGlobal (set_pte s t n (entry_for f)) = tlbGlobal s"
    "phys_mem (set_pte s t n (entry_for f)) = phys_mem s" by (simp_all add: set_pte_def)
  ultimately show ?thesis
    using tables_used [OF ok] unfolding maps_to_def v by auto
qed

lemma maps_to_new_table:
  assumes ok: "vm_ok s" and d: "d < 1024" and none: "table_frame s d = None"
    and g: "g < NUM_PHYS_PAGES" "\<not> bit_at (phys_bitmap s) g"
    and m: "maps_to (new_table s d g) n f s'" "phys_bitmap s' = phys_bitmap (new_table s d g)"
  shows "maps_to s n f s'"
proof -
  note v = new_table_views [OF ok d none g]
  have tg: "table_frame s' d = Some g" using m(1) v by (auto simp: maps_to_def)
  have bit: "bit_at (phys_bitmap (new_table s d g)) h \<longleftrightarrow> h = g \<or> bit_at (phys_bitmap s) h"
    if "h < NUM_PHYS_PAGES" for h
    using that g phys_capacity [OF ok] by (simp add: new_table_def bit_at_set)
  have bytes: "mem (new_table s d g) (4096 * h + i) = mem s (4096 * h + i)" if "h \<noteq> g" "i < 4096" for h i
  proof -
    have "h < g \<or> g < h" using that by linarith
    then show ?thesis using that by (auto simp: new_table_def fill_bytes_def)
  qed
  have "bit_at (phys_bitmap s') h \<longleftrightarrow> bit_at (phys_bitmap s) h \<or> (\<exists>d. table_frame s' d = Some h)"
    if "h < NUM_PHYS_PAGES" for h
    using m(1) bit [OF that] that tg by (auto simp: maps_to_def)
  moreover have "\<exists>x. \<forall>h<NUM_PHYS_PAGES. bit_at (phys_bitmap s') h \<longrightarrow> bit_at (phys_bitmap s) h \<or> h = x"
    using bit m(2) by auto
  moreover have "table_frame s' e = Some h" if "table_frame s e = Some h" for e h
  proof -
    have "((table_frame s)(d := Some g)) e = Some h" using that none by auto
    then show ?thesis using m(1) unfolding maps_to_def v by blast
  qed
  moreover have "table_frame s e = Some h \<or> h < NUM_PHYS_PAGES \<and> \<not> bit_at (phys_bitmap s) h" if "table_frame s' e = Some h" for e h
  proof -
    have "((table_frame s)(d := Some g)) e = Some h \<or>
        h < NUM_PHYS_PAGES \<and> \<not> bit_at (phys_bitmap (new_table s d g)) h"
      using m(1) that unfolding maps_to_def v by blast
    then show ?thesis
      using g bit by (auto split: if_splits)
  qed
  moreover have "mem s' (4096 * h + i) = mem s (4096 * h + i)"
    if "h < NUM_PHYS_PAGES" "bit_at (phys_bitmap s) h" "\<forall>e. table_frame s e \<noteq> Some h" "i < 4096" for h i
  proof -
    have "h \<noteq> g" using that g by blast
    moreover have "mem s' (4096 * h + i) = mem (new_table s d g) (4096 * h + i)"
      using m(1) that \<open>h \<noteq> g\<close> bit unfolding maps_to_def v by auto
    ultimately show ?thesis using bytes that by simp
  qed
  ultimately show ?thesis using m(1) unfolding maps_to_def v by auto
qed

text \<open>
  \<open>map_page\<close> on a page that is free and a frame of the memory: it maps the page, or fails and
  changes nothing when the page table needs a frame and none is left.
\<close>

lemma map_page_cases:
  assumes ok: "vm_ok s" and al: "unat v mod 4096 = 0" "v \<noteq> 0" and f: "f < NUM_PHYS_PAGES"
    and free: "page_frame s (page_of v) = None"
    and virt: "\<forall>i<NUM_VIRT_PAGES. virt_page i = page_of v \<longrightarrow> bit_at (virt_bitmap s) i"
  obtains (full) "map_page c (U2VA v) (frame_ptr s f) s = Some (-1, s)"
      "table_frame s (page_of v div 1024) = None" "\<forall>g<NUM_PHYS_PAGES. bit_at (phys_bitmap s) g"
  | (mapped) s' where "map_page c (U2VA v) (frame_ptr s f) s = Some (0, s')"
      "maps_to s (page_of v) f s'" "vm_ok s'"
proof (cases "table_frame s (page_of v div 1024)")
  case (Some t)
  show ?thesis
    using map_page_entry [OF ok al f Some] free set_pte_maps [OF ok Some f] set_pte_ok [OF ok Some free virt f]
    by (intro mapped) simp_all
next
  case None
  let ?d = "page_of v div 1024"
  have d: "?d < 1024" using page_of_bound [of v] by (simp add: vm_consts)
  have cap: "NUM_PHYS_PAGES \<le> capacity (phys_bitmap s)" using phys_capacity [OF ok] by simp
  show ?thesis
  proof (cases rule: alloc_phys_frame_cases [OF cap])
    case none: 1
    show ?thesis
      using map_page_no_frame [OF ok al f None none(1)] None none(2) by (intro full) auto
  next
    case 3: (2 g)
    let ?n = "new_table s ?d g"
    note v = new_table_views [OF ok d None 3(2,3)]
    have okn: "vm_ok ?n" by (rule new_table_ok [OF ok d None 3(2,3)])
    have t: "table_frame ?n ?d = Some g" by (simp add: v)
    have fr: "page_frame ?n (page_of v) = None" using free by (simp add: v)
    have vi: "\<forall>i<NUM_VIRT_PAGES. virt_page i = page_of v \<longrightarrow> bit_at (virt_bitmap ?n) i" using virt by simp
    have ptr: "frame_ptr ?n f = frame_ptr s f" by (simp add: frame_ptr_def)
    show ?thesis
    proof (rule mapped)
      show "map_page c (U2VA v) (frame_ptr s f) s = Some (0, set_pte ?n g (page_of v) (entry_for f))"
        using map_page_new_table [OF ok al f None 3(1-3)] map_page_entry [OF okn al f t] fr ptr by simp
      show "maps_to s (page_of v) f (set_pte ?n g (page_of v) (entry_for f))"
        by (rule maps_to_new_table [OF ok d None 3(2,3) set_pte_maps [OF okn t f]])
          (simp add: set_pte_def)
      show "vm_ok (set_pte ?n g (page_of v) (entry_for f))" by (rule set_pte_ok [OF okn t fr vi f])
    qed
  qed
qed

end
