(* ===== verification/VmAlloc.thy ===== *)
theory VmAlloc
  imports PageTable
begin

text \<open>
  The allocator of \<open>project3/my_vm.c\<close>: \<open>get_next_avail\<close> (first fit in the virtual bitmap),
  \<open>n_malloc\<close> and \<open>n_free\<close>. What the client holds is a set \<open>L\<close> of pages; \<open>vm_inv L\<close> is kept by
  every operation, whose effect on \<open>L\<close> is what it gives or takes, and the contents of the other
  pages of \<open>L\<close> never change.
\<close>

section \<open>get_next_avail, n_malloc, n_free\<close>

text \<open>The inner loop: every bit of the run is clear.\<close>

definition run_free :: "u8 list \<Rightarrow> nat \<Rightarrow> int \<Rightarrow> bool" where
  "run_free vb i num_pages =
     (first_clear (\<lambda>j. \<not> BIT_TEST vb (i + j) \<noteq> 0) 0 (nat num_pages) = None)"

definition get_next_avail :: "libc \<Rightarrow> int \<Rightarrow> vm \<Rightarrow> (u64 \<times> vm) option" where
  "get_next_avail c num_pages s = do {
     s \<leftarrow> ensure_vm_init c s;
     s \<leftarrow> lock_vm s;
     ensure (NUM_VIRT_PAGES \<le> capacity (virt_bitmap s));
     (case first_clear (\<lambda>i. \<not> run_free (virt_bitmap s) i num_pages) 0
             (nat (int NUM_VIRT_PAGES - num_pages + 1)) of
        None \<Rightarrow> Some (0, unlock_vm s)
      | Some start \<Rightarrow>
          let s = s\<lparr>virt_bitmap :=
                fold (\<lambda>j b. BIT_SET b (start + j)) [0..<nat num_pages] (virt_bitmap s)\<rparr>;
              va32 = VA_BASE + of_nat start * of_nat PGSIZE
          in Some (U2VA va32, unlock_vm s))
   }"

text \<open>The clean-up loop of \<open>n_malloc\<close> over the first \<open>k\<close> entries of \<open>allocated_frames\<close>.\<close>

primrec free_frames :: "int list \<Rightarrow> nat \<Rightarrow> vm \<Rightarrow> vm option" where
  "free_frames fs 0 s = Some s"
| "free_frames fs (Suc k) s = do {
     s \<leftarrow> free_frames fs k s;
     if 0 \<le> fs ! k then do {
       s \<leftarrow> lock_vm s;
       let s = s\<lparr>phys_bitmap := BIT_CLEAR (phys_bitmap s) (nat (fs ! k))\<rparr>;
       Some (unlock_vm s)
     } else Some s
   }"

function malloc_loop :: "libc \<Rightarrow> u64 \<Rightarrow> nat \<Rightarrow> nat \<Rightarrow> int list \<Rightarrow> vm \<Rightarrow> (u64 \<times> vm) option" where
  "malloc_loop c va_base num_pages i allocated_frames s =
     (if i < num_pages then do {
        s \<leftarrow> lock_vm s;
        (frame, s) \<leftarrow> alloc_phys_frame s;
        let s = unlock_vm s;
        if frame < 0 then do {
          s \<leftarrow> free_frames allocated_frames i s;
          Some (0, s)
        } else do {
          let allocated_frames = allocated_frames[i := frame];
          let page_va32 = VA2U va_base + of_nat i * of_nat PGSIZE;
          let page_va = U2VA page_va32;
          let page_pa = phys_mem s + push_bit PFN_SHIFT (of_int frame);
          (r, s) \<leftarrow> map_page c page_va page_pa s;
          if r \<noteq> 0 then do {
            s \<leftarrow> free_frames allocated_frames (Suc i) s;
            Some (0, s)
          } else malloc_loop c va_base num_pages (Suc i) allocated_frames s
        }
      } else Some (va_base, s))"
  by pat_completeness auto
termination
  by (relation "measure (\<lambda>(c, va_base, num_pages, i, fs, s). num_pages - i)") auto

declare malloc_loop.simps [simp del]

definition pages_for :: "u32 \<Rightarrow> nat" where
  "pages_for num_bytes = unat ((num_bytes + of_nat PGSIZE - 1) div of_nat PGSIZE)"

definition n_malloc :: "libc \<Rightarrow> u32 \<Rightarrow> vm \<Rightarrow> (u64 \<times> vm) option" where
  "n_malloc c num_bytes s = do {
     s \<leftarrow> ensure_vm_init c s;
     if num_bytes = 0 then Some (0, s)
     else do {
       let num_pages = pages_for num_bytes;
       (va_base, s) \<leftarrow> get_next_avail c (int num_pages) s;
       if va_base = 0 then Some (0, s)
       else if \<not> malloc_ok c (4 * num_pages) then Some (0, s)
       else malloc_loop c va_base num_pages 0 (replicate num_pages (-1)) s
     }
   }"

text \<open>The body of the loop of \<open>n_free\<close>.\<close>

definition free_page :: "u32 \<Rightarrow> vm \<Rightarrow> vm option" where
  "free_page curr_va32 s = do {
     let pd_index = PDX curr_va32;
     let pt_index = PTX curr_va32;
     pde \<leftarrow> dir_entry s pd_index;
     if pde AND PTE_PRESENT = 0 then Some s
     else do {
       let pt_frame = drop_bit PFN_SHIFT pde;
       let pt = phys_mem s + push_bit PFN_SHIFT (ucast pt_frame);
       pte \<leftarrow> load32 s (pt + 4 * ucast pt_index);
       if pte AND PTE_PRESENT = 0 then Some s
       else do {
         let frame = drop_bit PFN_SHIFT pte;
         s \<leftarrow> lock_vm s;
         ensure (unat frame < capacity (phys_bitmap s));
         let s = unlock_vm (s\<lparr>phys_bitmap := BIT_CLEAR (phys_bitmap s) (unat frame)\<rparr>);
         let virt_index = int (unat ((curr_va32 - VA_BASE) div of_nat PGSIZE));
         s \<leftarrow> (if 0 \<le> virt_index then do {
                 s \<leftarrow> lock_vm s;
                 ensure (nat virt_index < capacity (virt_bitmap s));
                 Some (unlock_vm (s\<lparr>virt_bitmap := BIT_CLEAR (virt_bitmap s) (nat virt_index)\<rparr>))
               } else Some s);
         s \<leftarrow> store32 (pt + 4 * ucast pt_index) 0 s;
         s \<leftarrow> lock_tlb s;
         let page = drop_bit PFN_SHIFT curr_va32;
         let s = s\<lparr>tlbGlobal := map (\<lambda>e. if valid e \<and> vpn e = page then e\<lparr>valid := False\<rparr> else e)
                               (tlbGlobal s)\<rparr>;
         Some (unlock_tlb s)
       }
     }
   }"

primrec free_loop :: "u32 \<Rightarrow> nat \<Rightarrow> vm \<Rightarrow> vm option" where
  "free_loop base_va32 0 s = Some s"
| "free_loop base_va32 (Suc i) s = do {
     s \<leftarrow> free_loop base_va32 i s;
     free_page (base_va32 + of_nat i * of_nat PGSIZE) s
   }"

definition n_free :: "libc \<Rightarrow> u64 \<Rightarrow> int \<Rightarrow> vm \<Rightarrow> vm option" where
  "n_free c va nbytes s =
     (if va = 0 \<or> nbytes \<le> 0 then Some s
      else do {
        s \<leftarrow> ensure_vm_init c s;
        let num_pages = pages_for (of_int nbytes);
        let base_va32 = VA2U va;
        free_loop base_va32 num_pages s
      })"

section \<open>The page numbers of a run\<close>

lemma VA_BASE_page: "unat VA_BASE div 4096 = 262144"
  by (simp add: VA_BASE_def)

lemma virt_page_split:
  "i < NUM_VIRT_PAGES \<Longrightarrow> virt_page i = (if i < 786432 then 262144 + i else i - 786432)"
proof -
  assume "i < NUM_VIRT_PAGES"
  then have "(262144 + i) mod 1048576 = (if i < 786432 then 262144 + i else i - 786432)"
    by (simp add: vm_consts mod_if)
  then show ?thesis unfolding virt_page_def VA_BASE_page by (simp add: vm_consts)
qed

lemma virt_page_inj: "i < NUM_VIRT_PAGES \<Longrightarrow> j < NUM_VIRT_PAGES \<Longrightarrow> virt_page i = virt_page j \<Longrightarrow> i = j"
  by (simp add: virt_page_split vm_consts split: if_splits)

lemma virt_page_surj: "n < NUM_VIRT_PAGES \<Longrightarrow> \<exists>i<NUM_VIRT_PAGES. virt_page i = n"
proof -
  assume n: "n < NUM_VIRT_PAGES"
  let ?i = "if 262144 \<le> n then n - 262144 else n + 786432"
  have i: "?i < NUM_VIRT_PAGES" using n by (auto simp: vm_consts)
  have "virt_page ?i = n" unfolding virt_page_split [OF i] using n by (auto simp: vm_consts)
  with i show ?thesis by blast
qed

definition run_va :: "nat \<Rightarrow> u32" where
  "run_va i = VA_BASE + of_nat i * of_nat PGSIZE"

lemma run_va_unat: "unat (run_va i) = (unat VA_BASE + 4096 * i) mod 2 ^ 32"
proof -
  have "run_va i = of_nat (unat VA_BASE + 4096 * i)"
    by (simp add: run_va_def PGSIZE_def mult.commute)
  then show ?thesis by (simp only: unat_of_nat) simp
qed

lemma run_va_aligned: "unat (run_va i) mod 4096 = 0"
proof -
  have "(4096 :: nat) dvd 2 ^ 32" by simp
  then have "unat (run_va i) mod 4096 = (unat VA_BASE + 4096 * i) mod 4096"
    unfolding run_va_unat by (rule mod_mod_cancel)
  then show ?thesis by (simp add: VA_BASE_def)
qed

lemma page_of_run_va: "page_of (run_va i) = virt_page i"
proof -
  have e: "unat VA_BASE + 4096 * i = 4096 * (262144 + i)" by (simp add: VA_BASE_def)
  have "(2 :: nat) ^ 32 = 4096 * 2 ^ 20" by simp
  then have "(4096 * (262144 + i)) mod 2 ^ 32 = 4096 * ((262144 + i) mod 2 ^ 20)"
    by (simp only: mult_mod_right)
  then show ?thesis
    unfolding page_of_def run_va_unat e virt_page_def VA_BASE_page by (simp add: vm_consts)
qed

lemma run_va_add: "run_va start + of_nat j * of_nat PGSIZE = run_va (start + j)"
  by (simp add: run_va_def algebra_simps)

section \<open>get_next_avail is first fit\<close>

lemma run_free_bits: "run_free vb i n \<longleftrightarrow> (\<forall>j<nat n. \<not> bit_at vb (i + j))"
  by (simp add: run_free_def first_clear_None BIT_TEST_bit)

definition mark_run :: "u8 list \<Rightarrow> nat \<Rightarrow> nat \<Rightarrow> u8 list" where
  "mark_run vb start n = fold (\<lambda>j b. BIT_SET b (start + j)) [0..<n] vb"

lemma mark_run_map: "mark_run vb start n = fold (\<lambda>i b. BIT_SET b i) (map ((+) start) [0..<n]) vb"
  by (simp add: mark_run_def fold_map comp_def)

lemma mark_run_bits:
  assumes "start + n \<le> capacity vb" "i < capacity vb"
  shows "bit_at (mark_run vb start n) i \<longleftrightarrow> start \<le> i \<and> i < start + n \<or> bit_at vb i"
proof -
  have "BIT_TEST (fold (\<lambda>i b. BIT_SET b i) (map ((+) start) [0..<n]) vb) i \<noteq> 0 \<longleftrightarrow>
      i \<in> set (map ((+) start) [0..<n]) \<or> BIT_TEST vb i \<noteq> 0"
    using assms by (intro vm_bits.fold_put) auto
  moreover have "i \<in> set (map ((+) start) [0..<n]) \<longleftrightarrow> start \<le> i \<and> i < start + n"
  proof
    assume "start \<le> i \<and> i < start + n"
    then have "i = start + (i - start) \<and> i - start \<in> {0..<n}" by auto
    then show "i \<in> set (map ((+) start) [0..<n])" by (metis image_eqI set_map set_upt)
  qed auto
  ultimately show ?thesis by (simp add: mark_run_map BIT_TEST_bit)
qed

lemma mark_run_length [simp]: "length (mark_run vb start n) = length vb"
proof -
  have "length (fold (\<lambda>i b. BIT_SET b i) is vb) = length vb" for "is" :: "nat list"
    by (induction "is" arbitrary: vb) auto
  then show ?thesis by (simp only: mark_run_map)
qed

lemma vm_ok_virt_bits:
  assumes ok: "vm_ok s" and len: "length vb = length (virt_bitmap s)"
    and virt: "\<And>i. i < NUM_VIRT_PAGES \<Longrightarrow> \<not> bit_at vb i \<Longrightarrow> page_frame s (virt_page i) = None"
  shows "vm_ok (s\<lparr>virt_bitmap := vb\<rparr>)"
proof -
  have v: "table_frame (s\<lparr>virt_bitmap := vb\<rparr>) = table_frame s"
    "page_frame (s\<lparr>virt_bitmap := vb\<rparr>) = page_frame s"
    by (intro ext table_frame_cong page_frame_cong; simp)+
  have "vm_shape (s\<lparr>virt_bitmap := vb\<rparr>)" using ok len by (simp add: vm_ok_def vm_shape_def)
  moreover have "tables_ok (s\<lparr>virt_bitmap := vb\<rparr>)"
    using ok unfolding vm_ok_def tables_ok_def v by simp
  moreover have "pages_ok (s\<lparr>virt_bitmap := vb\<rparr>)" using ok unfolding vm_ok_def pages_ok_def v by simp
  moreover have "virt_ok (s\<lparr>virt_bitmap := vb\<rparr>)" using virt unfolding virt_ok_def v by simp
  moreover have "tlb_ok (s\<lparr>virt_bitmap := vb\<rparr>)" using ok unfolding vm_ok_def tlb_ok_def v by simp
  ultimately show ?thesis by (simp add: vm_ok_def)
qed

lemma get_next_avail_unlocked:
  assumes ok: "vm_initialized s" "\<not> vm_lock s" "capacity (virt_bitmap s) = NUM_VIRT_PAGES" and n: "n \<le> NUM_VIRT_PAGES"
  obtains (full) "get_next_avail c (int n) s = Some (0, s)"
      "\<And>i. i + n \<le> NUM_VIRT_PAGES \<Longrightarrow> \<exists>j<n. bit_at (virt_bitmap s) (i + j)"
  | (run) start where
      "get_next_avail c (int n) s = Some (U2VA (run_va start), s\<lparr>virt_bitmap := mark_run (virt_bitmap s) start n\<rparr>)"
      "start + n \<le> NUM_VIRT_PAGES" "\<And>j. j < n \<Longrightarrow> \<not> bit_at (virt_bitmap s) (start + j)"
      "\<And>i. i < start \<Longrightarrow> \<exists>j<n. bit_at (virt_bitmap s) (i + j)"
proof -
  let ?p = "\<lambda>i. \<not> run_free (virt_bitmap s) i (int n)"
  have lim: "nat (int NUM_VIRT_PAGES - int n + 1) = NUM_VIRT_PAGES - n + 1" using n by simp
  have same: "s\<lparr>vm_lock := False\<rparr> = s" by (rule vm_lock_same [OF ok(2)])
  show ?thesis
  proof (cases "first_clear ?p 0 (NUM_VIRT_PAGES - n + 1)")
    case None
    then have "get_next_avail c (int n) s = Some (0, s)"
      using ok lim same
      by (simp add: get_next_avail_def lock_vm_def unlock_vm_def)
    moreover have "\<exists>j<n. bit_at (virt_bitmap s) (i + j)" if "i + n \<le> NUM_VIRT_PAGES" for i
      using None that by (simp add: first_clear_None run_free_bits)
    ultimately show ?thesis by (rule full)
  next
    case (Some start)
    let ?vb = "mark_run (virt_bitmap s) start n"
    have "s\<lparr>vm_lock := False, virt_bitmap := ?vb\<rparr> = (s\<lparr>vm_lock := False\<rparr>)\<lparr>virt_bitmap := ?vb\<rparr>" by simp
    then have "get_next_avail c (int n) s = Some (U2VA (run_va start), s\<lparr>virt_bitmap := ?vb\<rparr>)"
      using Some ok lim same
      by (simp add: get_next_avail_def lock_vm_def unlock_vm_def mark_run_def run_va_def)
    moreover have "start + n \<le> NUM_VIRT_PAGES" using Some n by (auto simp: first_clear_Some)
    moreover have "\<not> bit_at (virt_bitmap s) (start + j)" if "j < n" for j
      using Some that by (simp add: first_clear_Some run_free_bits)
    moreover have "\<exists>j<n. bit_at (virt_bitmap s) (i + j)" if "i < start" for i
      using Some that by (simp add: first_clear_Some run_free_bits)
    ultimately show ?thesis by (rule run)
  qed
qed

lemma get_next_avail_cases:
  assumes ok: "vm_ok s" and n: "n \<le> NUM_VIRT_PAGES"
  obtains (full) "get_next_avail c (int n) s = Some (0, s)"
      "\<And>i. i + n \<le> NUM_VIRT_PAGES \<Longrightarrow> \<exists>j<n. bit_at (virt_bitmap s) (i + j)"
  | (run) start where
      "get_next_avail c (int n) s = Some (U2VA (run_va start), s\<lparr>virt_bitmap := mark_run (virt_bitmap s) start n\<rparr>)"
      "start + n \<le> NUM_VIRT_PAGES" "\<And>j. j < n \<Longrightarrow> \<not> bit_at (virt_bitmap s) (start + j)"
      "\<And>i. i < start \<Longrightarrow> \<exists>j<n. bit_at (virt_bitmap s) (i + j)"
  by (rule get_next_avail_unlocked [OF vm_ok_fields(1,2) [OF ok] virt_capacity [OF ok] n, of c]) (blast intro: that)+

section \<open>What the client's pages hold\<close>

text \<open>
  The abstract memory: the byte at virtual address \<open>a\<close>, if its page is mapped. \<open>keeps L s s'\<close>:
  the pages of \<open>L\<close> stay where they are and hold what they held.
\<close>

definition amem :: "vm \<Rightarrow> nat \<Rightarrow> u8 option" where
  "amem s a =
     (case page_frame s (a div 4096) of
        None \<Rightarrow> None
      | Some f \<Rightarrow> Some (mem s (4096 * f + a mod 4096)))"

definition keeps :: "nat set \<Rightarrow> vm \<Rightarrow> vm \<Rightarrow> bool" where
  "keeps L s s' \<longleftrightarrow> (\<forall>n\<in>L. page_frame s' n = page_frame s n) \<and>
     (\<forall>a. a div 4096 \<in> L \<longrightarrow> amem s' a = amem s a)"

lemma keeps_refl [simp]: "keeps L s s"
  by (simp add: keeps_def)

lemma keeps_trans: "keeps L s t \<Longrightarrow> keeps L t u \<Longrightarrow> keeps L s u"
  by (simp add: keeps_def)

lemma keeps_subset: "keeps M s t \<Longrightarrow> L \<subseteq> M \<Longrightarrow> keeps L s t"
  by (auto simp: keeps_def)

lemma amem_cong: "pgdir s' = pgdir s \<Longrightarrow> mem s' = mem s \<Longrightarrow> amem s' = amem s"
  by (rule ext) (simp add: amem_def page_frame_cong [of s' s] split: option.split)

lemma keeps_cong:
  assumes "pgdir s' = pgdir s" "mem s' = mem s"
  shows "keeps L s s'"
  unfolding keeps_def by (simp add: amem_cong [OF assms] page_frame_cong [OF assms])

lemma live_frame:
  assumes "vm_inv L s" "n \<in> L"
  obtains f where "page_frame s n = Some f" "f < NUM_PHYS_PAGES" "bit_at (phys_bitmap s) f"
    "\<forall>d. table_frame s d \<noteq> Some f"
proof -
  obtain f where "page_frame s n = Some f" "bit_at (phys_bitmap s) f" "\<forall>d. table_frame s d \<noteq> Some f"
    using assms unfolding vm_inv_def live_ok_def by blast
  moreover have "f < NUM_PHYS_PAGES" using assms calculation(1) pages_in_memory by (auto simp: vm_inv_def)
  ultimately show ?thesis by (intro that) auto
qed

lemma live_distinct: "vm_inv L s \<Longrightarrow> n \<in> L \<Longrightarrow> m \<in> L \<Longrightarrow> page_frame s n = page_frame s m \<Longrightarrow> n = m"
  unfolding vm_inv_def live_ok_def by blast

lemma vm_inv_ok: "vm_inv L s \<Longrightarrow> vm_ok s"
  by (simp add: vm_inv_def)

lemma vm_inv_subset: "vm_inv M s \<Longrightarrow> L \<subseteq> M \<Longrightarrow> vm_inv L s"
  unfolding vm_inv_def live_ok_def by blast

lemma phys_bits_views:
  "table_frame (s\<lparr>phys_bitmap := pb\<rparr>) = table_frame s" "page_frame (s\<lparr>phys_bitmap := pb\<rparr>) = page_frame s"
  by (intro ext table_frame_cong page_frame_cong; simp)+

lemma vm_ok_phys_bits:
  assumes ok: "vm_ok s" and len: "length pb = length (phys_bitmap s)"
    and tab: "\<And>d f. table_frame s d = Some f \<Longrightarrow> bit_at pb f"
  shows "vm_ok (s\<lparr>phys_bitmap := pb\<rparr>)"
proof -
  note v = phys_bits_views [of pb s]
  have "vm_shape (s\<lparr>phys_bitmap := pb\<rparr>)" using ok len by (simp add: vm_ok_def vm_shape_def)
  moreover have "tables_ok (s\<lparr>phys_bitmap := pb\<rparr>)"
    using ok tab unfolding vm_ok_def tables_ok_def v by simp
  moreover have "pages_ok (s\<lparr>phys_bitmap := pb\<rparr>)" using ok unfolding vm_ok_def pages_ok_def v by simp
  moreover have "virt_ok (s\<lparr>phys_bitmap := pb\<rparr>)" using ok unfolding vm_ok_def virt_ok_def v by simp
  moreover have "tlb_ok (s\<lparr>phys_bitmap := pb\<rparr>)" using ok unfolding vm_ok_def tlb_ok_def v by simp
  ultimately show ?thesis by (simp add: vm_ok_def)
qed

lemma maps_to_live:
  assumes inv: "vm_inv M s" and f: "f < NUM_PHYS_PAGES" "\<not> bit_at (phys_bitmap s) f"
    and free: "page_frame s n = None"
    and m: "maps_to (s\<lparr>phys_bitmap := BIT_SET (phys_bitmap s) f\<rparr>) n f s'" and ok': "vm_ok s'"
  shows "vm_inv (insert n M) s'" and "keeps M s s'"
proof -
  have ok: "vm_ok s" by (rule vm_inv_ok [OF inv])
  let ?b = "\<lambda>g. g = f \<or> bit_at (phys_bitmap s) g"
  have bit: "bit_at (BIT_SET (phys_bitmap s) f) g \<longleftrightarrow> ?b g" if "g < NUM_PHYS_PAGES" for g
    using that f phys_capacity [OF ok] by (simp add: bit_at_set)
  have nM: "n \<notin> M" using live_frame [OF inv] free by force
  have pf: "page_frame s' = (page_frame s)(n := Some f)"
    and used: "\<And>g. g < NUM_PHYS_PAGES \<Longrightarrow> ?b g \<Longrightarrow> bit_at (phys_bitmap s') g"
    and tabs: "\<And>d g. table_frame s' d = Some g \<Longrightarrow>
        table_frame s d = Some g \<or> g < NUM_PHYS_PAGES \<and> \<not> bit_at (BIT_SET (phys_bitmap s) f) g"
    and bytes: "\<And>g i. g < NUM_PHYS_PAGES \<Longrightarrow> bit_at (phys_bitmap s) g \<Longrightarrow>
        (\<And>d. table_frame s d \<noteq> Some g) \<Longrightarrow> i < 4096 \<Longrightarrow> mem s' (4096 * g + i) = mem s (4096 * g + i)"
    using m bit unfolding maps_to_def phys_bits_views by auto
  have old: "\<exists>g. page_frame s m = Some g \<and> page_frame s' m = Some g \<and> g < NUM_PHYS_PAGES \<and> g \<noteq> f \<and>
      bit_at (phys_bitmap s) g \<and> (\<forall>d. table_frame s d \<noteq> Some g)" if mM: "m \<in> M" for m
  proof -
    obtain g where "page_frame s m = Some g" "g < NUM_PHYS_PAGES" "bit_at (phys_bitmap s) g"
      "\<forall>d. table_frame s d \<noteq> Some g" by (rule live_frame [OF inv mM])
    then show ?thesis using f nM pf that by auto
  qed
  have new: "\<forall>d. table_frame s' d \<noteq> Some f" using tabs f tables_used [OF ok] bit by blast
  have oldtab: "\<forall>d. table_frame s' d \<noteq> Some g"
    if "bit_at (phys_bitmap s) g" "\<forall>d. table_frame s d \<noteq> Some g" for g
    using tabs bit that by blast
  have "live_ok (insert n M) s'"
    unfolding live_ok_def
  proof (intro conjI ballI impI)
    fix m assume "m \<in> insert n M"
    then show "\<exists>g. page_frame s' m = Some g \<and> bit_at (phys_bitmap s') g \<and> (\<forall>d. table_frame s' d \<noteq> Some g)"
      using old used new f pf oldtab by (metis fun_upd_same insertE)
  next
    fix a b assume "a \<in> insert n M" "b \<in> insert n M" "page_frame s' a = page_frame s' b"
    then show "a = b"
      using old nM pf live_distinct [OF inv] by (metis fun_upd_apply insertE option.inject)
  qed
  then show "vm_inv (insert n M) s'" using ok' by (simp add: vm_inv_def)
  show "keeps M s s'"
    unfolding keeps_def
  proof (intro conjI ballI allI impI)
    fix m assume "m \<in> M"
    then show "page_frame s' m = page_frame s m" using old by fastforce
  next
    fix a assume "a div 4096 \<in> M"
    then obtain g where "page_frame s (a div 4096) = Some g" "page_frame s' (a div 4096) = Some g"
      "g < NUM_PHYS_PAGES" "bit_at (phys_bitmap s) g" "\<forall>d. table_frame s d \<noteq> Some g"
      using old by blast
    then show "amem s' a = amem s a" using bytes by (simp add: amem_def)
  qed
qed

lemma free_frames_run:
  assumes "\<not> vm_lock s" "capacity (phys_bitmap s) = NUM_PHYS_PAGES"
    and "\<And>k. k < m \<Longrightarrow> fs ! k < int NUM_PHYS_PAGES"
  shows "\<exists>pb. free_frames fs m s = Some (s\<lparr>phys_bitmap := pb\<rparr>) \<and> length pb = length (phys_bitmap s) \<and>
    (\<forall>g<NUM_PHYS_PAGES. bit_at pb g \<longleftrightarrow> bit_at (phys_bitmap s) g \<and> (\<forall>k<m. fs ! k \<noteq> int g))"
  using assms(3)
proof (induction m)
  case 0
  have "free_frames fs 0 s = Some (s\<lparr>phys_bitmap := phys_bitmap s\<rparr>)" by simp
  then show ?case by blast
next
  case (Suc m)
  then obtain pb where pb: "free_frames fs m s = Some (s\<lparr>phys_bitmap := pb\<rparr>)"
    "length pb = length (phys_bitmap s)"
    "\<And>g. g < NUM_PHYS_PAGES \<Longrightarrow> bit_at pb g \<longleftrightarrow> bit_at (phys_bitmap s) g \<and> (\<forall>k<m. fs ! k \<noteq> int g)"
    by auto
  show ?case
  proof (cases "0 \<le> fs ! m")
    case True
    let ?c = "BIT_CLEAR pb (nat (fs ! m))"
    have same: "s\<lparr>vm_lock := False, phys_bitmap := ?c\<rparr> = s\<lparr>phys_bitmap := ?c\<rparr>"
      using vm_lock_same [OF assms(1)] by (metis vm.surjective vm.update_convs(3))
    have "free_frames fs (Suc m) s = Some (s\<lparr>phys_bitmap := ?c\<rparr>)"
      using True pb(1) assms(1) by (simp add: lock_vm_def unlock_vm_def same)
    moreover have "bit_at ?c g \<longleftrightarrow> bit_at (phys_bitmap s) g \<and> (\<forall>k<Suc m. fs ! k \<noteq> int g)"
      if "g < NUM_PHYS_PAGES" for g
    proof -
      have "nat (fs ! m) < capacity pb" "g < capacity pb"
        using Suc.prems [of m] True that pb(2) assms(2) by auto
      then have "bit_at ?c g \<longleftrightarrow> g \<noteq> nat (fs ! m) \<and> bit_at pb g" by (rule bit_at_clear)
      moreover have "g \<noteq> nat (fs ! m) \<longleftrightarrow> fs ! m \<noteq> int g" using True by auto
      ultimately show ?thesis using pb(3) [OF that] by (auto simp: less_Suc_eq)
    qed
    ultimately show ?thesis using pb(2) by auto
  next
    case False
    then have "free_frames fs (Suc m) s = Some (s\<lparr>phys_bitmap := pb\<rparr>)" using pb(1) by simp
    moreover have "(\<forall>k<Suc m. fs ! k \<noteq> int g) \<longleftrightarrow> (\<forall>k<m. fs ! k \<noteq> int g)" for g
      using False by (auto simp: less_Suc_eq)
    ultimately show ?thesis using pb(2,3) by auto
  qed
qed

section \<open>n_malloc\<close>

lemma vm_inv_phys_bits:
  assumes inv: "vm_inv L s" and len: "length pb = length (phys_bitmap s)"
    and keep: "\<And>g. (\<exists>d. table_frame s d = Some g) \<or> (\<exists>n\<in>L. page_frame s n = Some g) \<Longrightarrow> bit_at pb g"
  shows "vm_inv L (s\<lparr>phys_bitmap := pb\<rparr>)"
proof -
  have "vm_ok (s\<lparr>phys_bitmap := pb\<rparr>)"
    by (rule vm_ok_phys_bits [OF vm_inv_ok [OF inv] len]) (use keep in blast)
  moreover have "live_ok L (s\<lparr>phys_bitmap := pb\<rparr>)"
    using inv keep unfolding vm_inv_def live_ok_def phys_bits_views by auto blast
  ultimately show ?thesis by (simp add: vm_inv_def)
qed

lemma map_page_null: "map_page c (U2VA 0) pa s = Some (-1, s)"
  by (simp add: map_page_def)

definition run_pages :: "nat \<Rightarrow> nat \<Rightarrow> nat set" where
  "run_pages start n = virt_page ` {start..<start + n}"

lemma run_pages_Suc: "run_pages start (Suc n) = insert (virt_page (start + n)) (run_pages start n)"
  by (simp add: run_pages_def atLeastLessThanSuc)

lemma run_pages_0 [simp]: "run_pages start 0 = {}"
  by (simp add: run_pages_def)

lemma run_pages_mem: "j < n \<Longrightarrow> virt_page (start + j) \<in> run_pages start n"
  by (simp add: run_pages_def)

text \<open>What the loop of \<open>n_malloc\<close> relies on at the start of round \<open>i\<close>.\<close>

definition loop_inv :: "nat set \<Rightarrow> nat \<Rightarrow> nat \<Rightarrow> nat \<Rightarrow> int list \<Rightarrow> vm \<Rightarrow> bool" where
  "loop_inv L start n i fs s \<longleftrightarrow>
     vm_inv (L \<union> run_pages start i) s \<and> i \<le> n \<and> start + n \<le> NUM_VIRT_PAGES \<and> length fs = n \<and>
     L \<inter> run_pages start n = {} \<and>
     (\<forall>j<n. bit_at (virt_bitmap s) (start + j)) \<and>
     (\<forall>j<n. i \<le> j \<longrightarrow> page_frame s (virt_page (start + j)) = None) \<and>
     (\<forall>k<i. \<exists>f. fs ! k = int f \<and> page_frame s (virt_page (start + k)) = Some f)"

text \<open>Giving up: the frames taken so far are released.\<close>

lemma loop_fail:
  assumes inv: "loop_inv L start n i fs s" and m: "m = i \<or> m = Suc i \<and> i < n"
    and s1: "s1 = s \<or> f < NUM_PHYS_PAGES \<and> \<not> bit_at (phys_bitmap s) f \<and>
      s1 = s\<lparr>phys_bitmap := BIT_SET (phys_bitmap s) f\<rparr>"
    and fs1: "m = i \<and> fs1 = fs \<or> f < NUM_PHYS_PAGES \<and> \<not> bit_at (phys_bitmap s) f \<and> fs1 = fs[i := int f]"
  shows "\<exists>s'. free_frames fs1 m s1 = Some s' \<and> vm_inv L s' \<and> keeps L s s' \<and> virt_bitmap s' = virt_bitmap s"
proof -
  have invM: "vm_inv (L \<union> run_pages start i) s" and i: "i \<le> n" and len: "length fs = n"
    and dis: "L \<inter> run_pages start n = {}"
    and fs: "\<And>k. k < i \<Longrightarrow> \<exists>f. fs ! k = int f \<and> page_frame s (virt_page (start + k)) = Some f"
    using inv by (auto simp: loop_inv_def)
  have ok: "vm_ok s" by (rule vm_inv_ok [OF invM])
  have cap: "capacity (phys_bitmap s1) = NUM_PHYS_PAGES" using s1 phys_capacity [OF ok] by auto
  have lock: "\<not> vm_lock s1" using s1 vm_ok_fields(2) [OF ok] by auto
  have kind: "(\<exists>g. fs1 ! k = int g \<and> page_frame s (virt_page (start + k)) = Some g \<and> k < i) \<or>
      (fs1 ! k = int f \<and> f < NUM_PHYS_PAGES \<and> \<not> bit_at (phys_bitmap s) f)" if "k < m" for k
    using fs1 fs [of k] that m len i by (auto simp: nth_list_update less_Suc_eq)
  have "fs1 ! k < int NUM_PHYS_PAGES" if "k < m" for k
    using kind [OF that] pages_in_memory [OF ok] by auto
  then obtain pb where pb: "free_frames fs1 m s1 = Some (s1\<lparr>phys_bitmap := pb\<rparr>)"
    "length pb = length (phys_bitmap s1)"
    "\<And>g. g < NUM_PHYS_PAGES \<Longrightarrow> bit_at pb g \<longleftrightarrow> bit_at (phys_bitmap s1) g \<and> (\<forall>k<m. fs1 ! k \<noteq> int g)"
    using free_frames_run [OF lock cap, of m fs1] by blast
  have e: "s1\<lparr>phys_bitmap := pb\<rparr> = s\<lparr>phys_bitmap := pb\<rparr>" using s1 by auto
  have stay: "bit_at pb g" if used: "g < NUM_PHYS_PAGES" "bit_at (phys_bitmap s) g"
    and other: "\<And>k. k < i \<Longrightarrow> page_frame s (virt_page (start + k)) \<noteq> Some g" for g
  proof -
    have "bit_at (phys_bitmap s1) g"
      using s1 used phys_capacity [OF ok] by (auto simp: bit_at_set)
    moreover have "fs1 ! k \<noteq> int g" if "k < m" for k using kind [OF that] used other by auto
    ultimately show ?thesis using pb(3) [OF used(1)] by simp
  qed
  have "vm_inv L (s\<lparr>phys_bitmap := pb\<rparr>)"
  proof (rule vm_inv_phys_bits)
    show "vm_inv L s" by (rule vm_inv_subset [OF invM]) simp
    show "length pb = length (phys_bitmap s)" using pb(2) s1 by auto
    fix g assume g: "(\<exists>d. table_frame s d = Some g) \<or> (\<exists>n\<in>L. page_frame s n = Some g)"
    have run: "virt_page (start + k) \<in> L \<union> run_pages start i" if "k < i" for k
      using run_pages_mem [OF that] by blast
    from g show "bit_at pb g"
    proof
      assume "\<exists>d. table_frame s d = Some g"
      then obtain d where d: "table_frame s d = Some g" by blast
      have "page_frame s (virt_page (start + k)) \<noteq> Some g" if "k < i" for k
        using live_frame [OF invM run [OF that]] d by (metis option.inject)
      then show ?thesis using tables_used [OF ok d] by (intro stay) auto
    next
      assume "\<exists>n\<in>L. page_frame s n = Some g"
      then obtain a where a: "a \<in> L" "page_frame s a = Some g" by blast
      then have aM: "a \<in> L \<union> run_pages start i" by simp
      obtain h where "page_frame s a = Some h" "h < NUM_PHYS_PAGES" "bit_at (phys_bitmap s) h"
        "\<forall>d. table_frame s d \<noteq> Some h" by (rule live_frame [OF invM aM])
      moreover have "page_frame s (virt_page (start + k)) \<noteq> Some g" if "k < i" for k
      proof
        assume "page_frame s (virt_page (start + k)) = Some g"
        then have "virt_page (start + k) = a" using live_distinct [OF invM run [OF that] aM] a by simp
        moreover have "k < n" using that i by simp
        ultimately show False using a(1) dis run_pages_mem [of k n start] by auto
      qed
      ultimately show ?thesis using a by (intro stay) auto
    qed
  qed
  moreover have "keeps L s (s\<lparr>phys_bitmap := pb\<rparr>)" by (rule keeps_cong) simp_all
  ultimately show ?thesis using pb(1) e by auto
qed

lemma alloc_under_lock:
  assumes "\<not> vm_lock s" "alloc_phys_frame s = Some (r, s\<lparr>phys_bitmap := pb\<rparr>)"
  shows "alloc_phys_frame (s\<lparr>vm_lock := True\<rparr>) = Some (r, s\<lparr>vm_lock := True, phys_bitmap := pb\<rparr>)"
    and "unlock_vm (s\<lparr>vm_lock := True, phys_bitmap := pb\<rparr>) = s\<lparr>phys_bitmap := pb\<rparr>"
proof -
  show "alloc_phys_frame (s\<lparr>vm_lock := True\<rparr>) = Some (r, s\<lparr>vm_lock := True, phys_bitmap := pb\<rparr>)"
    using assms(2) by (cases s) (auto simp: alloc_phys_frame_def split: option.splits if_splits)
  show "unlock_vm (s\<lparr>vm_lock := True, phys_bitmap := pb\<rparr>) = s\<lparr>phys_bitmap := pb\<rparr>"
    using assms(1) by (cases s) (simp add: unlock_vm_def)
qed

lemma phys_bitmap_same [simp]: "s\<lparr>phys_bitmap := phys_bitmap s\<rparr> = s"
  by (cases s) simp

text \<open>How many frames are free; a page takes at most two of them.\<close>

definition free_count :: "vm \<Rightarrow> nat" where
  "free_count s = card {g. g < NUM_PHYS_PAGES \<and> \<not> bit_at (phys_bitmap s) g}"

lemma free_count_step:
  assumes "\<And>g. g < NUM_PHYS_PAGES \<Longrightarrow> bit_at (phys_bitmap s') g \<Longrightarrow> bit_at (phys_bitmap s) g \<or> g = f \<or> g = x"
  shows "free_count s \<le> free_count s' + 2"
proof -
  let ?F = "\<lambda>s. {g. g < NUM_PHYS_PAGES \<and> \<not> bit_at (phys_bitmap s) g}"
  have "card (?F s) \<le> card (?F s' \<union> {f, x})" using assms by (intro card_mono) auto
  also have "\<dots> \<le> card (?F s') + card {f, x}" by (rule card_Un_le)
  also have "card {f, x} \<le> 2" by (simp add: card_insert_if)
  finally show ?thesis by (simp add: free_count_def)
qed

lemma malloc_loop_ok:
  assumes "loop_inv L start n i fs s"
  shows "\<exists>r s'. malloc_loop c (U2VA (run_va start)) n i fs s = Some (r, s') \<and> keeps L s s' \<and>
    virt_bitmap s' = virt_bitmap s \<and>
    (r = U2VA (run_va start) \<and> vm_inv (L \<union> run_pages start n) s' \<and>
       (\<forall>j<n. i \<le> j \<longrightarrow> run_va (start + j) \<noteq> 0) \<or>
     r = 0 \<and> vm_inv L s' \<and> ((\<exists>j<n. run_va (start + j) = 0) \<or> free_count s < 2 * (n - i)))"
  using assms
proof (induction "n - i" arbitrary: i fs s)
  case 0
  then have "i = n" by (simp add: loop_inv_def)
  then show ?case using 0 by (auto simp: malloc_loop.simps loop_inv_def)
next
  case (Suc d)
  let ?va = "U2VA (run_va start)"
  let ?v = "run_va (start + i)"
  have i: "i < n" using Suc.hyps(2) by simp
  have invM: "vm_inv (L \<union> run_pages start i) s" and bound: "start + n \<le> NUM_VIRT_PAGES"
    and len: "length fs = n" and dis: "L \<inter> run_pages start n = {}"
    and bits: "\<And>j. j < n \<Longrightarrow> bit_at (virt_bitmap s) (start + j)"
    and none: "\<And>j. j < n \<Longrightarrow> i \<le> j \<Longrightarrow> page_frame s (virt_page (start + j)) = None"
    and got: "\<And>k. k < i \<Longrightarrow> \<exists>f. fs ! k = int f \<and> page_frame s (virt_page (start + k)) = Some f"
    using Suc.prems by (auto simp: loop_inv_def)
  have ok: "vm_ok s" by (rule vm_inv_ok [OF invM])
  note lock = vm_ok_fields(2) [OF ok]
  have cap: "NUM_PHYS_PAGES \<le> capacity (phys_bitmap s)" using phys_capacity [OF ok] by simp
  have va: "VA2U ?va + of_nat i * of_nat PGSIZE = ?v" by (simp add: run_va_add)
  show ?case
  proof (cases rule: alloc_phys_frame_cases [OF cap])
    case 1
    have "alloc_phys_frame s = Some (-1, s\<lparr>phys_bitmap := phys_bitmap s\<rparr>)" using 1 by simp
    note run = alloc_under_lock [OF lock this]
    obtain s' where "free_frames fs i s = Some s'" "vm_inv L s'" "keeps L s s'" "virt_bitmap s' = virt_bitmap s"
      using loop_fail [OF Suc.prems, of i s 0 fs] by blast
    moreover have "{g. g < NUM_PHYS_PAGES \<and> \<not> bit_at (phys_bitmap s) g} = {}" using 1(2) by blast
    then have "free_count s = 0" by (simp add: free_count_def)
    ultimately show ?thesis
      using i lock run by (simp add: malloc_loop.simps [of c ?va n i] lock_vm_def)
  next
    case (2 f)
    let ?pb = "BIT_SET (phys_bitmap s) f"
    let ?s = "s\<lparr>phys_bitmap := ?pb\<rparr>"
    note run = alloc_under_lock [OF lock 2(1)]
    have oks: "vm_ok ?s"
      using tables_used [OF ok] 2(2) phys_capacity [OF ok]
      by (intro vm_ok_phys_bits [OF ok]) (auto simp: bit_at_set)
    have ptr: "phys_mem s + push_bit PFN_SHIFT (of_nat f) = frame_ptr ?s f"
      using frame_ptr_off(3) [OF oks 2(2)] by simp
    have free: "page_frame ?s (page_of ?v) = None"
      using none [OF i] by (simp add: phys_bits_views page_of_run_va)
    have virt: "\<forall>j<NUM_VIRT_PAGES. virt_page j = page_of ?v \<longrightarrow> bit_at (virt_bitmap ?s) j"
    proof (intro allI impI)
      fix j assume "j < NUM_VIRT_PAGES" "virt_page j = page_of ?v"
      then have "j = start + i" using virt_page_inj [of j "start + i"] i bound by (simp add: page_of_run_va)
      then show "bit_at (virt_bitmap ?s) j" using bits [OF i] by simp
    qed
    let ?fail = "\<exists>s'. free_frames (fs[i := int f]) (Suc i) ?s = Some s' \<and> vm_inv L s' \<and> keeps L s s' \<and>
      virt_bitmap s' = virt_bitmap s"
    have fail: ?fail
      using loop_fail [OF Suc.prems, of "Suc i" ?s f "fs[i := int f]"] i 2 by blast
    have failed: ?thesis if "map_page c (U2VA ?v) (frame_ptr ?s f) ?s = Some (-1, ?s)"
      "?v = 0 \<or> (\<forall>g<NUM_PHYS_PAGES. bit_at (phys_bitmap ?s) g)"
    proof -
      obtain s' where "free_frames (fs[i := int f]) (Suc i) ?s = Some s'" "vm_inv L s'" "keeps L s s'"
        "virt_bitmap s' = virt_bitmap s" using fail by blast
      moreover have "(\<exists>j<n. run_va (start + j) = 0) \<or> free_count s < 2 * (n - i)"
      proof (cases "\<exists>j<n. run_va (start + j) = 0")
        case False
        then have "\<forall>g<NUM_PHYS_PAGES. bit_at (phys_bitmap ?s) g" using that(2) i by auto
        then have "{g. g < NUM_PHYS_PAGES \<and> \<not> bit_at (phys_bitmap s) g} \<subseteq> {f}"
          using 2(2) phys_capacity [OF ok] by (auto simp: bit_at_set)
        then have "free_count s \<le> 1"
          unfolding free_count_def by (metis card_mono card_1_singleton_iff finite.emptyI finite_insert is_singletonI is_singleton_altdef)
        then have "free_count s < 2 * (n - i)" using i by linarith
        then show ?thesis by blast
      qed simp
      ultimately show ?thesis
        using that(1) i lock run va ptr
        by (simp add: malloc_loop.simps [of c ?va n i] lock_vm_def Let_def
            del: free_frames.simps cong: if_cong)
    qed
    show ?thesis
    proof (cases "?v = 0")
      case True
      then show ?thesis using failed map_page_null [of c "frame_ptr ?s f" ?s] by simp
    next
      case nz: False
      show ?thesis
      proof (cases rule: map_page_cases [OF oks run_va_aligned nz 2(2) free virt, where c = c])
        case 1
        then show ?thesis using failed by simp
      next
        case m: (2 s')
        note live = maps_to_live [OF invM 2(2,3) _ m(2)[unfolded page_of_run_va] m(3)]
        have pf: "page_frame s' = (page_frame s)(virt_page (start + i) := Some f)"
          and vb: "virt_bitmap s' = virt_bitmap s"
          using m(2) by (simp_all add: maps_to_def phys_bits_views page_of_run_va)
        have diff: "virt_page (start + j) = virt_page (start + i) \<longleftrightarrow> j = i" if "j < n" for j
          using virt_page_inj [of "start + j" "start + i"] that i bound by auto
        have "loop_inv L start n (Suc i) (fs[i := int f]) s'"
          unfolding loop_inv_def
        proof (intro conjI allI impI)
          show "vm_inv (L \<union> run_pages start (Suc i)) s'"
            using live(1) none [OF i] by (simp add: run_pages_Suc)
          fix k assume "k < Suc i"
          then show "\<exists>f'. fs[i := int f] ! k = int f' \<and> page_frame s' (virt_page (start + k)) = Some f'"
            using got [of k] diff [of k] pf i len by (cases "k = i") auto
        next
          fix j assume "j < n" "Suc i \<le> j"
          then show "page_frame s' (virt_page (start + j)) = None"
            using none [of j] diff [of j] pf by auto
        qed (use i bound len dis bits vb in auto)
        note linv = this
        have dec: "d = n - Suc i" using Suc.hyps(2) by simp
        obtain r t where t: "malloc_loop c ?va n (Suc i) (fs[i := int f]) s' = Some (r, t)"
          "keeps L s' t" "virt_bitmap t = virt_bitmap s'"
          "r = ?va \<and> vm_inv (L \<union> run_pages start n) t \<and> (\<forall>j<n. Suc i \<le> j \<longrightarrow> run_va (start + j) \<noteq> 0) \<or>
           r = 0 \<and> vm_inv L t \<and> ((\<exists>j<n. run_va (start + j) = 0) \<or> free_count s' < 2 * (n - Suc i))"
          using Suc.hyps(1) [OF dec linv] by blast
        have "keeps L s s'" by (rule keeps_subset [OF live(2)]) (use none [OF i] in auto)
        then have "keeps L s t" using t(2) keeps_trans by blast
        moreover have "malloc_loop c ?va n i fs s = Some (r, t)"
          using m(1) t(1) i lock run va ptr by (simp add: malloc_loop.simps [of c ?va n i] lock_vm_def)
        moreover have "free_count s < 2 * (n - i)" if "free_count s' < 2 * (n - Suc i)"
        proof -
          obtain x where "\<forall>g<NUM_PHYS_PAGES. bit_at (phys_bitmap s') g \<longrightarrow> bit_at ?pb g \<or> g = x"
            using m(2) by (auto simp: maps_to_def)
          then have "free_count s \<le> free_count s' + 2"
            using 2(2) phys_capacity [OF ok] by (intro free_count_step [of _ _ f x]) (auto simp: bit_at_set)
          then show ?thesis using that i by linarith
        qed
        moreover have "\<forall>j<n. i \<le> j \<longrightarrow> run_va (start + j) \<noteq> 0"
          if "\<forall>j<n. Suc i \<le> j \<longrightarrow> run_va (start + j) \<noteq> 0"
        proof (intro allI impI)
          fix j assume "j < n" "i \<le> j"
          then show "run_va (start + j) \<noteq> 0" using that nz by (cases "j = i") auto
        qed
        ultimately show ?thesis using t vb by auto
      qed
    qed
  qed
qed

text \<open>
  \<open>n_malloc\<close> always returns. It gives \<open>NULL\<close> and no page, or the address of a run of
  \<open>pages_for num_bytes\<close> pages, the first one free in the virtual bitmap: fresh pages, mapped to
  frames of their own. The pages the client held before are kept in both cases.
\<close>

lemma pages_for_bound: "pages_for b < NUM_VIRT_PAGES"
  using unat_u32_bound [of "b + of_nat PGSIZE - 1"] by (simp add: pages_for_def unat_div vm_consts)

lemma fresh_run:
  assumes inv: "vm_inv L s" and n: "start + n \<le> NUM_VIRT_PAGES"
    and clear: "\<And>j. j < n \<Longrightarrow> \<not> bit_at (virt_bitmap s) (start + j)"
  shows "j < n \<Longrightarrow> page_frame s (virt_page (start + j)) = None" and "L \<inter> run_pages start n = {}"
proof -
  have virt: "virt_ok s" using inv by (simp add: vm_inv_def vm_ok_def)
  show none: "page_frame s (virt_page (start + j)) = None" if "j < n" for j
    using virt clear [OF that] n that by (simp add: virt_ok_def)
  have False if mL: "m \<in> L" and run: "m \<in> run_pages start n" for m
  proof -
    obtain k where k: "start \<le> k" "k < start + n" "m = virt_page k"
      using run by (auto simp: run_pages_def)
    then have "k - start < n" "start + (k - start) = k" by auto
    then have "page_frame s m = None" using none [of "k - start"] k(3) by simp
    moreover obtain f where "page_frame s m = Some f" using live_frame [OF inv mL] by metis
    ultimately show False by simp
  qed
  then show "L \<inter> run_pages start n = {}" by blast
qed

lemma n_malloc_cases:
  assumes inv: "vm_inv L s"
  obtains (none) s' where "n_malloc c b s = Some (0, s')" "vm_inv L s'" "keeps L s s'"
      "b = 0 \<or> \<not> malloc_ok c (4 * pages_for b) \<or> free_count s < 2 * pages_for b \<or>
       (\<forall>start. start + pages_for b \<le> 786432 \<longrightarrow>
          (\<exists>j<pages_for b. bit_at (virt_bitmap s) (start + j)))"
  | (some) start s' where "n_malloc c b s = Some (U2VA (run_va start), s')"
      "run_va start \<noteq> 0" "b \<noteq> 0" "start + pages_for b \<le> NUM_VIRT_PAGES"
      "L \<inter> run_pages start (pages_for b) = {}"
      "\<And>j. j < pages_for b \<Longrightarrow> \<not> bit_at (virt_bitmap s) (start + j)"
      "\<And>i. i < start \<Longrightarrow> \<exists>j<pages_for b. bit_at (virt_bitmap s) (i + j)"
      "vm_inv (L \<union> run_pages start (pages_for b)) s'" "keeps L s s'"
      "virt_bitmap s' = mark_run (virt_bitmap s) start (pages_for b)"
      "\<forall>j<pages_for b. run_va (start + j) \<noteq> 0"
proof (cases "b = 0")
  case True
  then show ?thesis using vm_ok_fields(1) [OF vm_inv_ok [OF inv]] inv
    by (intro none [of s]) (simp_all add: n_malloc_def)
next
  case b: False
  let ?n = "pages_for b"
  note ok = vm_inv_ok [OF inv]
  have n: "?n \<le> NUM_VIRT_PAGES" using pages_for_bound [of b] by simp
  show ?thesis
  proof (cases rule: get_next_avail_cases [OF ok n, where c = c])
    case 1
    have "\<exists>j<?n. bit_at (virt_bitmap s) (start + j)" if "start + ?n \<le> 786432" for start
      using that by (intro 1(2)) (simp add: vm_consts)
    then show ?thesis using vm_ok_fields(1) [OF ok] inv b 1(1)
      by (intro none [of s]) (simp_all add: n_malloc_def)
  next
    case (2 start)
    let ?vb = "mark_run (virt_bitmap s) start ?n"
    let ?s = "s\<lparr>virt_bitmap := ?vb\<rparr>"
    have views: "page_frame ?s = page_frame s" "table_frame ?s = table_frame s"
      by (intro ext table_frame_cong page_frame_cong; simp)+
    note fresh = fresh_run [OF inv 2(2,3)]
    have bits: "bit_at ?vb i \<longleftrightarrow> start \<le> i \<and> i < start + ?n \<or> bit_at (virt_bitmap s) i"
      if "i < NUM_VIRT_PAGES" for i
      using 2(2) that virt_capacity [OF ok] by (intro mark_run_bits) auto
    have "vm_ok ?s"
    proof (rule vm_ok_virt_bits [OF ok])
      fix i assume "i < NUM_VIRT_PAGES" "\<not> bit_at ?vb i"
      then show "page_frame s (virt_page i) = None"
        using bits ok by (auto simp: vm_ok_def virt_ok_def)
    qed simp
    then have invs: "vm_inv L ?s"
      using inv by (simp add: vm_inv_def live_ok_def views)
    have kept: "keeps L s ?s" by (rule keeps_cong) simp_all
    have head: "n_malloc c b s = (if run_va start = 0 then Some (0, ?s)
        else if \<not> malloc_ok c (4 * ?n) then Some (0, ?s)
        else malloc_loop c (U2VA (run_va start)) ?n 0 (replicate ?n (-1)) ?s)"
      using vm_ok_fields(1) [OF ok] b 2(1) by (simp add: n_malloc_def Let_def cong: if_cong)
    have null: "\<forall>i. i + ?n \<le> 786432 \<longrightarrow> (\<exists>k<?n. bit_at (virt_bitmap s) (i + k))"
      if "j < ?n \<or> ?n = 0 \<and> j = 0" "run_va (start + j) = 0" for j
    proof (intro allI impI)
      fix i assume i: "i + ?n \<le> 786432"
      have "virt_page (start + j) = 0" using that(2) page_of_run_va [of "start + j"] by (simp add: page_of_def)
      moreover have "start + j < NUM_VIRT_PAGES" if "?n \<noteq> 0"
        using that \<open>j < ?n \<or> ?n = 0 \<and> j = 0\<close> 2(2) by auto
      ultimately have "?n \<noteq> 0 \<longrightarrow> start + j = 786432"
        using virt_page_split [of "start + j"] by (auto split: if_splits)
      moreover have "start = 0" if "?n = 0" using 2(4) [of 0] that by (cases start) auto
      moreover have "run_va 0 \<noteq> 0" by (simp add: run_va_def VA_BASE_def)
      ultimately have "i < start" using that i by auto
      then show "\<exists>k<?n. bit_at (virt_bitmap s) (i + k)" by (rule 2(4))
    qed
    show ?thesis
    proof (cases "run_va start = 0 \<or> \<not> malloc_ok c (4 * ?n)")
      case True
      then show ?thesis using head invs kept null [of 0] by (intro none [of ?s]) auto
    next
      case False
      have linv: "loop_inv L start ?n 0 (replicate ?n (-1)) ?s"
        using invs fresh bits 2(2) by (auto simp: loop_inv_def views)
      obtain r t where t: "malloc_loop c (U2VA (run_va start)) ?n 0 (replicate ?n (-1)) ?s = Some (r, t)"
        "keeps L ?s t" "virt_bitmap t = virt_bitmap ?s"
        "r = U2VA (run_va start) \<and> vm_inv (L \<union> run_pages start ?n) t \<and>
           (\<forall>j<?n. 0 \<le> j \<longrightarrow> run_va (start + j) \<noteq> 0) \<or>
         r = 0 \<and> vm_inv L t \<and> ((\<exists>j<?n. run_va (start + j) = 0) \<or> free_count ?s < 2 * (?n - 0))"
        using malloc_loop_ok [OF linv, of c] by blast
      have run: "n_malloc c b s = Some (r, t)" using head t(1) False by simp
      have kt: "keeps L s t" using kept t(2) keeps_trans by blast
      from t(4) show ?thesis
      proof
        assume "r = 0 \<and> vm_inv L t \<and> ((\<exists>j<?n. run_va (start + j) = 0) \<or> free_count ?s < 2 * (?n - 0))"
        moreover have "free_count ?s = free_count s" by (simp add: free_count_def)
        ultimately show ?thesis using run kt null by (intro none [of t]) auto
      next
        assume r: "r = U2VA (run_va start) \<and> vm_inv (L \<union> run_pages start ?n) t \<and>
           (\<forall>j<?n. 0 \<le> j \<longrightarrow> run_va (start + j) \<noteq> 0)"
        show ?thesis
          using run r kt t(3) False b 2 fresh(2) by (intro some [of start t]) auto
      qed
    qed
  qed
qed

section \<open>n_free\<close>

definition virt_index_of :: "u32 \<Rightarrow> nat" where
  "virt_index_of v = unat ((v - VA_BASE) div of_nat PGSIZE)"

lemma virt_index_bound: "virt_index_of v < NUM_VIRT_PAGES"
  using unat_u32_bound [of "v - VA_BASE"] by (simp add: virt_index_of_def unat_div vm_consts)

lemma virt_page_index: "virt_page (virt_index_of v) = page_of v"
proof -
  have lt: "unat v < 4294967296" by (rule unat_u32_bound)
  have e: "virt_index_of v = unat (v - VA_BASE) div 4096"
    by (simp add: virt_index_of_def unat_div PGSIZE_def)
  show ?thesis
  proof (cases "unat VA_BASE \<le> unat v")
    case True
    then have "unat (v - VA_BASE) = unat v - unat VA_BASE" by (simp add: unat_sub word_le_nat_alt)
    then have "virt_index_of v = page_of v - 262144" "262144 \<le> page_of v"
      using True by (simp_all add: e page_of_def VA_BASE_def)
    then show ?thesis
      using page_of_bound [of v] by (subst virt_page_split) (auto simp: vm_consts)
  next
    case False
    then have "unat (v - VA_BASE) = unat v + 2 ^ 32 - unat VA_BASE"
      by (simp add: unat_sub_if_size word_size)
    then have "virt_index_of v = page_of v + 786432" "page_of v < 262144"
      using False by (simp_all add: e page_of_def VA_BASE_def)
    then show ?thesis
      by (subst virt_page_split) (auto simp: vm_consts)
  qed
qed

definition invalidate :: "u32 \<Rightarrow> tlb list \<Rightarrow> tlb list" where
  "invalidate page = map (\<lambda>e. if valid e \<and> vpn e = page then e\<lparr>valid := False\<rparr> else e)"

text \<open>The state \<open>free_page\<close> leaves when page \<open>page_of v\<close> is in frame \<open>f\<close>, its table in \<open>t\<close>.\<close>

definition freed :: "u32 \<Rightarrow> nat \<Rightarrow> nat \<Rightarrow> vm \<Rightarrow> vm" where
  "freed v t f s = (set_pte s t (page_of v) 0)
     \<lparr>phys_bitmap := BIT_CLEAR (phys_bitmap s) f,
      virt_bitmap := BIT_CLEAR (virt_bitmap s) (virt_index_of v),
      tlbGlobal := invalidate (drop_bit PFN_SHIFT v) (tlbGlobal s)\<rparr>"

lemma free_page_run:
  assumes ok: "vm_ok s"
  shows "free_page v s = Some (case table_frame s (page_of v div 1024) of
      None \<Rightarrow> s
    | Some t \<Rightarrow> (case page_frame s (page_of v) of None \<Rightarrow> s | Some f \<Rightarrow> freed v t f s))"
proof -
  obtain pde where pde: "dir_entry s (PDX v) = Some pde"
    "table_frame s (page_of v div 1024) =
      (if pde AND PTE_PRESENT = 0 then None else Some (unat (drop_bit PFN_SHIFT pde)))"
    by (rule dir_entry_ok [OF ok])
  show ?thesis
  proof (cases "pde AND PTE_PRESENT = 0")
    case True
    with pde show ?thesis by (simp add: free_page_def)
  next
    case False
    let ?t = "unat (drop_bit PFN_SHIFT pde)"
    let ?e = "entry_at s ?t (page_of v mod 1024)"
    have t: "table_frame s (page_of v div 1024) = Some ?t" using False pde by simp
    have tb: "?t < NUM_PHYS_PAGES" using tables_used [OF ok t] by blast
    have ld: "load32 s (phys_mem s + push_bit PFN_SHIFT (of_nat ?t) + 4 * ucast (PTX v)) = Some ?e"
      by (rule load_entry_nat [OF tb])
    have base: "(push_bit PFN_SHIFT (ucast (drop_bit PFN_SHIFT pde)) :: u64) = push_bit PFN_SHIFT (of_nat ?t)"
      by (rule frame_shift_of_nat)
    show ?thesis
    proof (cases "?e AND PTE_PRESENT = 0")
      case True
      then have "page_frame s (page_of v) = None" using t by (simp add: page_frame_def)
      then show ?thesis using pde(1) False t ld True base
        by (simp add: free_page_def Let_def del: of_nat_unat)
    next
      case e: False
      let ?f = "unat (drop_bit PFN_SHIFT ?e)"
      have f: "page_frame s (page_of v) = Some ?f" using t e by (simp add: page_frame_def)
      have fb: "?f < capacity (phys_bitmap s)"
        using pages_in_memory [OF ok f] phys_capacity [OF ok] by simp
      have vb: "virt_index_of v < capacity (virt_bitmap s)"
        using virt_index_bound virt_capacity [OF ok] by simp
      have st: "store32 (phys_mem s' + push_bit PFN_SHIFT (of_nat ?t) + 4 * ucast (PTX v)) 0 s' =
          Some (set_pte s' ?t (page_of v) 0)" for s'
        by (rule store_entry_nat [OF tb])
      let ?u = "s\<lparr>phys_bitmap := BIT_CLEAR (phys_bitmap s) ?f,
        virt_bitmap := BIT_CLEAR (virt_bitmap s) (virt_index_of v), vm_lock := False\<rparr>"
      have st': "store32 (phys_mem s + push_bit PFN_SHIFT (of_nat ?t) + 4 * ucast (PTX v)) 0 ?u =
          Some (set_pte ?u ?t (page_of v) 0)"
        using st [of ?u] by simp
      have "free_page v s = Some (unlock_tlb (set_pte ?u ?t (page_of v) 0
          \<lparr>tlb_lock := True, tlbGlobal := invalidate (drop_bit PFN_SHIFT v) (tlbGlobal s)\<rparr>))"
        using pde(1) False e ld base fb vb st' vm_ok_fields(2,3) [OF ok]
        by (simp add: free_page_def Let_def lock_vm_def unlock_vm_def lock_tlb_def set_pte_def
            invalidate_def virt_index_of_def [symmetric] del: of_nat_unat cong: if_cong)
      also have "unlock_tlb (set_pte ?u ?t (page_of v) 0
          \<lparr>tlb_lock := True, tlbGlobal := invalidate (drop_bit PFN_SHIFT v) (tlbGlobal s)\<rparr>) = freed v ?t ?f s"
        using vm_ok_fields(2,3) [OF ok] by (cases s) (simp add: freed_def set_pte_def unlock_tlb_def)
      finally show ?thesis using t f by simp
    qed
  qed
qed

lemma freed_fields [simp]:
  "phys_bitmap (freed v t f s) = BIT_CLEAR (phys_bitmap s) f"
  "virt_bitmap (freed v t f s) = BIT_CLEAR (virt_bitmap s) (virt_index_of v)"
  "tlbGlobal (freed v t f s) = invalidate (drop_bit PFN_SHIFT v) (tlbGlobal s)"
  "mem (freed v t f s) = mem (set_pte s t (page_of v) 0)" "pgdir (freed v t f s) = pgdir s"
  by (simp_all add: freed_def set_pte_def)

lemma freed_views:
  assumes ok: "vm_ok s" and t: "table_frame s (page_of v div 1024) = Some t"
  shows "table_frame (freed v t f s) = table_frame s"
    and "page_frame (freed v t f s) = (page_frame s)(page_of v := None)"
proof -
  have ts: "tables_ok s" using ok by (simp add: vm_ok_def)
  show "table_frame (freed v t f s) = table_frame s" by (intro ext table_frame_cong) simp
  have "page_frame (freed v t f s) = page_frame (set_pte s t (page_of v) 0)"
    by (intro ext page_frame_cong) (simp_all add: set_pte_def)
  then show "page_frame (freed v t f s) = (page_frame s)(page_of v := None)"
    using set_pte_views(2) [OF ts t, of 0] by simp
qed

lemma virt_bit_cleared:
  assumes "vm_ok s" "i < NUM_VIRT_PAGES"
  shows "bit_at (BIT_CLEAR (virt_bitmap s) (virt_index_of v)) i \<longleftrightarrow>
    bit_at (virt_bitmap s) i \<and> virt_page i \<noteq> page_of v"
proof -
  have "i = virt_index_of v \<longleftrightarrow> virt_page i = page_of v"
    using virt_page_inj [OF assms(2) virt_index_bound] virt_page_index by metis
  then show ?thesis
    using assms(2) virt_index_bound [of v] virt_capacity [OF assms(1)] by (auto simp: bit_at_clear)
qed

lemma valid_invalidate:
  "i < length es \<Longrightarrow> valid (invalidate p es ! i) \<longleftrightarrow> valid (es ! i) \<and> vpn (es ! i) \<noteq> p"
  "i < length es \<Longrightarrow> vpn (invalidate p es ! i) = vpn (es ! i)"
  "i < length es \<Longrightarrow> pfn (invalidate p es ! i) = pfn (es ! i)"
  by (auto simp: invalidate_def)

lemma freed_ok:
  assumes ok: "vm_ok s" and t: "table_frame s (page_of v div 1024) = Some t"
    and f: "page_frame s (page_of v) = Some f" "\<forall>d. table_frame s d \<noteq> Some f"
  shows "vm_ok (freed v t f s)"
proof -
  note views = freed_views [OF ok t, of f]
  have fb: "f < NUM_PHYS_PAGES" by (rule pages_in_memory [OF ok f(1)])
  have "vm_shape (freed v t f s)"
    using ok by (simp add: vm_ok_def vm_shape_def freed_def set_pte_def invalidate_def)
  moreover have "tables_ok (freed v t f s)"
    using ok f fb phys_capacity [OF ok] unfolding vm_ok_def tables_ok_def views
    by (auto simp: bit_at_clear)
  moreover have "pages_ok (freed v t f s)" using ok unfolding vm_ok_def pages_ok_def views by simp
  moreover have "virt_ok (freed v t f s)"
    using ok unfolding vm_ok_def virt_ok_def views by (auto simp: virt_bit_cleared [OF ok])
  moreover have "tlb_ok (freed v t f s)"
    unfolding tlb_ok_def views
  proof (intro allI impI)
    fix i assume i: "i < TLB_ENTRIES" "valid (tlbGlobal (freed v t f s) ! i)"
    have "i < length (tlbGlobal s)" using i vm_ok_fields(8) [OF ok] by simp
    note e = valid_invalidate [OF this, of "drop_bit PFN_SHIFT v"]
    have "unat (vpn (tlbGlobal s ! i)) \<noteq> page_of v"
      using i(2) e(1) by (auto simp: page_of_def unat_vpn [symmetric] word_unat_eq_iff)
    then show "((page_frame s)(page_of v := None)) (unat (vpn (tlbGlobal (freed v t f s) ! i))) =
        Some (unat (pfn (tlbGlobal (freed v t f s) ! i)))"
      using i e ok by (simp add: vm_ok_def tlb_ok_def)
  qed
  ultimately show ?thesis by (simp add: vm_ok_def)
qed

lemma free_page_ok:
  assumes inv: "vm_inv L s" and own: "page_of v \<in> L \<or> page_frame s (page_of v) = None"
  obtains s' where "free_page v s = Some s'" "vm_inv (L - {page_of v}) s'"
    "keeps (L - {page_of v}) s s'" "page_frame s' = (page_frame s)(page_of v := None)"
    "\<forall>i<NUM_VIRT_PAGES. bit_at (virt_bitmap s') i \<longleftrightarrow>
       bit_at (virt_bitmap s) i \<and> \<not> (page_frame s (page_of v) \<noteq> None \<and> virt_page i = page_of v)"
    "\<forall>g<NUM_PHYS_PAGES. bit_at (phys_bitmap s') g \<longleftrightarrow> bit_at (phys_bitmap s) g \<and> page_frame s (page_of v) \<noteq> Some g"
proof (cases "page_frame s (page_of v)")
  case None
  let ?n = "page_of v"
  have "free_page v s = Some s"
    using free_page_run [OF vm_inv_ok [OF inv], of v] None by (simp split: option.split)
  moreover have "vm_inv (L - {?n}) s" by (rule vm_inv_subset [OF inv]) blast
  moreover have "page_frame s = (page_frame s)(?n := None)" using None by auto
  ultimately show ?thesis using None by (intro that [of s]) simp_all
next
  case (Some f)
  let ?n = "page_of v"
  note ok = vm_inv_ok [OF inv]
  obtain t where t: "table_frame s (?n div 1024) = Some t"
    using Some by (auto simp: page_frame_def split: option.splits)
  have nL: "?n \<in> L" using own Some by simp
  obtain g where "page_frame s ?n = Some g" "g < NUM_PHYS_PAGES" "bit_at (phys_bitmap s) g"
    "\<forall>d. table_frame s d \<noteq> Some g" by (rule live_frame [OF inv nL])
  then have f: "f < NUM_PHYS_PAGES" "\<forall>d. table_frame s d \<noteq> Some f" using Some by auto
  let ?s = "freed v t f s"
  note views = freed_views [OF ok t, of f]
  have run: "free_page v s = Some ?s" using free_page_run [OF ok, of v] t Some by simp
  have live: "\<exists>g. page_frame s m = Some g \<and> g < NUM_PHYS_PAGES \<and> bit_at (phys_bitmap s) g \<and>
      (\<forall>d. table_frame s d \<noteq> Some g) \<and> g \<noteq> f" if m: "m \<in> L - {?n}" for m
  proof -
    have mL: "m \<in> L" using m by blast
    obtain g where "page_frame s m = Some g" "g < NUM_PHYS_PAGES" "bit_at (phys_bitmap s) g"
      "\<forall>d. table_frame s d \<noteq> Some g" by (rule live_frame [OF inv mL])
    then show ?thesis using live_distinct [OF inv mL nL] m Some by auto
  qed
  have "live_ok (L - {?n}) ?s"
    unfolding live_ok_def views
  proof (intro conjI ballI impI)
    fix m assume m: "m \<in> L - {?n}"
    then show "\<exists>g. ((page_frame s)(?n := None)) m = Some g \<and> bit_at (phys_bitmap ?s) g \<and>
        (\<forall>d. table_frame s d \<noteq> Some g)"
      using live [OF m] f phys_capacity [OF ok] by (auto simp: bit_at_clear)
  next
    fix a b assume "a \<in> L - {?n}" "b \<in> L - {?n}" "((page_frame s)(?n := None)) a = ((page_frame s)(?n := None)) b"
    then show "a = b" using live_distinct [OF inv] by simp
  qed
  then have "vm_inv (L - {?n}) ?s" using freed_ok [OF ok t Some f(2)] by (simp add: vm_inv_def)
  moreover have "keeps (L - {?n}) s ?s"
    unfolding keeps_def views
  proof (intro conjI ballI allI impI)
    fix a assume a: "a div 4096 \<in> L - {?n}"
    obtain g where g: "page_frame s (a div 4096) = Some g" "\<forall>d. table_frame s d \<noteq> Some g"
      using live [OF a] by blast
    then have "g < t \<or> t < g" using t by (metis linorder_neqE_nat)
    then have "4096 * g + a mod 4096 < 4096 * t + 4 * (?n mod 1024) \<or>
        4096 * t + 4 * (?n mod 1024) + 4 \<le> 4096 * g + a mod 4096"
      using mod_less_divisor [of 1024 ?n] mod_less_divisor [of 4096 a] by auto
    then show "amem ?s a = amem s a"
      using a g by (simp add: amem_def views set_pte_def store_bytes_out)
  qed simp
  moreover have "\<forall>g<NUM_PHYS_PAGES. bit_at (phys_bitmap ?s) g \<longleftrightarrow> bit_at (phys_bitmap s) g \<and> f \<noteq> g"
    using f(1) phys_capacity [OF ok] by (auto simp: bit_at_clear)
  ultimately show ?thesis
    using run views Some by (intro that [of ?s]) (simp_all add: virt_bit_cleared [OF ok])
qed

lemma free_loop_ok:
  assumes inv: "vm_inv L s"
    and own: "\<And>j. j < n \<Longrightarrow> page_of (v + of_nat j * of_nat PGSIZE) \<in> L \<or>
      page_frame s (page_of (v + of_nat j * of_nat PGSIZE)) = None"
  shows "\<exists>s'. free_loop v n s = Some s' \<and>
    (let F = (\<lambda>j. page_of (v + of_nat j * of_nat PGSIZE)) ` {..<n} in
      vm_inv (L - F) s' \<and> keeps (L - F) s s' \<and>
      page_frame s' = (\<lambda>m. if m \<in> F then None else page_frame s m) \<and>
      (\<forall>i<NUM_VIRT_PAGES. bit_at (virt_bitmap s') i \<longleftrightarrow>
        bit_at (virt_bitmap s) i \<and> \<not> (page_frame s (virt_page i) \<noteq> None \<and> virt_page i \<in> F)) \<and>
      (\<forall>g<NUM_PHYS_PAGES. bit_at (phys_bitmap s') g \<longleftrightarrow>
        bit_at (phys_bitmap s) g \<and> (\<forall>m\<in>F. page_frame s m \<noteq> Some g)))"
  using own
proof (induction n)
  case 0
  then show ?case using inv by (auto simp: Let_def)
next
  case (Suc n)
  let ?p = "\<lambda>j. page_of (v + of_nat j * of_nat PGSIZE)"
  let ?F = "?p ` {..<n}" and ?G = "?p ` {..<Suc n}"
  have G: "?G = insert (?p n) ?F" by (auto simp: less_Suc_eq)
  obtain u where u: "free_loop v n s = Some u" "vm_inv (L - ?F) u" "keeps (L - ?F) s u"
    "page_frame u = (\<lambda>m. if m \<in> ?F then None else page_frame s m)"
    "\<forall>i<NUM_VIRT_PAGES. bit_at (virt_bitmap u) i \<longleftrightarrow>
        bit_at (virt_bitmap s) i \<and> \<not> (page_frame s (virt_page i) \<noteq> None \<and> virt_page i \<in> ?F)"
    "\<forall>g<NUM_PHYS_PAGES. bit_at (phys_bitmap u) g \<longleftrightarrow>
        bit_at (phys_bitmap s) g \<and> (\<forall>m\<in>?F. page_frame s m \<noteq> Some g)"
    using Suc by (auto simp: Let_def)
  have "?p n \<in> L - ?F \<or> page_frame u (?p n) = None" using Suc.prems [of n] u(4) by auto
  then obtain w where w: "free_page (v + of_nat n * of_nat PGSIZE) u = Some w"
    "vm_inv (L - ?F - {?p n}) w" "keeps (L - ?F - {?p n}) u w" "page_frame w = (page_frame u)(?p n := None)"
    "\<forall>i<NUM_VIRT_PAGES. bit_at (virt_bitmap w) i \<longleftrightarrow>
       bit_at (virt_bitmap u) i \<and> \<not> (page_frame u (?p n) \<noteq> None \<and> virt_page i = ?p n)"
    "\<forall>g<NUM_PHYS_PAGES. bit_at (phys_bitmap w) g \<longleftrightarrow> bit_at (phys_bitmap u) g \<and> page_frame u (?p n) \<noteq> Some g"
    by (rule free_page_ok [OF u(2)])
  have LG: "L - ?G = L - ?F - {?p n}" using G by auto
  have "keeps (L - ?G) s w"
    using keeps_trans [OF keeps_subset [OF u(3)] w(3)] LG by auto
  moreover have "page_frame w = (\<lambda>m. if m \<in> ?G then None else page_frame s m)"
    unfolding w(4) u(4) G by auto
  moreover have "bit_at (virt_bitmap w) i \<longleftrightarrow>
      bit_at (virt_bitmap s) i \<and> \<not> (page_frame s (virt_page i) \<noteq> None \<and> virt_page i \<in> ?G)"
    if "i < NUM_VIRT_PAGES" for i
    using w(5) u(5) that unfolding G u(4) by auto
  moreover have "bit_at (phys_bitmap w) g \<longleftrightarrow> bit_at (phys_bitmap s) g \<and> (\<forall>m\<in>?G. page_frame s m \<noteq> Some g)"
    if "g < NUM_PHYS_PAGES" for g
    using w(6) u(6) that unfolding G u(4) by auto
  ultimately show ?case using u(1) w(1,2) LG by (simp add: Let_def)
qed

text \<open>The pages from the address \<open>v\<close> on that \<open>n_free\<close> releases.\<close>

definition freed_pages :: "u32 \<Rightarrow> int \<Rightarrow> nat set" where
  "freed_pages v nbytes = (\<lambda>j. page_of (v + of_nat j * of_nat PGSIZE)) ` {..<pages_for (of_int nbytes)}"

lemma n_free_ok:
  assumes inv: "vm_inv L s" and v: "v \<noteq> 0" "0 < nbytes"
    and own: "\<forall>m\<in>freed_pages v nbytes. m \<in> L \<or> page_frame s m = None"
  obtains s' where "n_free c (U2VA v) nbytes s = Some s'" "vm_inv (L - freed_pages v nbytes) s'"
    "keeps (L - freed_pages v nbytes) s s'"
    "page_frame s' = (\<lambda>m. if m \<in> freed_pages v nbytes then None else page_frame s m)"
    "\<forall>i<NUM_VIRT_PAGES. bit_at (virt_bitmap s') i \<longleftrightarrow>
       bit_at (virt_bitmap s) i \<and> \<not> (page_frame s (virt_page i) \<noteq> None \<and> virt_page i \<in> freed_pages v nbytes)"
    "\<forall>g<NUM_PHYS_PAGES. bit_at (phys_bitmap s') g \<longleftrightarrow>
       bit_at (phys_bitmap s) g \<and> (\<forall>m\<in>freed_pages v nbytes. page_frame s m \<noteq> Some g)"
proof -
  have "n_free c (U2VA v) nbytes s = free_loop v (pages_for (of_int nbytes)) s"
    using v vm_ok_fields(1) [OF vm_inv_ok [OF inv]] by (simp add: n_free_def)
  moreover have "\<exists>s'. free_loop v (pages_for (of_int nbytes)) s = Some s' \<and>
      vm_inv (L - freed_pages v nbytes) s' \<and> keeps (L - freed_pages v nbytes) s s' \<and>
      page_frame s' = (\<lambda>m. if m \<in> freed_pages v nbytes then None else page_frame s m) \<and>
      (\<forall>i<NUM_VIRT_PAGES. bit_at (virt_bitmap s') i \<longleftrightarrow> bit_at (virt_bitmap s) i \<and>
         \<not> (page_frame s (virt_page i) \<noteq> None \<and> virt_page i \<in> freed_pages v nbytes)) \<and>
      (\<forall>g<NUM_PHYS_PAGES. bit_at (phys_bitmap s') g \<longleftrightarrow>
         bit_at (phys_bitmap s) g \<and> (\<forall>m\<in>freed_pages v nbytes. page_frame s m \<noteq> Some g))"
    unfolding freed_pages_def
    by (rule free_loop_ok [OF inv, unfolded Let_def]) (use own in \<open>auto simp: freed_pages_def\<close>)
  ultimately show ?thesis using that by auto
qed

lemma freed_run:
  "freed_pages (run_va start) nbytes = run_pages start (pages_for (of_int nbytes))"
proof -
  have "{start..<start + n} = (+) start ` {..<n}" for n
    by (simp add: lessThan_atLeast0 add.commute)
  then show ?thesis
    by (simp add: freed_pages_def run_pages_def run_va_add page_of_run_va image_image)
qed

section \<open>The initial state\<close>

text \<open>What \<open>ensure_vm_init\<close> makes of the static state when every \<open>calloc\<close> succeeds.\<close>

definition booted :: "u64 \<Rightarrow> vm" where
  "booted base = vm_boot\<lparr>phys_mem := base, phys_bitmap := replicate 32768 0,
     virt_bitmap := replicate 131072 0, pgdir := Some (replicate 1024 0), vm_initialized := True\<rparr>"

definition callocs_ok :: "libc \<Rightarrow> bool" where
  "callocs_ok c \<longleftrightarrow> calloc_phys_mem c \<noteq> 0 \<and> unat (calloc_phys_mem c) + MEMSIZE \<le> 2 ^ 64 \<and>
     calloc_phys_bitmap c \<and> calloc_virt_bitmap c \<and> calloc_pgdir c"

lemma init_booted: "callocs_ok c \<Longrightarrow> ensure_vm_init c vm_boot = Some (booted (calloc_phys_mem c))"
  by (simp add: callocs_ok_def ensure_vm_init_def lock_vm_def unlock_vm_def vm_boot_def booted_def vm_consts)

lemma bit_at_zeros: "i < 8 * n \<Longrightarrow> \<not> bit_at (replicate n 0) i"
  by (simp add: bit_at_def)

lemma booted_clear: "i < NUM_VIRT_PAGES \<Longrightarrow> \<not> bit_at (virt_bitmap (booted b)) i"
  by (simp add: booted_def bit_at_zeros vm_consts)

lemma booted_free: "free_count (booted b) = NUM_PHYS_PAGES"
proof -
  have "{g. g < NUM_PHYS_PAGES \<and> \<not> bit_at (phys_bitmap (booted b)) g} = {..<NUM_PHYS_PAGES}"
    by (auto simp: booted_def bit_at_zeros vm_consts)
  then show ?thesis by (simp add: free_count_def)
qed

lemma booted_inv:
  assumes "b \<noteq> 0" "unat b + MEMSIZE \<le> 2 ^ 64"
  shows "vm_inv {} (booted b)"
proof -
  have none: "table_frame (booted b) d = None" for d by (simp add: table_frame_def booted_def)
  have pages: "page_frame (booted b) m = None" for m by (simp add: page_frame_def none)
  have "vm_shape (booted b)"
    using assms by (simp add: vm_shape_def booted_def vm_boot_def vm_consts TLB_ENTRIES_def)
  moreover have "tlb_ok (booted b)"
    by (simp add: tlb_ok_def booted_def vm_boot_def empty_tlb_def TLB_ENTRIES_def)
  ultimately show ?thesis
    by (simp add: vm_inv_def vm_ok_def live_ok_def tables_ok_def pages_ok_def virt_ok_def none pages)
qed

lemma booted_unmapped [simp]: "table_frame (booted b) d = None" "page_frame (booted b) m = None"
  by (simp_all add: table_frame_def page_frame_def booted_def)

definition good_libc :: libc where
  "good_libc = \<lparr>calloc_phys_mem = 4096, calloc_phys_bitmap = True, calloc_virt_bitmap = True,
     calloc_pgdir = True, malloc_ok = (\<lambda>_. True)\<rparr>"

lemma booted_4096: "vm_inv {} (booted 4096)"
  by (rule booted_inv) (simp_all add: vm_consts)

lemma sample_alloc:
  obtains start s1 where "n_malloc good_libc 8192 (booted 4096) = Some (U2VA (run_va start), s1)"
    "run_va start \<noteq> 0" "vm_inv (run_pages start 2) s1" "start + 2 \<le> NUM_VIRT_PAGES"
    "\<forall>j<2. run_va (start + j) \<noteq> 0"
proof (cases rule: n_malloc_cases [OF booted_4096, of good_libc 8192])
  have two: "pages_for 8192 = 2" by (simp add: pages_for_def PGSIZE_def)
  {
    case 1
    from 1(4) have False
      using booted_clear booted_free [of 4096] by (auto simp: two good_libc_def vm_consts)
    then show ?thesis ..
  next
    case (2 start s1)
    then show ?thesis by (intro that [of start s1]) (simp_all add: two)
  }
qed

section \<open>The allocator is correct\<close>

text \<open>
  \<open>ensure_vm_init\<close> on the static state, when the four \<open>calloc\<close> calls succeed, establishes
  the invariant with no page given out, every frame and every virtual page free, and releases
  the mutex.
\<close>

lemma init_establishes:
  assumes "callocs_ok c"
  shows "\<exists>s. ensure_vm_init c vm_boot = Some s \<and> vm_inv {} s \<and> free_count s = NUM_PHYS_PAGES \<and>
    (\<forall>i<NUM_VIRT_PAGES. \<not> bit_at (virt_bitmap s) i)"
  using init_booted [OF assms] assms booted_inv booted_free booted_clear
  by (auto simp: callocs_ok_def)

theorem init_establishes_witness:
  "\<exists>s. ensure_vm_init good_libc vm_boot = Some s \<and> vm_inv {} s"
  using init_establishes [of good_libc] by (auto simp: callocs_ok_def good_libc_def vm_consts)

text \<open>
  C8. \<open>n_malloc\<close> in any state that satisfies the invariant returns: \<open>NULL\<close>, or the
  page-aligned address of \<open>pages_for num_bytes\<close> pages that the client did not hold, mapped to
  frames of their own. Both ways the invariant holds again and the pages the client held before
  are where they were and hold what they held.
\<close>

theorem n_malloc_fresh:
  assumes "vm_inv L s"
  shows "\<exists>r s'. n_malloc c num_bytes s = Some (r, s') \<and> keeps L s s' \<and>
    (r = 0 \<and> vm_inv L s' \<or>
     (\<exists>start. r = U2VA (run_va start) \<and> r \<noteq> 0 \<and> L \<inter> run_pages start (pages_for num_bytes) = {} \<and>
        vm_inv (L \<union> run_pages start (pages_for num_bytes)) s'))"
  by (rule n_malloc_cases [OF assms, of c num_bytes]) auto

theorem n_malloc_fresh_witness:
  "\<exists>r s'. n_malloc good_libc 8192 (booted 4096) = Some (r, s') \<and> (r = 0 \<or> (\<exists>start.
     r = U2VA (run_va start) \<and> vm_inv (run_pages start (pages_for 8192)) s'))"
  using n_malloc_fresh [OF booted_4096, of good_libc 8192] by auto

text \<open>
  C19. \<open>n_malloc\<close> succeeds whenever it can: for a request that does not wrap around, when the
  scratch \<open>malloc\<close> succeeds, two frames are free for every page, and the virtual bitmap has a
  free run below the page that virtual address 0 falls on.
\<close>

theorem n_malloc_succeeds:
  assumes "vm_inv L s" "num_bytes \<noteq> 0" "malloc_ok c (4 * pages_for num_bytes)"
    and "2 * pages_for num_bytes \<le> free_count s"
    and "start + pages_for num_bytes \<le> 786432"
    and "\<forall>j<pages_for num_bytes. \<not> bit_at (virt_bitmap s) (start + j)"
  shows "\<exists>r s'. n_malloc c num_bytes s = Some (r, s') \<and> r \<noteq> 0"
  by (rule n_malloc_cases [OF assms(1), of c num_bytes]) (use assms(2-) in auto)

theorem n_malloc_succeeds_witness:
  "\<exists>r s'. n_malloc good_libc 8192 (booted 4096) = Some (r, s') \<and> r \<noteq> 0"
proof (rule n_malloc_succeeds [OF booted_4096, of _ _ 0])
  have two: "pages_for 8192 = 2" by (simp add: pages_for_def PGSIZE_def)
  show "malloc_ok good_libc (4 * pages_for 8192)" by (simp add: good_libc_def)
  show "2 * pages_for 8192 \<le> free_count (booted 4096)" by (simp add: two booted_free vm_consts)
  show "0 + pages_for 8192 \<le> 786432" by (simp add: two)
  show "\<forall>j<pages_for 8192. \<not> bit_at (virt_bitmap (booted 4096)) (0 + j)"
    using booted_clear by (simp add: two vm_consts)
qed simp

text \<open>
  C9. \<open>n_free\<close> on a range whose pages the client holds (or that are not mapped) returns, unmaps
  exactly those pages, clears exactly the bits of their frames in the bitmap of the physical pages and
  exactly their own bits in the bitmap of the virtual pages, leaves no valid TLB entry for them,
  and keeps the contents and the frames of the other pages of the client.
\<close>

theorem n_free_releases:
  assumes "vm_inv L s" "v \<noteq> 0" "0 < nbytes"
    and "\<forall>m\<in>freed_pages v nbytes. m \<in> L \<or> page_frame s m = None"
  shows "\<exists>s'. n_free c (U2VA v) nbytes s = Some s' \<and> vm_inv (L - freed_pages v nbytes) s' \<and>
    keeps (L - freed_pages v nbytes) s s' \<and>
    page_frame s' = (\<lambda>m. if m \<in> freed_pages v nbytes then None else page_frame s m) \<and>
    (\<forall>i<NUM_VIRT_PAGES. bit_at (virt_bitmap s') i \<longleftrightarrow>
       bit_at (virt_bitmap s) i \<and> \<not> (virt_page i \<in> freed_pages v nbytes \<and> page_frame s (virt_page i) \<noteq> None)) \<and>
    (\<forall>g<NUM_PHYS_PAGES. bit_at (phys_bitmap s') g \<longleftrightarrow>
       bit_at (phys_bitmap s) g \<and> \<not> (\<exists>m\<in>freed_pages v nbytes. page_frame s m = Some g)) \<and>
    (\<forall>k<TLB_ENTRIES. \<not> (valid (tlbGlobal s' ! k) \<and> unat (vpn (tlbGlobal s' ! k)) \<in> freed_pages v nbytes))"
proof -
  obtain s' where s': "n_free c (U2VA v) nbytes s = Some s'" "vm_inv (L - freed_pages v nbytes) s'"
    "keeps (L - freed_pages v nbytes) s s'"
    "page_frame s' = (\<lambda>m. if m \<in> freed_pages v nbytes then None else page_frame s m)"
    "\<forall>i<NUM_VIRT_PAGES. bit_at (virt_bitmap s') i \<longleftrightarrow>
       bit_at (virt_bitmap s) i \<and> \<not> (page_frame s (virt_page i) \<noteq> None \<and> virt_page i \<in> freed_pages v nbytes)"
    "\<forall>g<NUM_PHYS_PAGES. bit_at (phys_bitmap s') g \<longleftrightarrow>
       bit_at (phys_bitmap s) g \<and> (\<forall>m\<in>freed_pages v nbytes. page_frame s m \<noteq> Some g)"
    by (rule n_free_ok [OF assms, of c])
  have "tlb_ok s'" using vm_inv_ok [OF s'(2)] by (simp add: vm_ok_def)
  then have "\<forall>k<TLB_ENTRIES. \<not> (valid (tlbGlobal s' ! k) \<and> unat (vpn (tlbGlobal s' ! k)) \<in> freed_pages v nbytes)"
    unfolding tlb_ok_def s'(4) by auto
  then show ?thesis using s' by auto
qed

text \<open>Two pages are allocated and given back: their frames and their bits are free again.\<close>

theorem n_free_releases_witness:
  "\<exists>start s f s'. n_malloc good_libc 8192 (booted 4096) = Some (U2VA (run_va start), s) \<and>
    page_frame s (virt_page start) = Some f \<and> n_free good_libc (U2VA (run_va start)) 8192 s = Some s' \<and> vm_inv {} s' \<and>
    page_frame s' (virt_page start) = None \<and> \<not> bit_at (virt_bitmap s') start \<and> \<not> bit_at (phys_bitmap s') f"
proof -
  obtain start s where a: "n_malloc good_libc 8192 (booted 4096) = Some (U2VA (run_va start), s)"
    "run_va start \<noteq> 0" "vm_inv (run_pages start 2) s" "start + 2 \<le> NUM_VIRT_PAGES" by (rule sample_alloc)
  have F: "freed_pages (run_va start) 8192 = run_pages start 2"
    using freed_run [of start 8192] by (simp add: pages_for_def PGSIZE_def)
  have m: "virt_page start \<in> run_pages start 2" by (simp add: run_pages_def)
  obtain f where f: "page_frame s (virt_page start) = Some f" "f < NUM_PHYS_PAGES" by (rule live_frame [OF a(3) m])
  have start: "start < NUM_VIRT_PAGES" using a(4) by simp
  have own: "\<forall>m\<in>freed_pages (run_va start) 8192. m \<in> run_pages start 2 \<or> page_frame s m = None" using F by simp
  obtain s' where s': "n_free good_libc (U2VA (run_va start)) 8192 s = Some s'"
    "vm_inv (run_pages start 2 - freed_pages (run_va start) 8192) s'"
    "page_frame s' = (\<lambda>m. if m \<in> freed_pages (run_va start) 8192 then None else page_frame s m)"
    "\<forall>i<NUM_VIRT_PAGES. bit_at (virt_bitmap s') i \<longleftrightarrow> bit_at (virt_bitmap s) i \<and>
       \<not> (virt_page i \<in> freed_pages (run_va start) 8192 \<and> page_frame s (virt_page i) \<noteq> None)"
    "\<forall>g<NUM_PHYS_PAGES. bit_at (phys_bitmap s') g \<longleftrightarrow> bit_at (phys_bitmap s) g \<and>
       \<not> (\<exists>m\<in>freed_pages (run_va start) 8192. page_frame s m = Some g)"
    using n_free_releases [OF a(3,2) _ own, of good_libc] by auto
  have "\<not> bit_at (virt_bitmap s') start" "\<not> bit_at (phys_bitmap s') f"
    using s'(4,5) start f m by (auto simp: F)
  then show ?thesis using a(1) f(1) s'(1,2,3) m by (auto simp: F)
qed

text \<open>Releasing a run that was just given out restores the virtual bitmap, bit for bit.\<close>

lemma run_pages_iff:
  assumes "start + n \<le> NUM_VIRT_PAGES" "i < NUM_VIRT_PAGES"
  shows "virt_page i \<in> run_pages start n \<longleftrightarrow> start \<le> i \<and> i < start + n"
proof
  assume "virt_page i \<in> run_pages start n"
  then obtain k where k: "start \<le> k" "k < start + n" "virt_page i = virt_page k"
    by (auto simp: run_pages_def)
  then have "i = k" using virt_page_inj [OF assms(2), of k] assms(1) by simp
  then show "start \<le> i \<and> i < start + n" using k by simp
qed (auto simp: run_pages_def)

lemma first_fit_unique:
  assumes "\<And>j. j < n \<Longrightarrow> \<not> bit_at vb (a + j)" "\<And>i. i < a \<Longrightarrow> \<exists>j<n. bit_at vb (i + j)"
    and "\<And>j. j < n \<Longrightarrow> \<not> bit_at vb (b + j)" "\<And>i. i < b \<Longrightarrow> \<exists>j<n. bit_at vb (i + j)"
  shows "a = b"
  using assms by (meson linorder_neqE_nat)

text \<open>
  C18. Memory given back is given out again: after \<open>p = n_malloc(n)\<close> and \<open>n_free(p, n)\<close>, the
  next \<open>n_malloc(n)\<close> returns \<open>p\<close> or \<open>NULL\<close>.
\<close>

theorem malloc_free_malloc:
  assumes inv: "vm_inv L s" and alloc: "n_malloc c num_bytes s = Some (p, s1)" "p \<noteq> 0"
    and free: "n_free c p nbytes s1 = Some s2" "0 < nbytes" "of_int nbytes = num_bytes"
    and again: "n_malloc c num_bytes s2 = Some (q, s3)"
  shows "q = p \<or> q = 0"
proof (cases rule: n_malloc_cases [OF inv, of c num_bytes])
  case 1
  then show ?thesis using alloc by simp
next
  case a: (2 start t)
  let ?n = "pages_for num_bytes"
  have p: "p = U2VA (run_va start)" "t = s1" using alloc(1) a(1) by auto
  have F: "freed_pages (run_va start) nbytes = run_pages start ?n" using freed_run free(3) by simp
  have own: "\<forall>m\<in>freed_pages (run_va start) nbytes. m \<in> L \<union> run_pages start ?n \<or> page_frame s1 m = None"
    using F by blast
  have inv1: "vm_inv (L \<union> run_pages start ?n) s1" using a(8) p by simp
  obtain u where u: "n_free c (U2VA (run_va start)) nbytes s1 = Some u"
    "vm_inv (L \<union> run_pages start ?n - freed_pages (run_va start) nbytes) u"
    "\<forall>i<NUM_VIRT_PAGES. bit_at (virt_bitmap u) i \<longleftrightarrow> bit_at (virt_bitmap s1) i \<and>
       \<not> (page_frame s1 (virt_page i) \<noteq> None \<and> virt_page i \<in> freed_pages (run_va start) nbytes)"
    by (rule n_free_ok [OF inv1 a(2) free(2) own, of c])
  then have us: "u = s2" using free(1) p by simp
  have mapped: "page_frame s1 m \<noteq> None" if "m \<in> run_pages start ?n" for m
    using live_frame [OF inv1, of m] that by blast
  have vb: "bit_at (virt_bitmap s2) i = bit_at (virt_bitmap s) i" if i: "i < NUM_VIRT_PAGES" for i
  proof -
    have "bit_at (virt_bitmap s1) i \<longleftrightarrow> start \<le> i \<and> i < start + ?n \<or> bit_at (virt_bitmap s) i"
      using a(10) p(2) a(4) i virt_capacity [OF vm_inv_ok [OF inv]] mark_run_bits by simp
    moreover have "\<not> bit_at (virt_bitmap s) i" if "start \<le> i" "i < start + ?n"
      using a(6) [of "i - start"] that by simp
    moreover have "bit_at (virt_bitmap s2) i \<longleftrightarrow>
        bit_at (virt_bitmap s1) i \<and> \<not> (start \<le> i \<and> i < start + ?n)"
      using u(3) us i F mapped run_pages_iff [OF a(4) i] by metis
    ultimately show ?thesis by blast
  qed
  show ?thesis
  proof (cases rule: n_malloc_cases [OF u(2), of c num_bytes])
    case 1
    then show ?thesis using again us by simp
  next
    case b: (2 start' t')
    have "start = start'"
    proof (rule first_fit_unique [of ?n "virt_bitmap s"])
      show "\<And>j. j < ?n \<Longrightarrow> \<not> bit_at (virt_bitmap s) (start + j)" by (rule a(6))
      show "\<And>i. i < start \<Longrightarrow> \<exists>j<?n. bit_at (virt_bitmap s) (i + j)" by (rule a(7))
      show "\<not> bit_at (virt_bitmap s) (start' + j)" if "j < ?n" for j
        using b(6) [OF that] vb us b(4) that by simp
      show "\<exists>j<?n. bit_at (virt_bitmap s) (i + j)" if i: "i < start'" for i
      proof -
        obtain j where j: "j < ?n" "bit_at (virt_bitmap u) (i + j)" using b(7) [OF i] by blast
        then have "i + j < NUM_VIRT_PAGES" using i b(4) by simp
        then show ?thesis using j vb us by blast
      qed
    qed
    then show ?thesis using again us b(1) p(1) by simp
  qed
qed

theorem malloc_free_malloc_witness:
  "\<exists>p s1 s2. n_malloc good_libc 8192 (booted 4096) = Some (p, s1) \<and> n_free good_libc p 8192 s1 = Some s2 \<and>
     (\<forall>q s3. n_malloc good_libc 8192 s2 = Some (q, s3) \<longrightarrow> q = p \<or> q = 0)"
proof -
  obtain start s1 where a: "n_malloc good_libc 8192 (booted 4096) = Some (U2VA (run_va start), s1)"
    "run_va start \<noteq> 0" "vm_inv (run_pages start 2) s1"
    by (rule sample_alloc)
  have F: "freed_pages (run_va start) 8192 = run_pages start 2"
    using freed_run [of start 8192] by (simp add: pages_for_def PGSIZE_def)
  have "\<forall>m\<in>freed_pages (run_va start) 8192. m \<in> run_pages start 2 \<or> page_frame s1 m = None"
    using F by simp
  then obtain s2 where s2: "n_free good_libc (U2VA (run_va start)) 8192 s1 = Some s2"
    by (rule n_free_ok [OF a(3,2), of 8192 good_libc, rotated]) simp_all
  have "U2VA (run_va start) \<noteq> 0" using a(2) by simp
  then show ?thesis
    using malloc_free_malloc [OF booted_4096 a(1) _ s2] a(1) s2 by auto
qed

text \<open>
  C29. A request of more than \<open>0xFFFFF000\<close> bytes wraps around to 0 pages: \<open>n_malloc\<close> hands out
  the address \<open>VA_BASE\<close>, maps nothing and marks nothing, so the client gets an address that may
  be another allocation's, or none's.
\<close>

theorem n_malloc_wraps:
  assumes "vm_inv L s" "malloc_ok c 0" "0xFFFFF000 < num_bytes"
  shows "n_malloc c num_bytes s = Some (U2VA VA_BASE, s)"
proof -
  note ok = vm_inv_ok [OF assms(1)]
  have "0xFFFFF000 < unat num_bytes" using assms(3) by (simp add: word_less_nat_alt)
  moreover have "unat num_bytes < 4294967296" by (rule unat_u32_bound)
  moreover have "unat (num_bytes + of_nat PGSIZE - 1) = (unat num_bytes + 4095) mod 4294967296"
  proof -
    have "num_bytes + of_nat PGSIZE - 1 = num_bytes + 4095" by (simp add: PGSIZE_def)
    then show ?thesis by (simp only: unat_word_ariths) simp
  qed
  ultimately have "unat (num_bytes + of_nat PGSIZE - 1) < 4096"
  proof -
    assume lo: "4294963200 < unat num_bytes" and hi: "unat num_bytes < 4294967296"
      and e: "unat (num_bytes + of_nat PGSIZE - 1) = (unat num_bytes + 4095) mod 4294967296"
    define k where "k = unat num_bytes - 4294963201"
    then have k: "unat num_bytes = 4294963201 + k" "k < 4095" using lo hi by linarith+
    then show ?thesis using e by simp
  qed
  then have n: "pages_for num_bytes = 0" by (simp add: pages_for_def unat_div PGSIZE_def)
  have b: "num_bytes \<noteq> 0" using \<open>0xFFFFF000 < unat num_bytes\<close> by auto
  obtain start where start: "get_next_avail c 0 s =
      Some (U2VA (run_va start), s\<lparr>virt_bitmap := mark_run (virt_bitmap s) start 0\<rparr>)"
      "\<And>i. i < start \<Longrightarrow> \<exists>j<0. bit_at (virt_bitmap s) (i + j)"
    by (rule get_next_avail_cases [OF ok, of 0 c]) auto
  then have "start = 0" by (cases start) auto
  moreover have "mark_run vb 0 0 = vb" for vb by (simp add: mark_run_def)
  moreover have "run_va 0 = VA_BASE" "VA_BASE \<noteq> 0" by (simp_all add: run_va_def VA_BASE_def)
  moreover have "s\<lparr>virt_bitmap := virt_bitmap s\<rparr> = s" by (cases s) simp
  ultimately show ?thesis
    using start(1) n b assms(2) vm_ok_fields(1) [OF ok] by (simp add: n_malloc_def malloc_loop.simps)
qed

theorem n_malloc_wraps_witness:
  "n_malloc good_libc 0xFFFFFFFF (booted 4096) = Some (U2VA VA_BASE, booted 4096)"
  by (rule n_malloc_wraps [OF booted_4096]) (simp_all add: good_libc_def)

text \<open>
  When no frame is free, \<open>n_malloc\<close> fails but keeps the virtual pages it reserved: their
  bits stay set although no page is mapped, and no later call can clear them.
\<close>

lemma n_malloc_leaks:
  assumes inv: "vm_inv L s" and b: "num_bytes \<noteq> 0" "0 < pages_for num_bytes" "malloc_ok c (4 * pages_for num_bytes)"
    and full: "\<forall>g<NUM_PHYS_PAGES. bit_at (phys_bitmap s) g"
    and found: "get_next_avail c (int (pages_for num_bytes)) s = Some (r, s1)" "r \<noteq> 0"
  shows "n_malloc c num_bytes s = Some (0, s1)"
proof -
  note ok = vm_inv_ok [OF inv]
  let ?n = "pages_for num_bytes"
  have n: "?n \<le> NUM_VIRT_PAGES" using pages_for_bound [of num_bytes] by simp
  obtain start where s1: "s1 = s\<lparr>virt_bitmap := mark_run (virt_bitmap s) start ?n\<rparr>"
    by (rule get_next_avail_cases [OF ok n, of c]) (use found in auto)
  have lock: "\<not> vm_lock s1" using vm_ok_fields(2) [OF ok] s1 by simp
  have "first_clear (bit_at (phys_bitmap s1)) 0 NUM_PHYS_PAGES = None"
    using full s1 by (simp add: first_clear_None)
  then have "alloc_phys_frame s1 = Some (-1, s1\<lparr>phys_bitmap := phys_bitmap s1\<rparr>)"
    using phys_capacity [OF ok] s1 by (simp add: alloc_phys_frame_def BIT_TEST_bit)
  note run = alloc_under_lock [OF lock this]
  have "malloc_loop c r ?n 0 (replicate ?n (-1)) s1 = Some (0, s1)"
    using run lock b(2) by (simp add: malloc_loop.simps lock_vm_def)
  then show ?thesis
    using vm_ok_fields(1) [OF ok] b found by (simp add: n_malloc_def)
qed

lemma byte_255: "k < 8 \<Longrightarrow> bit (255 :: int) k"
proof -
  have "(255 :: int) = mask 8" by (simp add: mask_eq_exp_minus_1)
  then show "k < 8 \<Longrightarrow> bit (255 :: int) k" by (simp only: bit_mask_iff) simp
qed

definition full_memory :: vm where
  "full_memory = (booted 4096)\<lparr>phys_bitmap := replicate 32768 255\<rparr>"

lemma full_memory_inv: "vm_inv {} full_memory"
  unfolding full_memory_def
proof (rule vm_inv_phys_bits [OF booted_4096])
  show "length (replicate 32768 255) = length (phys_bitmap (booted 4096))" by (simp add: booted_def)
qed simp

theorem n_malloc_leaks_witness:
  "\<exists>s1. get_next_avail good_libc 2 full_memory = Some (U2VA VA_BASE, s1) \<and>
     bit_at (virt_bitmap s1) 0 \<and> n_malloc good_libc 8192 full_memory = Some (0, s1)"
proof -
  have two: "pages_for 8192 = 2" by (simp add: pages_for_def PGSIZE_def)
  note ok = vm_inv_ok [OF full_memory_inv]
  have two_le: "2 \<le> NUM_VIRT_PAGES" by (simp add: vm_consts)
  have clear: "\<not> bit_at (virt_bitmap full_memory) i" if "i < NUM_VIRT_PAGES" for i
    using booted_clear [OF that] by (simp add: full_memory_def)
  obtain start where start: "get_next_avail good_libc (int 2) full_memory =
      Some (U2VA (run_va start), full_memory\<lparr>virt_bitmap := mark_run (virt_bitmap full_memory) start 2\<rparr>)"
    "\<forall>i. i < start \<longrightarrow> (\<exists>j<2. bit_at (virt_bitmap full_memory) (i + j))"
  proof (cases rule: get_next_avail_cases [OF ok two_le, of good_libc])
    case 1
    have "\<exists>j<2. bit_at (virt_bitmap full_memory) (0 + j)" by (rule 1(2)) (simp add: vm_consts)
    then show ?thesis using clear by (auto simp: vm_consts)
  next
    case (2 start)
    then show ?thesis by (intro that) auto
  qed
  have "start = 0"
    using start(2) clear by (cases start) (auto simp: vm_consts dest!: spec [of _ 0])
  moreover have "run_va 0 = VA_BASE" "VA_BASE \<noteq> 0" by (simp_all add: run_va_def VA_BASE_def)
  ultimately have found: "get_next_avail good_libc (int 2) full_memory =
      Some (U2VA VA_BASE, full_memory\<lparr>virt_bitmap := mark_run (virt_bitmap full_memory) 0 2\<rparr>)"
    "U2VA VA_BASE \<noteq> 0" using start(1) by simp_all
  have full: "\<forall>g<NUM_PHYS_PAGES. bit_at (phys_bitmap full_memory) g"
    by (auto simp: full_memory_def bit_at_def vm_consts intro!: byte_255)
  have "n_malloc good_libc 8192 full_memory =
      Some (0, full_memory\<lparr>virt_bitmap := mark_run (virt_bitmap full_memory) 0 2\<rparr>)"
    by (rule n_malloc_leaks [OF full_memory_inv _ _ _ full, of 8192 good_libc "U2VA VA_BASE"])
      (use found in \<open>simp_all add: two good_libc_def\<close>)
  moreover have "bit_at (mark_run (virt_bitmap full_memory) 0 2) 0"
    using mark_run_bits [of 0 2 "virt_bitmap full_memory" 0] virt_capacity [OF ok] by (simp add: vm_consts)
  ultimately show ?thesis using found by auto
qed

end
