(* ===== verification/VmData.thy ===== *)
theory VmData
  imports VmAlloc
begin

text \<open>
  Data movement of \<open>project3/my_vm.c\<close>: \<open>put_data\<close> and \<open>get_data\<close>, which copy page by page through
  \<open>translate\<close>. On the pages the client holds they refine writing and reading the abstract memory
  \<open>amem\<close>, a map from virtual addresses to bytes.
\<close>

section \<open>put_data and get_data\<close>

text \<open>How many bytes one round copies at address \<open>curr\<close> with \<open>remaining\<close> bytes to go.\<close>

definition bytes_to_copy :: "u32 \<Rightarrow> nat \<Rightarrow> nat" where
  "bytes_to_copy curr_va32 remaining =
     (let page_off = unat (curr_va32 AND OFFMASK); bytes_in_page = PGSIZE - page_off
      in if remaining < bytes_in_page then remaining else bytes_in_page)"

lemma bytes_to_copy_bounds:
  assumes "0 < remaining"
  shows "0 < bytes_to_copy v remaining" "bytes_to_copy v remaining \<le> remaining"
    "unat v mod 4096 + bytes_to_copy v remaining \<le> 4096"
proof -
  have "unat v mod 4096 < 4096" by simp
  then show "0 < bytes_to_copy v remaining" "bytes_to_copy v remaining \<le> remaining"
    "unat v mod 4096 + bytes_to_copy v remaining \<le> 4096"
    using assms by (auto simp: bytes_to_copy_def Let_def unat_OFF PGSIZE_def)
qed

function put_loop :: "libc \<Rightarrow> u32 \<Rightarrow> u8 list \<Rightarrow> nat \<Rightarrow> nat \<Rightarrow> vm \<Rightarrow> (int \<times> vm) option" where
  "put_loop c va32 val nbytes offset s =
     (if offset < nbytes then do {
        let curr_va32 = va32 + of_nat offset;
        (page_base, s) \<leftarrow> translate c (U2VA curr_va32) s;
        if page_base = 0 then Some (-1, s)
        else do {
          let page_off = unat (curr_va32 AND OFFMASK);
          let n = bytes_to_copy curr_va32 (nbytes - offset);
          ensure (offset + n \<le> length val);
          s \<leftarrow> memcpy_to_phys (page_base + of_nat page_off) (chunk offset n val) s;
          put_loop c va32 val nbytes (offset + n) s
        }
      } else Some (0, s))"
  by pat_completeness auto
termination
  by (relation "measure (\<lambda>(c, va, val, nbytes, offset, s). nbytes - offset)")
    (auto intro: diff_less_mono2 simp: bytes_to_copy_bounds)

declare put_loop.simps [simp del]

definition put_data :: "libc \<Rightarrow> u64 \<Rightarrow> u8 list option \<Rightarrow> int \<Rightarrow> vm \<Rightarrow> (int \<times> vm) option" where
  "put_data c va val nbytes s =
     (if va = 0 \<or> val = None \<or> nbytes \<le> 0 then Some (-1, s)
      else do {
        s \<leftarrow> ensure_vm_init c s;
        put_loop c (VA2U va) (the val) (nat nbytes) 0 s
      })"

text \<open>\<open>get_data\<close> returns the buffer \<open>val\<close> points to, as it leaves it.\<close>

function get_loop :: "libc \<Rightarrow> u32 \<Rightarrow> u8 list \<Rightarrow> nat \<Rightarrow> nat \<Rightarrow> vm \<Rightarrow> (u8 list \<times> vm) option" where
  "get_loop c va32 val nbytes offset s =
     (if offset < nbytes then do {
        let curr_va32 = va32 + of_nat offset;
        (page_base, s) \<leftarrow> translate c (U2VA curr_va32) s;
        if page_base = 0 then Some (val, s)
        else do {
          let page_off = unat (curr_va32 AND OFFMASK);
          let n = bytes_to_copy curr_va32 (nbytes - offset);
          ensure (offset + n \<le> length val);
          bs \<leftarrow> memcpy_from_phys s (page_base + of_nat page_off) n;
          get_loop c va32 (splice_at val offset bs) nbytes (offset + n) s
        }
      } else Some (val, s))"
  by pat_completeness auto
termination
  by (relation "measure (\<lambda>(c, va, val, nbytes, offset, s). nbytes - offset)")
    (auto intro: diff_less_mono2 simp: bytes_to_copy_bounds)

declare get_loop.simps [simp del]

definition get_data :: "libc \<Rightarrow> u64 \<Rightarrow> u8 list option \<Rightarrow> int \<Rightarrow> vm \<Rightarrow> (u8 list option \<times> vm) option" where
  "get_data c va val nbytes s =
     (if va = 0 \<or> val = None \<or> nbytes \<le> 0 then Some (val, s)
      else do {
        s \<leftarrow> ensure_vm_init c s;
        (buf, s) \<leftarrow> get_loop c (VA2U va) (the val) (nat nbytes) 0 s;
        Some (Some buf, s)
      })"

section \<open>One page at a time\<close>

definition put_mem :: "(nat \<Rightarrow> u8 option) \<Rightarrow> nat \<Rightarrow> u8 list \<Rightarrow> nat \<Rightarrow> u8 option" where
  "put_mem m a bs = (\<lambda>i. if a \<le> i \<and> i < a + length bs then Some (bs ! (i - a)) else m i)"

lemma put_mem_append: "put_mem (put_mem m a bs) (a + length bs) cs = put_mem m a (bs @ cs)"
  by (rule ext) (auto simp: put_mem_def nth_append)

lemma put_mem_Nil [simp]: "put_mem m a [] = m"
  by (rule ext) (auto simp: put_mem_def)

lemma store_live:
  assumes inv: "vm_inv L s" and n: "n \<in> L" and f: "page_frame s n = Some f"
    and po: "po + length bs \<le> 4096"
  defines "s' \<equiv> s\<lparr>mem := store_bytes (mem s) (4096 * f + po) bs\<rparr>"
  shows "vm_inv L s'" "a div 4096 \<in> L \<Longrightarrow> amem s' a = put_mem (amem s) (4096 * n + po) bs a"
proof -
  note ok = vm_inv_ok [OF inv]
  have ft: "\<forall>d. table_frame s d \<noteq> Some f"
  proof -
    obtain g where "page_frame s n = Some g" "g < NUM_PHYS_PAGES" "bit_at (phys_bitmap s) g"
      "\<forall>d. table_frame s d \<noteq> Some g" by (rule live_frame [OF inv n])
    then show ?thesis using f by simp
  qed
  have tab: "table_frame s' = table_frame s" unfolding s'_def by (intro ext table_frame_cong) simp
  have entry: "entry_at s' t u = entry_at s t u" if "t \<noteq> f" "u < 1024" for t u
  proof -
    have "t < f \<or> f < t" using that(1) by linarith
    then have "4096 * t + 4 * u + 4 \<le> 4096 * f + po \<or> 4096 * f + po + length bs \<le> 4096 * t + 4 * u"
      using po that(2) by auto
    then show ?thesis by (simp add: entry_at_def s'_def load_store_other)
  qed
  have page: "page_frame s' = page_frame s"
  proof (rule ext)
    fix m
    have "entry_at s' t (m mod 1024) = entry_at s t (m mod 1024)" if "table_frame s (m div 1024) = Some t" for t
      using that ft by (intro entry) auto
    then show "page_frame s' m = page_frame s m"
      by (simp add: page_frame_entry tab split: option.split)
  qed
  have "vm_ok s'"
    using ok unfolding vm_ok_def tables_ok_def pages_ok_def virt_ok_def tlb_ok_def tab page
    by (simp add: s'_def)
  then show "vm_inv L s'"
    using inv unfolding vm_inv_def live_ok_def tab page by (simp add: s'_def)
  assume a: "a div 4096 \<in> L"
  obtain g where g: "page_frame s (a div 4096) = Some g" using live_frame [OF inv a] by metis
  show "amem s' a = put_mem (amem s) (4096 * n + po) bs a"
  proof (cases "a div 4096 = n")
    case True
    have e: "a = 4096 * n + a mod 4096" using True by (metis mult_div_mod_eq)
    have "mem s' (4096 * f + a mod 4096) =
        (if po \<le> a mod 4096 \<and> a mod 4096 < po + length bs then bs ! (a mod 4096 - po)
         else mem s (4096 * f + a mod 4096))"
      by (auto simp: s'_def store_bytes_def)
    moreover have "4096 * n + po \<le> a \<and> a < 4096 * n + po + length bs \<longleftrightarrow>
        po \<le> a mod 4096 \<and> a mod 4096 < po + length bs" "a - (4096 * n + po) = a mod 4096 - po"
      using e by linarith+
    ultimately show ?thesis using True f by (simp add: amem_def page put_mem_def)
  next
    case False
    have "g \<noteq> f" using live_distinct [OF inv a n] False f g by auto
    then have "g < f \<or> f < g" by linarith
    moreover have "a mod 4096 < 4096" by simp
    ultimately have "4096 * g + a mod 4096 < 4096 * f + po \<or> 4096 * f + po + length bs \<le> 4096 * g + a mod 4096"
      using po by auto
    then have "mem s' (4096 * g + a mod 4096) = mem s (4096 * g + a mod 4096)"
      by (simp add: s'_def store_bytes_out)
    moreover have "\<not> (4096 * n + po \<le> a \<and> a < 4096 * n + po + length bs)"
    proof
      assume h: "4096 * n + po \<le> a \<and> a < 4096 * n + po + length bs"
      then have "4096 * n \<le> a \<and> a < 4096 * (n + 1)" using po by simp
      then have "a div 4096 = n" by (metis Suc_eq_plus1 div_nat_eqI mult.commute)
      then show False using False by simp
    qed
    ultimately show ?thesis using g by (auto simp: amem_def page put_mem_def)
  qed
qed

lemma phys_off_in_frame:
  assumes ok: "vm_ok s" and f: "f < NUM_PHYS_PAGES" and po: "po < 4096"
  shows "phys_off s (frame_ptr s f + of_nat po) = 4096 * f + po"
proof -
  have "frame_ptr s f + of_nat po = phys_mem s + of_nat (4096 * f + po)"
    by (simp add: frame_ptr_def algebra_simps)
  moreover have "4096 * f + po < 2 ^ 64" using f po by (simp add: vm_consts)
  ultimately show ?thesis by (simp only: phys_off_base unat_of_nat_small len64)
qed

lemma unat_offset: "unat (va :: u32) + k < 2 ^ 32 \<Longrightarrow> unat (va + of_nat k) = unat va + k"
proof -
  assume lt: "unat va + k < 2 ^ 32"
  then have "unat (of_nat k :: u32) = k" by (intro unat_of_nat_small) simp
  with lt show ?thesis by (subst unat_add_lem [THEN iffD1]) simp_all
qed

text \<open>\<open>translate\<close> on a page the client holds.\<close>

lemma translate_live:
  assumes inv: "vm_inv L s" and n: "page_of v \<in> L"
  obtains f s1 where "translate c (U2VA v) s = Some (frame_ptr s1 f, s1)" "frame_ptr s1 f \<noteq> 0"
    "page_frame s1 (page_of v) = Some f" "f < NUM_PHYS_PAGES" "vm_inv L s1" "amem s1 = amem s"
    "page_frame s1 = page_frame s"
proof -
  note ok = vm_inv_ok [OF inv]
  obtain s1 where s1: "translate c (U2VA v) s = Some (case page_frame s (page_of v) of
      None \<Rightarrow> 0 | Some f \<Rightarrow> frame_ptr s f, s1)" "tlb_step s s1" "vm_ok s1"
    using translate_walk [OF ok, of c "U2VA v"] by auto
  obtain f where f: "page_frame s (page_of v) = Some f" "f < NUM_PHYS_PAGES"
    using live_frame [OF inv n] by metis
  note v = tlb_step_views [OF s1(2)]
  have "amem s1 = amem s" using s1(2) by (intro amem_cong) (simp_all add: tlb_step_def)
  moreover have "frame_ptr s1 f \<noteq> 0" by (rule frame_ptr_off(2) [OF s1(3) f(2)])
  moreover have "vm_inv L s1" by (rule vm_inv_tlb_step [OF inv s1(2,3)])
  ultimately show ?thesis using s1(1) f v by (intro that [of s1 f]) simp_all
qed

lemma chunk_then_rest: "off + n \<le> m \<Longrightarrow> chunk off n xs @ drop (off + n) (take m xs) = drop off (take m xs)"
proof -
  assume "off + n \<le> m"
  then have "chunk off n xs = take n (drop off (take m xs))"
    by (simp add: chunk_def drop_take min_def)
  moreover have "drop (off + n) (take m xs) = drop n (drop off (take m xs))"
    by (simp add: add.commute)
  ultimately show ?thesis by (simp only: append_take_drop_id)
qed

section \<open>put_data writes the abstract memory\<close>

lemma put_loop_ok:
  assumes "vm_inv L s" "offset \<le> nbytes" "unat va32 + nbytes \<le> 2 ^ 32" "nbytes \<le> length val"
    and "\<forall>a. unat va32 + offset \<le> a \<and> a < unat va32 + nbytes \<longrightarrow> a div 4096 \<in> L"
  shows "\<exists>s'. put_loop c va32 val nbytes offset s = Some (0, s') \<and> vm_inv L s' \<and>
    (\<forall>a. a div 4096 \<in> L \<longrightarrow>
       amem s' a = put_mem (amem s) (unat va32 + offset) (drop offset (take nbytes val)) a)"
  using assms
proof (induction "nbytes - offset" arbitrary: offset s rule: less_induct)
  case less
  show ?case
  proof (cases "offset < nbytes")
    case False
    then show ?thesis using less.prems by (auto simp: put_loop.simps)
  next
    case True
    let ?v = "va32 + of_nat offset" and ?A = "unat va32 + offset"
    let ?n = "bytes_to_copy ?v (nbytes - offset)"
    let ?bs = "chunk offset ?n val"
    have uv: "unat ?v = ?A" using True less.prems(3) by (intro unat_offset) simp
    have b: "0 < ?n" "?n \<le> nbytes - offset" "?A mod 4096 + ?n \<le> 4096"
      using bytes_to_copy_bounds [of "nbytes - offset" ?v] True by (auto simp: uv)
    have len: "length ?bs = ?n" using b less.prems(4) by simp
    have pv: "page_of ?v = ?A div 4096" by (simp add: page_of_def uv)
    have vL: "page_of ?v \<in> L" unfolding pv using less.prems(5) True by simp
    obtain f s1 where t: "translate c (U2VA ?v) s = Some (frame_ptr s1 f, s1)" "frame_ptr s1 f \<noteq> 0"
      "page_frame s1 (page_of ?v) = Some f" "f < NUM_PHYS_PAGES" "vm_inv L s1" "amem s1 = amem s"
      by (rule translate_live [OF less.prems(1) vL])
    have off: "phys_off s1 (frame_ptr s1 f + of_nat (?A mod 4096)) = 4096 * f + ?A mod 4096"
      by (rule phys_off_in_frame [OF vm_inv_ok [OF t(5)] t(4)]) simp
    let ?s = "s1\<lparr>mem := store_bytes (mem s1) (4096 * f + ?A mod 4096) ?bs\<rparr>"
    have fits: "4096 * f + ?A mod 4096 + ?n \<le> MEMSIZE" using b(3) t(4) by (simp add: vm_consts)
    have put: "memcpy_to_phys (frame_ptr s1 f + of_nat (?A mod 4096)) ?bs s1 = Some ?s"
      using fits by (simp add: memcpy_to_phys_def off len)
    have po: "?A mod 4096 + length ?bs \<le> 4096" using b(3) len by simp
    note st = store_live [OF t(5) vL t(3) po]
    have here: "amem ?s a = put_mem (amem s) ?A ?bs a" if "a div 4096 \<in> L" for a
      using st(2) [OF that] t(6) by (simp add: pv)
    have "nbytes - (offset + ?n) < nbytes - offset" using b True by linarith
    moreover have "offset + ?n \<le> nbytes" using b True by linarith
    moreover have "\<forall>a. unat va32 + (offset + ?n) \<le> a \<and> a < unat va32 + nbytes \<longrightarrow> a div 4096 \<in> L"
      using less.prems(5) by simp
    ultimately obtain s' where s': "put_loop c va32 val nbytes (offset + ?n) ?s = Some (0, s')" "vm_inv L s'"
      "\<forall>a. a div 4096 \<in> L \<longrightarrow> amem s' a =
         put_mem (amem ?s) (unat va32 + (offset + ?n)) (drop (offset + ?n) (take nbytes val)) a"
      using less.hyps [of "offset + ?n" ?s] st(1) less.prems(3,4) by blast
    have "put_loop c va32 val nbytes offset s = Some (0, s')"
      using True t(1,2) put s'(1) b less.prems(4)
      by (simp add: put_loop.simps [of c va32 val nbytes offset] unat_OFF uv Let_def)
    moreover have "amem s' a = put_mem (amem s) ?A (drop offset (take nbytes val)) a" if a: "a div 4096 \<in> L" for a
    proof -
      have "?bs @ drop (offset + ?n) (take nbytes val) = drop offset (take nbytes val)"
        using b True by (intro chunk_then_rest) simp
      then have "put_mem (amem s) ?A (drop offset (take nbytes val)) =
          put_mem (put_mem (amem s) ?A ?bs) (unat va32 + (offset + ?n)) (drop (offset + ?n) (take nbytes val))"
        using put_mem_append [of "amem s" ?A ?bs "drop (offset + ?n) (take nbytes val)"] len
        by (simp add: add.assoc)
      moreover have "amem s' a = put_mem (put_mem (amem s) ?A ?bs) (unat va32 + (offset + ?n))
          (drop (offset + ?n) (take nbytes val)) a"
        using s'(3) a here [OF a] by (simp add: put_mem_def)
      ultimately show ?thesis by simp
    qed
    ultimately show ?thesis using s'(2) by blast
  qed
qed

section \<open>get_data reads the abstract memory\<close>

definition read_mem :: "(nat \<Rightarrow> u8 option) \<Rightarrow> nat \<Rightarrow> nat \<Rightarrow> u8 list" where
  "read_mem m a n = map (\<lambda>i. the (m (a + i))) [0..<n]"

lemma length_read_mem [simp]: "length (read_mem m a n) = n"
  by (simp add: read_mem_def)

lemma read_mem_add: "read_mem m a (n + k) = read_mem m a n @ read_mem m (a + n) k"
  by (rule nth_equalityI) (auto simp: read_mem_def nth_append add.assoc)

lemma read_put_mem: "read_mem (put_mem m a bs) a (length bs) = bs"
  by (rule nth_equalityI) (auto simp: read_mem_def put_mem_def)

lemma read_mem_cong: "(\<And>i. a \<le> i \<Longrightarrow> i < a + n \<Longrightarrow> m i = m' i) \<Longrightarrow> read_mem m a n = read_mem m' a n"
  by (simp add: read_mem_def)

lemma load_page_bytes:
  assumes "page_frame s (A div 4096) = Some f" "A mod 4096 + n \<le> 4096"
  shows "load_bytes (mem s) (4096 * f + A mod 4096) n = read_mem (amem s) A n"
proof (rule nth_equalityI)
  fix i assume "i < length (load_bytes (mem s) (4096 * f + A mod 4096) n)"
  then have i: "i < n" by simp
  have "A + i = 4096 * (A div 4096) + (A mod 4096 + i)" by simp
  moreover have "A mod 4096 + i < 4096" using assms(2) i by simp
  ultimately have "(A + i) div 4096 = A div 4096" "(A + i) mod 4096 = A mod 4096 + i"
    by (metis div_mult_self4 div_less add.right_neutral zero_neq_numeral mult.commute,
        metis mod_mult_self4 mod_less mult.commute)
  then show "load_bytes (mem s) (4096 * f + A mod 4096) n ! i = read_mem (amem s) A n ! i"
    using i assms(1) by (simp add: read_mem_def amem_def add.assoc)
qed simp

lemma get_loop_ok:
  assumes "vm_inv L s" "offset \<le> nbytes" "unat va32 + nbytes \<le> 2 ^ 32" "nbytes \<le> length val"
    and "\<forall>a. unat va32 + offset \<le> a \<and> a < unat va32 + nbytes \<longrightarrow> a div 4096 \<in> L"
  shows "\<exists>s'. get_loop c va32 val nbytes offset s = Some (take offset val @
      read_mem (amem s) (unat va32 + offset) (nbytes - offset) @ drop nbytes val, s') \<and>
    vm_inv L s' \<and> amem s' = amem s \<and> page_frame s' = page_frame s"
  using assms
proof (induction "nbytes - offset" arbitrary: offset val s rule: less_induct)
  case less
  show ?case
  proof (cases "offset < nbytes")
    case False
    then show ?thesis using less.prems by (auto simp: get_loop.simps read_mem_def)
  next
    case True
    let ?v = "va32 + of_nat offset" and ?A = "unat va32 + offset"
    let ?n = "bytes_to_copy ?v (nbytes - offset)"
    let ?bs = "read_mem (amem s) ?A ?n"
    let ?val = "splice_at val offset ?bs"
    have uv: "unat ?v = ?A" using True less.prems(3) by (intro unat_offset) simp
    have b: "0 < ?n" "?n \<le> nbytes - offset" "?A mod 4096 + ?n \<le> 4096"
      using bytes_to_copy_bounds [of "nbytes - offset" ?v] True by (auto simp: uv)
    have pv: "page_of ?v = ?A div 4096" by (simp add: page_of_def uv)
    have vL: "page_of ?v \<in> L" unfolding pv using less.prems(5) True by simp
    obtain f s1 where t: "translate c (U2VA ?v) s = Some (frame_ptr s1 f, s1)" "frame_ptr s1 f \<noteq> 0"
      "page_frame s1 (page_of ?v) = Some f" "f < NUM_PHYS_PAGES" "vm_inv L s1" "amem s1 = amem s"
      "page_frame s1 = page_frame s"
      by (rule translate_live [OF less.prems(1) vL])
    have off: "phys_off s1 (frame_ptr s1 f + of_nat (?A mod 4096)) = 4096 * f + ?A mod 4096"
      by (rule phys_off_in_frame [OF vm_inv_ok [OF t(5)] t(4)]) simp
    have fits: "4096 * f + ?A mod 4096 + ?n \<le> MEMSIZE" using b(3) t(4) by (simp add: vm_consts)
    have get: "memcpy_from_phys s1 (frame_ptr s1 f + of_nat (?A mod 4096)) ?n = Some ?bs"
      using fits load_page_bytes [of s1 ?A f ?n] t(3,6) b(3) by (simp add: memcpy_from_phys_def off pv)
    have len: "length ?val = length val" using b True less.prems(4) by (intro length_splice_at) simp
    have dec: "nbytes - (offset + ?n) < nbytes - offset" using b True by linarith
    have le: "offset + ?n \<le> nbytes" using b True by linarith
    have rest: "\<forall>a. unat va32 + (offset + ?n) \<le> a \<and> a < unat va32 + nbytes \<longrightarrow> a div 4096 \<in> L"
      using less.prems(5) by simp
    have long: "nbytes \<le> length ?val" using len less.prems(4) by simp
    obtain s' where s': "get_loop c va32 ?val nbytes (offset + ?n) s1 = Some (take (offset + ?n) ?val @
        read_mem (amem s1) (unat va32 + (offset + ?n)) (nbytes - (offset + ?n)) @ drop nbytes ?val, s')"
      "vm_inv L s'" "amem s' = amem s1" "page_frame s' = page_frame s1"
      using less.hyps [OF dec t(5) le less.prems(3) long rest] by blast
    have "take (offset + ?n) ?val = take offset val @ ?bs" "drop nbytes ?val = drop nbytes val"
      using b True less.prems(4) by (simp_all add: splice_at_def)
    moreover have "read_mem (amem s) ?A (nbytes - offset) =
        ?bs @ read_mem (amem s) (unat va32 + (offset + ?n)) (nbytes - (offset + ?n))"
      using read_mem_add [of "amem s" ?A ?n "nbytes - (offset + ?n)"] le by (simp add: add.assoc)
    moreover have "get_loop c va32 val nbytes offset s = get_loop c va32 ?val nbytes (offset + ?n) s1"
      using True t(1,2) get le_trans [OF le less.prems(4)]
      by (simp add: get_loop.simps [of c va32 val nbytes offset] unat_OFF uv Let_def)
    ultimately show ?thesis using s' t(6,7) by simp
  qed
qed

section \<open>Data movement is correct\<close>

text \<open>The bytes \<open>[a, a + n)\<close> lie on pages of \<open>L\<close>, inside the 32-bit address space.\<close>

definition owns :: "nat set \<Rightarrow> u32 \<Rightarrow> nat \<Rightarrow> bool" where
  "owns L v n \<longleftrightarrow> unat v + n \<le> 2 ^ 32 \<and> (\<forall>a. unat v \<le> a \<and> a < unat v + n \<longrightarrow> a div 4096 \<in> L)"

lemma put_data_ok:
  assumes inv: "vm_inv L s" and v: "v \<noteq> 0" and n: "0 < n" "n \<le> length val" and own: "owns L v n"
  obtains s' where "put_data c (U2VA v) (Some val) (int n) s = Some (0, s')" "vm_inv L s'"
    "\<forall>a. a div 4096 \<in> L \<longrightarrow> amem s' a = put_mem (amem s) (unat v) (take n val) a"
proof -
  have "put_data c (U2VA v) (Some val) (int n) s = put_loop c v val n 0 s"
    using v n(1) vm_ok_fields(1) [OF vm_inv_ok [OF inv]] by (simp add: put_data_def)
  then show ?thesis
    using put_loop_ok [OF inv, of 0 n v val c] own n(2) that by (auto simp: owns_def)
qed

lemma get_data_ok:
  assumes inv: "vm_inv L s" and v: "v \<noteq> 0" and n: "0 < n" "n \<le> length buf" and own: "owns L v n"
  obtains s' where "get_data c (U2VA v) (Some buf) (int n) s =
      Some (Some (read_mem (amem s) (unat v) n @ drop n buf), s')" "vm_inv L s'" "amem s' = amem s"
proof -
  have "get_data c (U2VA v) (Some buf) (int n) s =
      map_option (\<lambda>(b, s). (Some b, s)) (get_loop c v buf n 0 s)"
    using v n(1) vm_ok_fields(1) [OF vm_inv_ok [OF inv]]
    by (cases "get_loop c v buf n 0 s") (auto simp: get_data_def)
  then show ?thesis
    using get_loop_ok [OF inv, of 0 n v buf c] own n(2) that by (auto simp: owns_def)
qed

text \<open>
  C17. \<open>translate\<close> on a well-formed state returns, and its result is that of the page-table walk,
  whatever the TLB holds: the frame's address for a mapped page, \<open>NULL\<close> otherwise. It changes
  nothing but the TLB and its counters, and what the TLB then holds still agrees with the tables.
\<close>

theorem translate_is_walk:
  assumes "vm_ok s"
  shows "\<exists>s'. translate c va s =
      Some (case page_frame s (page_of (VA2U va)) of None \<Rightarrow> 0 | Some f \<Rightarrow> frame_ptr s f, s') \<and>
    tlb_step s s' \<and> vm_ok s'"
  by (rule translate_walk [OF assms, of c va]) auto

theorem translate_is_walk_witness:
  "\<exists>s'. translate good_libc 4096 (booted 4096) = Some (0, s') \<and> vm_ok s'"
  using translate_is_walk [OF vm_inv_ok [OF booted_4096], of good_libc 4096] by auto

text \<open>
  \<open>put_data\<close> on bytes the client owns refines the write to the abstract memory: it returns
  0, the bytes of the range become the buffer's, and every other byte of the client's pages is
  what it was, whichever pages and frames the range spans.
\<close>

lemma put_data_refines:
  assumes "vm_inv L s" "v \<noteq> 0" "0 < n" "n \<le> length val" "owns L v n"
  shows "\<exists>s'. put_data c (U2VA v) (Some val) (int n) s = Some (0, s') \<and> vm_inv L s' \<and>
    (\<forall>a. a div 4096 \<in> L \<longrightarrow> amem s' a = put_mem (amem s) (unat v) (take n val) a)"
  by (rule put_data_ok [OF assms, of c]) blast

text \<open>
  \<open>get_data\<close> on bytes the client owns refines the read: the first \<open>n\<close> bytes of the buffer
  become those of the abstract memory, the rest of the buffer and the memory are unchanged.
\<close>

lemma get_data_refines:
  assumes "vm_inv L s" "v \<noteq> 0" "0 < n" "n \<le> length buf" "owns L v n"
  shows "\<exists>s'. get_data c (U2VA v) (Some buf) (int n) s =
      Some (Some (read_mem (amem s) (unat v) n @ drop n buf), s') \<and> vm_inv L s' \<and> amem s' = amem s"
  by (rule get_data_ok [OF assms, of c]) blast

lemma run_va_contiguous:
  assumes "start + n \<le> NUM_VIRT_PAGES" "\<forall>j<n. run_va (start + j) \<noteq> 0"
  shows "owns (run_pages start n) (run_va start) (4096 * n)"
proof (cases "n = 0")
  case True
  then show ?thesis using unat_u32_bound [of "run_va start"] by (simp add: owns_def)
next
  case False
  have nz: "start + j \<noteq> 786432" if "j < n" for j
  proof
    assume "start + j = 786432"
    then have "unat (run_va (start + j)) = 0" by (simp add: run_va_unat VA_BASE_def)
    then show False using assms(2) that by (simp add: unat_eq_0)
  qed
  have side: "start + n \<le> 786432 \<or> 786432 < start"
  proof (rule ccontr)
    assume "\<not> (start + n \<le> 786432 \<or> 786432 < start)"
    then have "start \<le> 786432" "786432 - start < n" by auto
    then show False using nz [of "786432 - start"] by simp
  qed
  have u: "unat (run_va start) = 4096 * virt_page start"
  proof -
    have "unat (run_va start) div 4096 = virt_page start"
      using page_of_run_va [of start] by (simp add: page_of_def)
    then show ?thesis using run_va_aligned [of start] by (metis add.right_neutral mult_div_mod_eq)
  qed
  have shift: "virt_page (start + j) = virt_page start + j" if "j < n" for j
    using side that assms(1) False
    by (auto simp: virt_page_split vm_consts)
  have "unat (run_va start) + 4096 * n \<le> 2 ^ 32"
    using side assms(1) False unfolding u by (auto simp: virt_page_split vm_consts)
  moreover have "a div 4096 \<in> run_pages start n"
    if "unat (run_va start) \<le> a" "a < unat (run_va start) + 4096 * n" for a
  proof -
    let ?j = "a div 4096 - virt_page start"
    have "virt_page start \<le> a div 4096" "a div 4096 < virt_page start + n" using that u by auto
    then have "?j < n" "a div 4096 = virt_page start + ?j" by auto
    then show ?thesis using shift [of ?j] run_pages_mem [of ?j n start] by simp
  qed
  ultimately show ?thesis by (simp add: owns_def)
qed

lemma pages_for_enough:
  assumes "num_bytes \<le> 0xFFFFF000"
  shows "unat num_bytes \<le> 4096 * pages_for num_bytes"
proof -
  have "num_bytes + of_nat PGSIZE - 1 = num_bytes + of_nat 4095" by (simp add: PGSIZE_def)
  moreover have "unat num_bytes + 4095 < 2 ^ 32" using assms by (simp add: word_le_nat_alt)
  ultimately have "unat (num_bytes + of_nat PGSIZE - 1) = unat num_bytes + 4095"
    by (simp only: unat_offset)
  then show ?thesis by (simp add: pages_for_def unat_div PGSIZE_def)
qed

lemma owns_mono: "owns L v n \<Longrightarrow> m \<le> n \<Longrightarrow> L \<subseteq> M \<Longrightarrow> owns M v m"
  unfolding owns_def by (meson add_left_mono le_trans less_le_trans subsetD)

text \<open>
  A virtual allocation is memory: what \<open>put_data\<close> writes into the bytes \<open>n_malloc\<close> gave is
  what \<open>get_data\<close> reads back, and the bytes of every page the client held before the allocation
  still are what they were.
\<close>

lemma malloc_put_get:
  assumes inv: "vm_inv L s" and alloc: "n_malloc c num_bytes s = Some (p, s1)" "p \<noteq> 0"
    and b: "num_bytes \<le> 0xFFFFF000" and val: "val \<noteq> []" "length val \<le> unat num_bytes"
    and buf: "length buf = length val"
  shows "\<exists>s2 s3. put_data c p (Some val) (int (length val)) s1 = Some (0, s2) \<and>
    get_data c p (Some buf) (int (length val)) s2 = Some (Some val, s3) \<and>
    (\<forall>a. a div 4096 \<in> L \<longrightarrow> amem s3 a = amem s a)"
proof (cases rule: n_malloc_cases [OF inv, of c num_bytes])
  case 1
  then show ?thesis using alloc by simp
next
  case a: (2 start t)
  let ?n = "pages_for num_bytes" and ?v = "run_va start" and ?P = "run_pages start (pages_for num_bytes)"
  have p: "p = U2VA ?v" "t = s1" using alloc(1) a(1) by auto
  have inv1: "vm_inv (L \<union> ?P) s1" and kept: "keeps L s s1" using a(8,9) p by simp_all
  have own: "owns ?P ?v (4096 * ?n)" by (rule run_va_contiguous [OF a(4) a(11)])
  have "length val \<le> 4096 * ?n" using pages_for_enough [OF b] val(2) by simp
  then have own1: "owns (L \<union> ?P) ?v (length val)" and ownP: "owns ?P ?v (length val)"
    using owns_mono [OF own] by auto
  have len: "0 < length val" using val(1) by simp
  obtain s2 where s2: "put_data c p (Some val) (int (length val)) s1 = Some (0, s2)" "vm_inv (L \<union> ?P) s2"
    "\<forall>x. x div 4096 \<in> L \<union> ?P \<longrightarrow> amem s2 x = put_mem (amem s1) (unat ?v) (take (length val) val) x"
    using put_data_ok [OF inv1 a(2) len order_refl own1, of c] p(1) by metis
  have lb: "length val \<le> length buf" using buf by simp
  obtain s3 where s3: "get_data c p (Some buf) (int (length val)) s2 =
      Some (Some (read_mem (amem s2) (unat ?v) (length val) @ drop (length val) buf), s3)"
    "amem s3 = amem s2"
    using get_data_ok [OF s2(2) a(2) len lb own1, of c] p(1) by metis
  have "read_mem (amem s2) (unat ?v) (length val) = read_mem (put_mem (amem s1) (unat ?v) val) (unat ?v) (length val)"
    using ownP s2(3) by (intro read_mem_cong) (simp add: owns_def)
  then have "get_data c p (Some buf) (int (length val)) s2 = Some (Some val, s3)"
    using s3(1) buf by (simp add: read_put_mem)
  moreover have "amem s3 x = amem s x" if "x div 4096 \<in> L" for x
  proof -
    have "\<not> (unat ?v \<le> x \<and> x < unat ?v + length val)"
      using that ownP a(5) unfolding owns_def by blast
    then have "amem s2 x = amem s1 x" using s2(3) that by (auto simp: put_mem_def)
    then show ?thesis using s3(2) kept that by (simp add: keeps_def)
  qed
  ultimately show ?thesis using s2(1) by blast
qed

theorem malloc_put_get_witness:
  "\<exists>p s1 s2 s3. n_malloc good_libc 8192 (booted 4096) = Some (p, s1) \<and>
     put_data good_libc p (Some [1, 2, 3]) 3 s1 = Some (0, s2) \<and>
     get_data good_libc p (Some [0, 0, 0]) 3 s2 = Some (Some [1, 2, 3], s3)"
proof -
  obtain start s1 where a: "n_malloc good_libc 8192 (booted 4096) = Some (U2VA (run_va start), s1)"
    "run_va start \<noteq> 0" by (rule sample_alloc)
  then have "U2VA (run_va start) \<noteq> 0" by simp
  then show ?thesis
    using malloc_put_get [OF booted_4096 a(1), of "[1, 2, 3]" "[0, 0, 0]"] a(1) by auto
qed

lemma sample_owned:
  obtains L v s where "vm_inv L s" "v \<noteq> 0" "owns L v 8192"
proof -
  obtain start s1 where a: "n_malloc good_libc 8192 (booted 4096) = Some (U2VA (run_va start), s1)"
    "run_va start \<noteq> 0" "vm_inv (run_pages start 2) s1" "start + 2 \<le> NUM_VIRT_PAGES"
    "\<forall>j<2. run_va (start + j) \<noteq> 0" by (rule sample_alloc)
  show ?thesis using that [OF a(3,2)] run_va_contiguous [OF a(4,5)] by simp
qed

theorem put_data_refines_witness:
  "\<exists>L v s1 s2. vm_inv L s1 \<and> put_data good_libc (U2VA v) (Some [7, 8]) 2 s1 = Some (0, s2) \<and>
     amem s2 (unat v) = Some 7"
proof -
  obtain L v s1 where a: "vm_inv L s1" "v \<noteq> 0" "owns L v 8192" by (rule sample_owned)
  have own: "owns L v 2" by (rule owns_mono [OF a(3)]) simp_all
  have two: "(0 :: nat) < 2" "2 \<le> length [7, 8 :: u8]" by simp_all
  obtain s2 where s2: "put_data good_libc (U2VA v) (Some [7, 8]) (int 2) s1 = Some (0, s2)"
    "\<forall>x. x div 4096 \<in> L \<longrightarrow> amem s2 x = put_mem (amem s1) (unat v) (take 2 [7, 8]) x"
    using put_data_refines [OF a(1,2) two own, of good_libc] by blast
  have "unat v div 4096 \<in> L" using own by (simp add: owns_def)
  then have "amem s2 (unat v) = Some 7" using s2(2) by (simp add: put_mem_def)
  then show ?thesis using s2(1) a(1) by (metis of_nat_numeral)
qed

theorem get_data_refines_witness:
  "\<exists>L v s1 s2. vm_inv L s1 \<and> get_data good_libc (U2VA v) (Some [0, 0, 9]) 2 s1 =
     Some (Some [the (amem s1 (unat v)), the (amem s1 (unat v + 1)), 9], s2)"
proof -
  obtain L v s1 where a: "vm_inv L s1" "v \<noteq> 0" "owns L v 8192" by (rule sample_owned)
  have own: "owns L v 2" by (rule owns_mono [OF a(3)]) simp_all
  have two: "(0 :: nat) < 2" "2 \<le> length [0, 0, 9 :: u8]" by simp_all
  have "read_mem m k 2 @ drop 2 [0, 0, 9] = [the (m k), the (m (k + 1)), 9]" for m k
    by (simp add: read_mem_def numeral_2_eq_2)
  then show ?thesis
    using get_data_refines [OF a(1,2) two own, of good_libc] a(1) by auto
qed

end
