(* ===== verification/MatMult.thy ===== *)
theory MatMult
  imports VmData
begin

text \<open>
  \<open>mat_mult\<close> of \<open>project3/my_vm.c\<close>: three nested loops over matrices of C ints in the virtual
  memory, every element read with \<open>get_data\<close> and every result written with \<open>put_data\<close>. The
  arithmetic is that of C \<open>int\<close>: a result outside its range is undefined behaviour and stops the
  run. The loops take the read and the write of one \<open>int\<close> as arguments; the locale \<open>int_mem\<close>
  states what they rely on, and its interpretation shows that \<open>get_data\<close> and \<open>put_data\<close> give it.
\<close>

section \<open>mat_mult\<close>

text \<open>The representation of an \<open>int\<close> in memory.\<close>

definition int_bytes :: "int \<Rightarrow> u8 list" where
  "int_bytes x = le_enc 4 (unat (of_int x :: u32))"

definition bytes_int :: "u8 list \<Rightarrow> int" where
  "bytes_int bs = sint (of_nat (le_dec bs) :: u32)"

text \<open>\<open>get_data(U2VA(va), &a, sizeof(int))\<close> with \<open>int a = 0\<close>, and \<open>put_data(U2VA(va), &v, sizeof(int))\<close>.\<close>

definition get_int :: "libc \<Rightarrow> u32 \<Rightarrow> vm \<Rightarrow> (int \<times> vm) option" where
  "get_int c va32 s = do {
     (buf, s) \<leftarrow> get_data c (U2VA va32) (Some (int_bytes 0)) 4 s;
     Some (bytes_int (the buf), s)
   }"

definition put_int :: "libc \<Rightarrow> u32 \<Rightarrow> int \<Rightarrow> vm \<Rightarrow> vm option" where
  "put_int c va32 x s = do {
     (_, s) \<leftarrow> put_data c (U2VA va32) (Some (int_bytes x)) 4 s;
     Some s
   }"

text \<open>\<open>VA2U(base) + (vaddr32_t)((i * size + k) * (int)sizeof(int))\<close>, with its \<open>int\<close> overflow checks.\<close>

definition elem_addr :: "u64 \<Rightarrow> int \<Rightarrow> int \<Rightarrow> int \<Rightarrow> u32 option" where
  "elem_addr base n i k = do {
     ensure (int_ok (i * n));
     ensure (int_ok (i * n + k));
     ensure (int_ok ((i * n + k) * 4));
     Some (VA2U base + of_int ((i * n + k) * 4))
   }"

function mat_k :: "(u32 \<Rightarrow> 's \<Rightarrow> (int \<times> 's) option) \<Rightarrow> u64 \<Rightarrow> u64 \<Rightarrow> int \<Rightarrow> int \<Rightarrow> int \<Rightarrow> int \<Rightarrow> int \<Rightarrow>
    's \<Rightarrow> (int \<times> 's) option" where
  "mat_k get mat1 mat2 n i j k c_val s =
     (if k < n then do {
        a_va32 \<leftarrow> elem_addr mat1 n i k;
        b_va32 \<leftarrow> elem_addr mat2 n k j;
        (a, s) \<leftarrow> get a_va32 s;
        (b, s) \<leftarrow> get b_va32 s;
        ensure (int_ok (a * b));
        ensure (int_ok (c_val + a * b));
        mat_k get mat1 mat2 n i j (k + 1) (c_val + a * b) s
      } else Some (c_val, s))"
  by pat_completeness auto
termination
  by (relation "measure (\<lambda>(get, m1, m2, n, i, j, k, v, s). nat (n - k))") auto

declare mat_k.simps [simp del]

function mat_j :: "(u32 \<Rightarrow> 's \<Rightarrow> (int \<times> 's) option) \<Rightarrow> (u32 \<Rightarrow> int \<Rightarrow> 's \<Rightarrow> 's option) \<Rightarrow>
    u64 \<Rightarrow> u64 \<Rightarrow> int \<Rightarrow> u64 \<Rightarrow> int \<Rightarrow> int \<Rightarrow> 's \<Rightarrow> 's option" where
  "mat_j get put mat1 mat2 n answer i j s =
     (if j < n then do {
        (c_val, s) \<leftarrow> mat_k get mat1 mat2 n i j 0 0 s;
        c_va32 \<leftarrow> elem_addr answer n i j;
        s \<leftarrow> put c_va32 c_val s;
        mat_j get put mat1 mat2 n answer i (j + 1) s
      } else Some s)"
  by pat_completeness auto
termination
  by (relation "measure (\<lambda>(get, put, m1, m2, n, ans, i, j, s). nat (n - j))") auto

declare mat_j.simps [simp del]

function mat_i :: "(u32 \<Rightarrow> 's \<Rightarrow> (int \<times> 's) option) \<Rightarrow> (u32 \<Rightarrow> int \<Rightarrow> 's \<Rightarrow> 's option) \<Rightarrow>
    u64 \<Rightarrow> u64 \<Rightarrow> int \<Rightarrow> u64 \<Rightarrow> int \<Rightarrow> 's \<Rightarrow> 's option" where
  "mat_i get put mat1 mat2 n answer i s =
     (if i < n then do {
        s \<leftarrow> mat_j get put mat1 mat2 n answer i 0 s;
        mat_i get put mat1 mat2 n answer (i + 1) s
      } else Some s)"
  by pat_completeness auto
termination
  by (relation "measure (\<lambda>(get, put, m1, m2, n, ans, i, s). nat (n - i))") auto

declare mat_i.simps [simp del]

definition mat_mult :: "libc \<Rightarrow> u64 \<Rightarrow> u64 \<Rightarrow> int \<Rightarrow> u64 \<Rightarrow> vm \<Rightarrow> vm option" where
  "mat_mult c mat1 mat2 n answer s = mat_i (get_int c) (put_int c) mat1 mat2 n answer 0 s"

section \<open>Addresses and products\<close>

definition elem :: "u64 \<Rightarrow> nat \<Rightarrow> nat \<Rightarrow> nat \<Rightarrow> nat" where
  "elem base n i j = unat (VA2U base) + 4 * (i * n + j)"

definition dot :: "(nat \<Rightarrow> nat \<Rightarrow> int) \<Rightarrow> (nat \<Rightarrow> nat \<Rightarrow> int) \<Rightarrow> nat \<Rightarrow> nat \<Rightarrow> nat \<Rightarrow> int" where
  "dot A B i j k = (\<Sum>l<k. A i l * B l j)"

text \<open>No product and no partial sum leaves the range of \<open>int\<close>.\<close>

definition fits :: "nat \<Rightarrow> (nat \<Rightarrow> nat \<Rightarrow> int) \<Rightarrow> (nat \<Rightarrow> nat \<Rightarrow> int) \<Rightarrow> bool" where
  "fits n A B \<longleftrightarrow> (\<forall>i<n. \<forall>j<n. \<forall>k<n. int_ok (A i k * B k j) \<and> int_ok (dot A B i j (Suc k)))"

definition sep :: "nat \<Rightarrow> nat \<Rightarrow> bool" where
  "sep a b \<longleftrightarrow> a = b \<or> a + 4 \<le> b \<or> b + 4 \<le> a"

lemma index_less: "i < n \<Longrightarrow> k < n \<Longrightarrow> i * n + k < n * (n :: nat)"
proof -
  assume "i < n" "k < n"
  then have "i * n + k < Suc i * n" by simp
  also have "\<dots> \<le> n * n" using \<open>i < n\<close> by (intro mult_le_mono1) simp
  finally show ?thesis .
qed

lemma elem_addr_ok:
  assumes i: "i < n" "k < n" and sz: "4 * (n * n) \<le> 2147483647" "unat (VA2U base) + 4 * (n * n) \<le> 2 ^ 32"
  obtains a where "elem_addr base (int n) (int i) (int k) = Some a" "unat a = elem base n i k"
proof -
  have lt: "i * n + k < n * n" by (rule index_less [OF i])
  have e: "int i * int n + int k = int (i * n + k)" by simp
  have "i * n \<le> i * n + k" by simp
  then have ok: "int_ok (int i * int n)" "int_ok (int i * int n + int k)"
    "int_ok ((int i * int n + int k) * 4)"
    using lt sz(1) unfolding e by (auto simp: int_ok_def simp flip: of_nat_mult)
  have "of_int ((int i * int n + int k) * 4) = (of_nat (4 * (i * n + k)) :: u32)"
    unfolding e by (simp add: mult.commute)
  then have run: "elem_addr base (int n) (int i) (int k) = Some (VA2U base + of_nat (4 * (i * n + k)))"
    using ok by (simp only: elem_addr_def bind_ensure if_True)
  moreover have "unat (VA2U base + of_nat (4 * (i * n + k))) = elem base n i k"
    unfolding elem_def by (rule unat_offset) (use lt sz(2) in simp)
  ultimately show ?thesis by (rule that)
qed

lemma elem_sep: "sep (elem base n i j) (elem base n i' j')"
proof -
  consider "i * n + j = i' * n + j'" | "i * n + j < i' * n + j'" | "i' * n + j' < i * n + j" by linarith
  then show ?thesis by cases (auto simp: sep_def elem_def)
qed

lemma elem_inj:
  assumes "elem base n i j = elem base n i' j'" "j < n" "j' < n"
  shows "i = i' \<and> j = j'"
proof -
  have e: "i * n + j = i' * n + j'" using assms(1) by (simp add: elem_def)
  then have "(i * n + j) div n = (i' * n + j') div n" "(i * n + j) mod n = (i' * n + j') mod n" by simp_all
  then show ?thesis using assms(2,3) by simp
qed

lemma length_int_bytes [simp]: "length (int_bytes x) = 4"
  by (simp add: int_bytes_def)

lemma bytes_int_bytes: "int_ok x \<Longrightarrow> bytes_int (int_bytes x) = x"
proof -
  assume x: "int_ok x"
  have "unat (of_int x :: u32) mod 256 ^ 4 = unat (of_int x :: u32)"
    using unat_u32_bound [of "of_int x"] by simp
  then have "bytes_int (int_bytes x) = sint (of_int x :: u32)"
    by (simp add: bytes_int_def int_bytes_def le_dec_enc)
  also have "\<dots> = x" using x by (simp add: signed_of_int signed_take_bit_int_eq_self int_ok_def)
  finally show ?thesis .
qed

section \<open>What the loops rely on\<close>

text \<open>
  \<open>word_at s a\<close> is the \<open>int\<close> at address \<open>a\<close>, \<open>own\<close> says which addresses hold one the caller
  owns. Reading returns it and changes no owned \<open>int\<close>; writing changes it and no \<open>int\<close> apart
  from it.
\<close>

locale int_mem =
  fixes get :: "u32 \<Rightarrow> 's \<Rightarrow> (int \<times> 's) option"
    and put :: "u32 \<Rightarrow> int \<Rightarrow> 's \<Rightarrow> 's option"
    and inv :: "'s \<Rightarrow> bool"
    and word_at :: "'s \<Rightarrow> nat \<Rightarrow> int"
    and own :: "nat \<Rightarrow> bool"
  assumes get_ok: "inv s \<Longrightarrow> own (unat a) \<Longrightarrow>
      \<exists>s'. get a s = Some (word_at s (unat a), s') \<and> inv s' \<and> (\<forall>b. own b \<longrightarrow> word_at s' b = word_at s b)"
    and put_ok: "inv s \<Longrightarrow> own (unat a) \<Longrightarrow> int_ok x \<Longrightarrow>
      \<exists>s'. put a x s = Some s' \<and> inv s' \<and>
        (\<forall>b. own b \<longrightarrow> sep (unat a) b \<longrightarrow> word_at s' b = (if b = unat a then x else word_at s b))"
begin

lemma mat_k_ok:
  assumes n: "4 * (n * n) \<le> 2147483647" "unat (VA2U m1) + 4 * (n * n) \<le> 2 ^ 32"
      "unat (VA2U m2) + 4 * (n * n) \<le> 2 ^ 32"
    and own: "\<And>i j. i < n \<Longrightarrow> j < n \<Longrightarrow> own (elem m1 n i j) \<and> own (elem m2 n i j)"
    and ij: "i < n" "j < n" and fit: "fits n A B"
  shows "inv s \<Longrightarrow> k \<le> n \<Longrightarrow> (\<And>i k. i < n \<Longrightarrow> k < n \<Longrightarrow> word_at s (elem m1 n i k) = A i k) \<Longrightarrow>
    (\<And>i k. i < n \<Longrightarrow> k < n \<Longrightarrow> word_at s (elem m2 n i k) = B i k) \<Longrightarrow>
    \<exists>s'. mat_k get m1 m2 (int n) (int i) (int j) (int k) (dot A B i j k) s = Some (dot A B i j n, s') \<and>
      inv s' \<and> (\<forall>b. own b \<longrightarrow> word_at s' b = word_at s b)"
proof (induction "n - k" arbitrary: k s)
  case 0
  then show ?case by (auto simp: mat_k.simps)
next
  case (Suc d)
  have k: "k < n" using Suc.hyps(2) by simp
  obtain a where a: "elem_addr m1 (int n) (int i) (int k) = Some a" "unat a = elem m1 n i k"
    by (rule elem_addr_ok [OF ij(1) k n(1,2)])
  obtain b where b: "elem_addr m2 (int n) (int k) (int j) = Some b" "unat b = elem m2 n k j"
    by (rule elem_addr_ok [OF k ij(2) n(1,3)])
  have oa: "own (unat a)" and ob: "own (unat b)" using own ij k a(2) b(2) by auto
  obtain s1 where s1: "get a s = Some (A i k, s1)" "inv s1" "\<forall>b. own b \<longrightarrow> word_at s1 b = word_at s b"
    using get_ok [OF Suc.prems(1) oa] Suc.prems(3) [OF ij(1) k] a(2) by auto
  obtain s2 where s2: "get b s1 = Some (B k j, s2)" "inv s2" "\<forall>b. own b \<longrightarrow> word_at s2 b = word_at s1 b"
    using get_ok [OF s1(2) ob] s1(3) ob Suc.prems(4) [OF k ij(2)] b(2) by auto
  have same: "\<forall>b. own b \<longrightarrow> word_at s2 b = word_at s b" using s1(3) s2(3) by simp
  have A: "word_at s2 (elem m1 n i k) = A i k" "word_at s2 (elem m2 n i k) = B i k" if "i < n" "k < n" for i k
    using same own [OF that] Suc.prems(3,4) [OF that] by auto
  have dec: "d = n - Suc k" using Suc.hyps(2) by simp
  have sk: "Suc k \<le> n" using k by simp
  obtain s' where s': "mat_k get m1 m2 (int n) (int i) (int j) (int (Suc k)) (dot A B i j (Suc k)) s2 =
      Some (dot A B i j n, s')" "inv s'" "\<forall>b. own b \<longrightarrow> word_at s' b = word_at s2 b"
    using Suc.hyps(1) [OF dec s2(2) sk A] by blast
  have ok: "int_ok (A i k * B k j)" "int_ok (dot A B i j k + A i k * B k j)"
    using fit ij k by (auto simp: fits_def dot_def)
  have "mat_k get m1 m2 (int n) (int i) (int j) (int k) (dot A B i j k) s =
      mat_k get m1 m2 (int n) (int i) (int j) (int (Suc k)) (dot A B i j (Suc k)) s2"
    using k a(1) b(1) s1(1) s2(1) ok
    by (simp add: mat_k.simps [of get m1 m2 "int n" "int i" "int j" "int k"] dot_def add.commute)
  then show ?case using s' same by auto
qed

text \<open>One row: the elements \<open>j, j + 1, ...\<close> of row \<open>i\<close> of the answer are written.\<close>

lemma mat_j_ok:
  assumes n: "4 * (n * n) \<le> 2147483647" "unat (VA2U m1) + 4 * (n * n) \<le> 2 ^ 32"
      "unat (VA2U m2) + 4 * (n * n) \<le> 2 ^ 32" "unat (VA2U ans) + 4 * (n * n) \<le> 2 ^ 32"
    and own: "\<And>i j. i < n \<Longrightarrow> j < n \<Longrightarrow> own (elem m1 n i j) \<and> own (elem m2 n i j) \<and> own (elem ans n i j)"
    and apart: "\<And>i j k l. i < n \<Longrightarrow> j < n \<Longrightarrow> k < n \<Longrightarrow> l < n \<Longrightarrow>
      sep (elem ans n i j) (elem m1 n k l) \<and> elem ans n i j \<noteq> elem m1 n k l \<and>
      sep (elem ans n i j) (elem m2 n k l) \<and> elem ans n i j \<noteq> elem m2 n k l"
    and i: "i < n" and fit: "fits n A B"
  shows "inv s \<Longrightarrow> j \<le> n \<Longrightarrow> (\<And>i k. i < n \<Longrightarrow> k < n \<Longrightarrow> word_at s (elem m1 n i k) = A i k) \<Longrightarrow>
    (\<And>i k. i < n \<Longrightarrow> k < n \<Longrightarrow> word_at s (elem m2 n i k) = B i k) \<Longrightarrow>
    \<exists>s'. mat_j get put m1 m2 (int n) ans (int i) (int j) s = Some s' \<and> inv s' \<and>
      (\<forall>l<n. j \<le> l \<longrightarrow> word_at s' (elem ans n i l) = dot A B i l n) \<and>
      (\<forall>b. own b \<longrightarrow> (\<forall>l<n. sep (elem ans n i l) b) \<longrightarrow> (\<forall>l<n. j \<le> l \<longrightarrow> b \<noteq> elem ans n i l) \<longrightarrow>
         word_at s' b = word_at s b)"
proof (induction "n - j" arbitrary: j s)
  case 0
  then show ?case by (auto simp: mat_j.simps)
next
  case (Suc d)
  have j: "j < n" using Suc.hyps(2) by simp
  have own12: "own (elem m1 n i j) \<and> own (elem m2 n i j)" if "i < n" "j < n" for i j
    using own [OF that] by blast
  obtain s1 where s1: "mat_k get m1 m2 (int n) (int i) (int j) 0 0 s = Some (dot A B i j n, s1)" "inv s1"
    "\<forall>b. own b \<longrightarrow> word_at s1 b = word_at s b"
    using mat_k_ok [OF n(1-3) own12 i j fit Suc.prems(1), of 0] Suc.prems(3,4) by (auto simp: dot_def)
  obtain a where a: "elem_addr ans (int n) (int i) (int j) = Some a" "unat a = elem ans n i j"
    by (rule elem_addr_ok [OF i j n(1,4)])
  have "int_ok (dot A B i j n)"
    using fit i j by (cases n) (auto simp: fits_def)
  moreover have "own (unat a)" using own [OF i j] a(2) by simp
  ultimately obtain s2 where s2: "put a (dot A B i j n) s1 = Some s2" "inv s2"
    "\<forall>b. own b \<longrightarrow> sep (elem ans n i j) b \<longrightarrow>
       word_at s2 b = (if b = elem ans n i j then dot A B i j n else word_at s1 b)"
    using put_ok [OF s1(2)] a(2) by metis
  have keep: "word_at s2 b = word_at s b" if "own b" "sep (elem ans n i j) b" "b \<noteq> elem ans n i j" for b
    using s2(3) s1(3) that by simp
  have A: "word_at s2 (elem m1 n i' k) = A i' k" "word_at s2 (elem m2 n i' k) = B i' k"
    if "i' < n" "k < n" for i' k
    using keep own [OF that] apart [OF i j that] Suc.prems(3,4) [OF that] by auto
  have dec: "d = n - Suc j" using Suc.hyps(2) by simp
  have sj: "Suc j \<le> n" using j by simp
  obtain s' where s': "mat_j get put m1 m2 (int n) ans (int i) (int (Suc j)) s2 = Some s'" "inv s'"
    "\<forall>l<n. Suc j \<le> l \<longrightarrow> word_at s' (elem ans n i l) = dot A B i l n"
    "\<forall>b. own b \<longrightarrow> (\<forall>l<n. sep (elem ans n i l) b) \<longrightarrow> (\<forall>l<n. Suc j \<le> l \<longrightarrow> b \<noteq> elem ans n i l) \<longrightarrow>
       word_at s' b = word_at s2 b"
    using Suc.hyps(1) [OF dec s2(2) sj A] by blast
  have run: "mat_j get put m1 m2 (int n) ans (int i) (int j) s = Some s'"
    using j s1(1) a(1) s2(1) s'(1)
    by (simp add: mat_j.simps [of get put m1 m2 "int n" ans "int i" "int j"] add.commute)
  have "elem ans n i j \<noteq> elem ans n i l" if "l < n" "Suc j \<le> l" for l
    using elem_inj [of ans n i j i l] that j by auto
  then have here: "word_at s' (elem ans n i j) = dot A B i j n"
    using s'(4) s2(3) own [OF i j] elem_sep by (simp add: sep_def)
  have "word_at s' (elem ans n i l) = dot A B i l n" if "l < n" "j \<le> l" for l
    using here s'(3) that by (cases "l = j") auto
  moreover have "word_at s' b = word_at s b"
    if "own b" "\<forall>l<n. sep (elem ans n i l) b" "\<forall>l<n. j \<le> l \<longrightarrow> b \<noteq> elem ans n i l" for b
    using s'(4) keep that j by auto
  ultimately show ?case using run s'(2) by blast
qed

lemma mat_i_ok:
  assumes n: "4 * (n * n) \<le> 2147483647" "unat (VA2U m1) + 4 * (n * n) \<le> 2 ^ 32"
      "unat (VA2U m2) + 4 * (n * n) \<le> 2 ^ 32" "unat (VA2U ans) + 4 * (n * n) \<le> 2 ^ 32"
    and own: "\<And>i j. i < n \<Longrightarrow> j < n \<Longrightarrow> own (elem m1 n i j) \<and> own (elem m2 n i j) \<and> own (elem ans n i j)"
    and apart: "\<And>i j k l. i < n \<Longrightarrow> j < n \<Longrightarrow> k < n \<Longrightarrow> l < n \<Longrightarrow>
      sep (elem ans n i j) (elem m1 n k l) \<and> elem ans n i j \<noteq> elem m1 n k l \<and>
      sep (elem ans n i j) (elem m2 n k l) \<and> elem ans n i j \<noteq> elem m2 n k l"
    and fit: "fits n A B"
  shows "inv s \<Longrightarrow> i \<le> n \<Longrightarrow> (\<And>i k. i < n \<Longrightarrow> k < n \<Longrightarrow> word_at s (elem m1 n i k) = A i k) \<Longrightarrow>
    (\<And>i k. i < n \<Longrightarrow> k < n \<Longrightarrow> word_at s (elem m2 n i k) = B i k) \<Longrightarrow>
    \<exists>s'. mat_i get put m1 m2 (int n) ans (int i) s = Some s' \<and> inv s' \<and>
      (\<forall>h<n. \<forall>l<n. i \<le> h \<longrightarrow> word_at s' (elem ans n h l) = dot A B h l n) \<and>
      (\<forall>b. own b \<longrightarrow> (\<forall>h<n. \<forall>l<n. sep (elem ans n h l) b) \<longrightarrow>
         (\<forall>h<n. \<forall>l<n. i \<le> h \<longrightarrow> b \<noteq> elem ans n h l) \<longrightarrow> word_at s' b = word_at s b)"
proof (induction "n - i" arbitrary: i s)
  case 0
  then show ?case by (auto simp: mat_i.simps)
next
  case (Suc d)
  have i: "i < n" using Suc.hyps(2) by simp
  obtain s1 where s1: "mat_j get put m1 m2 (int n) ans (int i) 0 s = Some s1" "inv s1"
    "\<forall>l<n. word_at s1 (elem ans n i l) = dot A B i l n"
    "\<forall>b. own b \<longrightarrow> (\<forall>l<n. sep (elem ans n i l) b) \<longrightarrow> (\<forall>l<n. b \<noteq> elem ans n i l) \<longrightarrow>
       word_at s1 b = word_at s b"
    using mat_j_ok [OF n own apart i fit Suc.prems(1), of 0] Suc.prems(3,4) by auto
  have A: "word_at s1 (elem m1 n i' k) = A i' k" "word_at s1 (elem m2 n i' k) = B i' k"
    if "i' < n" "k < n" for i' k
    using s1(4) own [OF that] apart [OF i _ that] Suc.prems(3,4) [OF that] by metis+
  have dec: "d = n - Suc i" using Suc.hyps(2) by simp
  have si: "Suc i \<le> n" using i by simp
  obtain s' where s': "mat_i get put m1 m2 (int n) ans (int (Suc i)) s1 = Some s'" "inv s'"
    "\<forall>h<n. \<forall>l<n. Suc i \<le> h \<longrightarrow> word_at s' (elem ans n h l) = dot A B h l n"
    "\<forall>b. own b \<longrightarrow> (\<forall>h<n. \<forall>l<n. sep (elem ans n h l) b) \<longrightarrow>
       (\<forall>h<n. \<forall>l<n. Suc i \<le> h \<longrightarrow> b \<noteq> elem ans n h l) \<longrightarrow> word_at s' b = word_at s1 b"
    using Suc.hyps(1) [OF dec s1(2) si A] by blast
  have run: "mat_i get put m1 m2 (int n) ans (int i) s = Some s'"
    using i s1(1) s'(1) by (simp add: mat_i.simps [of get put m1 m2 "int n" ans "int i"] add.commute)
  have row: "word_at s' (elem ans n i l) = dot A B i l n" if l: "l < n" for l
  proof -
    have "elem ans n i l \<noteq> elem ans n h m" if "h < n" "m < n" "Suc i \<le> h" for h m
      using elem_inj [of ans n i l h m] that l by auto
    then have "word_at s' (elem ans n i l) = word_at s1 (elem ans n i l)"
      using s'(4) own [OF i l] elem_sep by blast
    then show ?thesis using s1(3) l by simp
  qed
  have "word_at s' (elem ans n h l) = dot A B h l n" if "h < n" "l < n" "i \<le> h" for h l
    using row s'(3) that by (cases "h = i") auto
  moreover have "word_at s' b = word_at s b"
    if "own b" "\<forall>h<n. \<forall>l<n. sep (elem ans n h l) b" "\<forall>h<n. \<forall>l<n. i \<le> h \<longrightarrow> b \<noteq> elem ans n h l" for b
    using s'(4) s1(4) that i by auto
  ultimately show ?case using run s'(2) by blast
qed

end

section \<open>get_data and put_data give it\<close>

definition int_at :: "vm \<Rightarrow> nat \<Rightarrow> int" where
  "int_at s a = bytes_int (read_mem (amem s) a 4)"

definition owns_int :: "nat set \<Rightarrow> nat \<Rightarrow> bool" where
  "owns_int L a \<longleftrightarrow> a \<noteq> 0 \<and> a + 4 \<le> 2 ^ 32 \<and> (\<forall>x. a \<le> x \<and> x < a + 4 \<longrightarrow> x div 4096 \<in> L)"

lemma owns_int_owns: "owns_int L (unat a) \<Longrightarrow> a \<noteq> 0 \<and> owns L a 4"
  by (auto simp: owns_int_def owns_def)

lemma get_int_ok:
  assumes "vm_inv L s" "owns_int L (unat a)"
  shows "\<exists>s'. get_int c a s = Some (int_at s (unat a), s') \<and> vm_inv L s' \<and>
    (\<forall>b. owns_int L b \<longrightarrow> int_at s' b = int_at s b)"
proof -
  note own = owns_int_owns [OF assms(2)]
  have four: "(0 :: nat) < 4" "4 \<le> length (int_bytes 0)" by simp_all
  obtain s' where "get_data c (U2VA a) (Some (int_bytes 0)) (int 4) s =
      Some (Some (read_mem (amem s) (unat a) 4 @ drop 4 (int_bytes 0)), s')" "vm_inv L s'" "amem s' = amem s"
    using get_data_ok [OF assms(1) conjunct1 [OF own] four conjunct2 [OF own], of c] by metis
  then show ?thesis by (auto simp: get_int_def int_at_def)
qed

lemma put_int_ok:
  assumes "vm_inv L s" "owns_int L (unat a)" "int_ok x"
  shows "\<exists>s'. put_int c a x s = Some s' \<and> vm_inv L s' \<and>
    (\<forall>b. owns_int L b \<longrightarrow> sep (unat a) b \<longrightarrow> int_at s' b = (if b = unat a then x else int_at s b))"
proof -
  note own = owns_int_owns [OF assms(2)]
  have four: "(0 :: nat) < 4" "4 \<le> length (int_bytes x)" by simp_all
  obtain s' where s': "put_data c (U2VA a) (Some (int_bytes x)) (int 4) s = Some (0, s')" "vm_inv L s'"
    "\<forall>i. i div 4096 \<in> L \<longrightarrow> amem s' i = put_mem (amem s) (unat a) (take 4 (int_bytes x)) i"
    using put_data_ok [OF assms(1) conjunct1 [OF own] four conjunct2 [OF own], of c] by metis
  have eq: "read_mem (amem s') b 4 = read_mem (put_mem (amem s) (unat a) (int_bytes x)) b 4"
    if "owns_int L b" for b
    using s'(3) that by (intro read_mem_cong) (simp add: owns_int_def)
  have "int_at s' b = (if b = unat a then x else int_at s b)" if b: "owns_int L b" "sep (unat a) b" for b
  proof (cases "b = unat a")
    case True
    then show ?thesis
      using eq [OF b(1)] read_put_mem [of "amem s" "unat a" "int_bytes x"] bytes_int_bytes [OF assms(3)]
      by (simp add: int_at_def)
  next
    case False
    then have "read_mem (put_mem (amem s) (unat a) (int_bytes x)) b 4 = read_mem (amem s) b 4"
      using b(2) by (intro read_mem_cong) (auto simp: put_mem_def sep_def)
    then show ?thesis using eq [OF b(1)] False by (simp add: int_at_def)
  qed
  then show ?thesis using s'(1,2) by (auto simp: put_int_def)
qed

interpretation vmem: int_mem "get_int c" "put_int c" "vm_inv L" int_at "owns_int L"
  by unfold_locales (use get_int_ok put_int_ok in blast)+

section \<open>mat_mult multiplies matrices\<close>

text \<open>
  \<open>matrix_ready\<close>: the three square matrices are where the client owns memory, the answer
  overlaps neither factor, and the factors hold \<open>A\<close> and \<open>B\<close>.
\<close>

definition matrix_ready :: "nat set \<Rightarrow> nat \<Rightarrow> u64 \<Rightarrow> u64 \<Rightarrow> u64 \<Rightarrow> vm \<Rightarrow> bool" where
  "matrix_ready L n m1 m2 ans s \<longleftrightarrow> vm_inv L s \<and> 4 * (n * n) \<le> 2147483647 \<and>
     (\<forall>m\<in>{m1, m2, ans}. VA2U m \<noteq> 0 \<and> owns L (VA2U m) (4 * (n * n))) \<and>
     (\<forall>m\<in>{m1, m2}. unat (VA2U m) + 4 * (n * n) \<le> unat (VA2U ans) \<or>
        unat (VA2U ans) + 4 * (n * n) \<le> unat (VA2U m))"

lemma elem_in:
  assumes "i < n" "j < n"
  shows "unat (VA2U m) \<le> elem m n i j" "elem m n i j + 4 \<le> unat (VA2U m) + 4 * (n * n)"
proof -
  have "i * n + j < n * n" by (rule index_less [OF assms])
  then have "Suc (i * n + j) \<le> n * n" by simp
  then have "4 * Suc (i * n + j) \<le> 4 * (n * n)" by (rule mult_le_mono2)
  then have "4 * (i * n + j) + 4 \<le> 4 * (n * n)" by simp
  then show "unat (VA2U m) \<le> elem m n i j" "elem m n i j + 4 \<le> unat (VA2U m) + 4 * (n * n)"
    by (simp_all add: elem_def)
qed

lemma matrix_owned:
  assumes "VA2U m \<noteq> 0" "owns L (VA2U m) (4 * (n * n))" "i < n" "j < n"
  shows "owns_int L (elem m n i j)"
proof -
  note e = elem_in [OF assms(3,4), of m]
  have "unat (VA2U m) \<noteq> 0" using assms(1) by (simp add: unat_eq_0)
  then show ?thesis using assms(2) e unfolding owns_int_def owns_def by simp
qed

lemma matrix_apart:
  assumes "unat (VA2U m) + 4 * (n * n) \<le> unat (VA2U ans) \<or> unat (VA2U ans) + 4 * (n * n) \<le> unat (VA2U m)"
    and "i < n" "j < n" "k < n" "l < n"
  shows "sep (elem ans n i j) (elem m n k l) \<and> elem ans n i j \<noteq> elem m n k l"
  using assms(1) elem_in [OF assms(2,3), of ans] elem_in [OF assms(4,5), of m]
  unfolding sep_def by linarith

text \<open>
  C16. \<open>mat_mult\<close> on matrices of \<open>int\<close>s that the client owns returns, and every element of the
  answer is the element of the matrix product, when no product or partial sum overflows; the
  factors are left as they were.
\<close>

theorem mat_mult_correct:
  assumes ready: "matrix_ready L n m1 m2 ans s"
    and A: "\<forall>i<n. \<forall>k<n. int_at s (elem m1 n i k) = A i k"
    and B: "\<forall>i<n. \<forall>k<n. int_at s (elem m2 n i k) = B i k" and fit: "fits n A B"
  shows "\<exists>s'. mat_mult c m1 m2 (int n) ans s = Some s' \<and> vm_inv L s' \<and>
    (\<forall>i<n. \<forall>j<n. int_at s' (elem ans n i j) = (\<Sum>l<n. A i l * B l j)) \<and>
    (\<forall>i<n. \<forall>j<n. int_at s' (elem m1 n i j) = A i j \<and> int_at s' (elem m2 n i j) = B i j)"
proof -
  have sz: "4 * (n * n) \<le> 2147483647" "unat (VA2U m1) + 4 * (n * n) \<le> 2 ^ 32"
    "unat (VA2U m2) + 4 * (n * n) \<le> 2 ^ 32" "unat (VA2U ans) + 4 * (n * n) \<le> 2 ^ 32"
    and inv: "vm_inv L s" using ready by (auto simp: matrix_ready_def owns_def)
  have own: "owns_int L (elem m1 n i j) \<and> owns_int L (elem m2 n i j) \<and> owns_int L (elem ans n i j)"
    if "i < n" "j < n" for i j
    using ready matrix_owned [OF _ _ that] by (simp add: matrix_ready_def)
  have apart: "sep (elem ans n i j) (elem m1 n k l) \<and> elem ans n i j \<noteq> elem m1 n k l \<and>
      sep (elem ans n i j) (elem m2 n k l) \<and> elem ans n i j \<noteq> elem m2 n k l"
    if "i < n" "j < n" "k < n" "l < n" for i j k l
    using ready matrix_apart [OF _ that] by (simp add: matrix_ready_def)
  obtain s' where s': "mat_i (get_int c) (put_int c) m1 m2 (int n) ans (int 0) s = Some s'" "vm_inv L s'"
    "\<forall>h<n. \<forall>l<n. 0 \<le> h \<longrightarrow> int_at s' (elem ans n h l) = dot A B h l n"
    "\<forall>b. owns_int L b \<longrightarrow> (\<forall>h<n. \<forall>l<n. sep (elem ans n h l) b) \<longrightarrow>
       (\<forall>h<n. \<forall>l<n. 0 \<le> h \<longrightarrow> b \<noteq> elem ans n h l) \<longrightarrow> int_at s' b = int_at s b"
    using vmem.mat_i_ok [OF sz own apart fit inv, of 0 c] A B by blast
  have "int_at s' (elem m1 n i j) = A i j \<and> int_at s' (elem m2 n i j) = B i j" if "i < n" "j < n" for i j
    using s'(4) own [OF that] apart [OF _ _ that] A B that by metis
  then show ?thesis using s' by (auto simp: mat_mult_def dot_def)
qed

text \<open>Two 1x1 matrices, 6 and 7, side by side; the answer goes next to them.\<close>

theorem mat_mult_correct_witness:
  "\<exists>L v s s'. vm_inv L s \<and> int_at s (unat v) = 6 \<and> int_at s (unat v + 4) = 7 \<and>
     mat_mult good_libc (U2VA v) (U2VA (v + 4)) 1 (U2VA (v + 8)) s = Some s' \<and> int_at s' (unat v + 8) = 42"
proof -
  obtain L v s0 where s0: "vm_inv L s0" "v \<noteq> 0" "owns L v 8192" by (rule sample_owned)
  have lim: "unat v + 8192 \<le> 2 ^ 32" and pages: "\<And>a. unat v \<le> a \<Longrightarrow> a < unat v + 8192 \<Longrightarrow> a div 4096 \<in> L"
    using s0(3) by (auto simp: owns_def)
  have v0: "unat v \<noteq> 0" using s0(2) by (simp add: unat_eq_0)
  have u: "unat (v + 4) = unat v + 4" "unat (v + 8) = unat v + 8"
    using unat_offset [of v 4] unat_offset [of v 8] lim by simp_all
  have own: "owns_int L (unat v + k)" if "k \<le> 8" for k
    using that lim v0 pages by (simp add: owns_int_def)
  have o0: "owns_int L (unat v)" and o4: "owns_int L (unat (v + 4))" using own [of 0] own [of 4] u by simp_all
  obtain s1 where s1: "vm_inv L s1"
    "\<forall>b. owns_int L b \<longrightarrow> sep (unat v) b \<longrightarrow> int_at s1 b = (if b = unat v then 6 else int_at s0 b)"
    using put_int_ok [OF s0(1) o0, of 6 good_libc] by (auto simp: int_ok_def)
  obtain s where s: "vm_inv L s"
    "\<forall>b. owns_int L b \<longrightarrow> sep (unat (v + 4)) b \<longrightarrow> int_at s b = (if b = unat (v + 4) then 7 else int_at s1 b)"
    using put_int_ok [OF s1(1) o4, of 7 good_libc] by (auto simp: int_ok_def)
  have six: "int_at s (unat v) = 6" using s1(2) s(2) o0 u by (simp add: sep_def)
  have seven: "int_at s (unat v + 4) = 7" using s(2) o4 u by (simp add: sep_def)
  have nz: "v + 4 \<noteq> 0" "v + 8 \<noteq> 0" using u by (metis add_is_0 unsigned_0 zero_neq_numeral)+
  have "owns L w 4" if "w = v \<or> w = v + 4 \<or> w = v + 8" for w
    using that u lim pages by (auto simp: owns_def)
  then have "matrix_ready L 1 (U2VA v) (U2VA (v + 4)) (U2VA (v + 8)) s"
    using s(1) s0(2) nz u by (simp add: matrix_ready_def)
  moreover have "fits 1 (\<lambda>_ _. 6) (\<lambda>_ _. 7)" by (simp add: fits_def dot_def int_ok_def)
  ultimately obtain s' where "mat_mult good_libc (U2VA v) (U2VA (v + 4)) (int 1) (U2VA (v + 8)) s = Some s'"
    "int_at s' (elem (U2VA (v + 8)) 1 0 0) = 42"
    using mat_mult_correct [of L 1 "U2VA v" "U2VA (v + 4)" "U2VA (v + 8)" s "\<lambda>_ _. 6" "\<lambda>_ _. 7" good_libc]
      six seven u by (auto simp: elem_def)
  then show ?thesis using s(1) six seven u by (auto simp: elem_def)
qed

end
