(* ===== verification/VmSteps.thy ===== *)
theory VmSteps
  imports VmData
begin

text \<open>
  Whole runs of a client of \<open>project3/my_vm.c\<close>: any calls of \<open>n_malloc\<close>, \<open>n_free\<close>, \<open>put_data\<close> and
  \<open>get_data\<close>, whose answers are those of an abstract memory that has nothing but pages the client
  holds and the bytes in them.
\<close>

section \<open>Calls and their specification\<close>

datatype vm_call = Malloc u32 | Free u32 int | Put u32 "u8 list" | Get u32 "u8 list"

datatype vm_result = Pointer u64 | Freed | Stored int | Loaded "u8 list option"

fun vm_exec :: "libc \<Rightarrow> vm_call \<Rightarrow> vm \<Rightarrow> (vm_result \<times> vm) option" where
  "vm_exec c (Malloc b) s = do { (p, s) \<leftarrow> n_malloc c b s; Some (Pointer p, s) }"
| "vm_exec c (Free v n) s = do { s \<leftarrow> n_free c (U2VA v) n s; Some (Freed, s) }"
| "vm_exec c (Put v bs) s = do { (r, s) \<leftarrow> put_data c (U2VA v) (Some bs) (int (length bs)) s; Some (Stored r, s) }"
| "vm_exec c (Get v buf) s = do { (r, s) \<leftarrow> get_data c (U2VA v) (Some buf) (int (length buf)) s; Some (Loaded r, s) }"

record client =
  owned_pages :: "nat set"
  content :: "nat \<Rightarrow> u8 option"

definition client_of :: "nat set \<Rightarrow> vm \<Rightarrow> client" where
  "client_of L s = \<lparr>owned_pages = L, content = (\<lambda>a. if a div 4096 \<in> L then amem s a else None)\<rparr>"

text \<open>What the client may ask for: memory it holds, and no request of no bytes.\<close>

fun vm_call_ok :: "vm_call \<Rightarrow> client \<Rightarrow> bool" where
  "vm_call_ok (Malloc _) a \<longleftrightarrow> True"
| "vm_call_ok (Free v n) a \<longleftrightarrow> v \<noteq> 0 \<and> 0 < n \<and> freed_pages v n \<subseteq> owned_pages a"
| "vm_call_ok (Put v bs) a \<longleftrightarrow> v \<noteq> 0 \<and> bs \<noteq> [] \<and> owns (owned_pages a) v (length bs)"
| "vm_call_ok (Get v buf) a \<longleftrightarrow> v \<noteq> 0 \<and> buf \<noteq> [] \<and> owns (owned_pages a) v (length buf)"

text \<open>The pages held after a call with the answer \<open>r\<close>.\<close>

fun pages_after :: "vm_call \<Rightarrow> vm_result \<Rightarrow> nat set \<Rightarrow> nat set" where
  "pages_after (Malloc b) (Pointer p) L = (if p = 0 then L else L \<union> freed_pages (VA2U p) (uint b))"
| "pages_after (Free v n) _ L = L - freed_pages v n"
| "pages_after _ _ L = L"

fun vm_spec :: "vm_call \<Rightarrow> client \<Rightarrow> vm_result \<Rightarrow> client \<Rightarrow> bool" where
  "vm_spec (Malloc b) a r a' \<longleftrightarrow>
     r = Pointer 0 \<and> a' = a \<or>
     (\<exists>v. v \<noteq> 0 \<and> r = Pointer (U2VA v) \<and> owned_pages a \<inter> freed_pages v (uint b) = {} \<and>
        owns (freed_pages v (uint b)) v (4096 * pages_for b) \<and> owned_pages a' = owned_pages a \<union> freed_pages v (uint b) \<and>
        (\<forall>x. x div 4096 \<in> owned_pages a \<longrightarrow> content a' x = content a x))"
| "vm_spec (Free v n) a r a' \<longleftrightarrow> r = Freed \<and>
     a' = \<lparr>owned_pages = owned_pages a - freed_pages v n,
       content = (\<lambda>x. if x div 4096 \<in> freed_pages v n then None else content a x)\<rparr>"
| "vm_spec (Put v bs) a r a' \<longleftrightarrow> r = Stored 0 \<and> a' = a\<lparr>content := put_mem (content a) (unat v) bs\<rparr>"
| "vm_spec (Get v buf) a r a' \<longleftrightarrow> r = Loaded (Some (read_mem (content a) (unat v) (length buf))) \<and> a' = a"

section \<open>Every call does what its specification says\<close>

lemma freed_run_pages: "freed_pages (run_va start) (uint b) = run_pages start (pages_for b)"
  using freed_run [of start "uint b"] by simp

lemma malloc_refines:
  assumes inv: "vm_inv L s"
  shows "\<exists>r t M. vm_exec c (Malloc b) s = Some (r, t) \<and> M = pages_after (Malloc b) r L \<and> vm_inv M t \<and>
    vm_spec (Malloc b) (client_of L s) r (client_of M t)"
proof (cases rule: n_malloc_cases [OF inv, of c b])
  case (1 t)
  then show ?thesis by (intro exI [of _ "Pointer 0"] exI [of _ t]) (auto simp: client_of_def keeps_def)
next
  case (2 start t)
  let ?M = "L \<union> run_pages start (pages_for b)"
  have "owns (run_pages start (pages_for b)) (run_va start) (4096 * pages_for b)"
    by (rule run_va_contiguous [OF 2(4,11)])
  then have "vm_spec (Malloc b) (client_of L s) (Pointer (U2VA (run_va start))) (client_of ?M t)"
    using 2(2,5,9) unfolding vm_spec.simps
    by (intro disjI2 exI [of _ "run_va start"]) (simp add: client_of_def keeps_def freed_run_pages)
  moreover have "pages_after (Malloc b) (Pointer (U2VA (run_va start))) L = ?M"
    using 2(2) by (simp add: freed_run_pages)
  ultimately show ?thesis using 2(1,8) by auto
qed

lemma owns_index: "owns L v n \<Longrightarrow> unat v \<le> x \<Longrightarrow> x < unat v + n \<Longrightarrow> x div 4096 \<in> L"
  by (simp add: owns_def)

lemma vm_exec_refines:
  assumes inv: "vm_inv L s" and ok: "vm_call_ok call (client_of L s)"
  shows "\<exists>r t M. vm_exec c call s = Some (r, t) \<and> M = pages_after call r L \<and> vm_inv M t \<and>
    vm_spec call (client_of L s) r (client_of M t)"
proof (cases call)
  case (Malloc b)
  then show ?thesis using malloc_refines [OF inv] by blast
next
  case (Free v n)
  then have v: "v \<noteq> 0" "0 < n" "\<forall>m\<in>freed_pages v n. m \<in> L \<or> page_frame s m = None"
    using ok by (auto simp: client_of_def)
  obtain t where t: "n_free c (U2VA v) n s = Some t" "vm_inv (L - freed_pages v n) t" "keeps (L - freed_pages v n) s t"
    by (rule n_free_ok [OF inv v, of c])
  then have "vm_spec call (client_of L s) Freed (client_of (L - freed_pages v n) t)"
    using Free by (auto simp: client_of_def keeps_def fun_eq_iff)
  then show ?thesis using Free t(1,2) by auto
next
  case (Put v bs)
  then have v: "v \<noteq> 0" "0 < length bs" "owns L v (length bs)" using ok by (auto simp: client_of_def)
  obtain t where t: "put_data c (U2VA v) (Some bs) (int (length bs)) s = Some (0, t)" "vm_inv L t"
    "\<forall>a. a div 4096 \<in> L \<longrightarrow> amem t a = put_mem (amem s) (unat v) (take (length bs) bs) a"
    by (rule put_data_ok [OF inv v(1,2) order_refl v(3), of c])
  then have "client_of L t = (client_of L s)\<lparr>content := put_mem (content (client_of L s)) (unat v) bs\<rparr>"
    using owns_index [OF v(3)] by (auto simp: client_of_def fun_eq_iff put_mem_def)
  then show ?thesis using Put t(1,2) by auto
next
  case (Get v buf)
  then have v: "v \<noteq> 0" "0 < length buf" "owns L v (length buf)" using ok by (auto simp: client_of_def)
  obtain t where t: "get_data c (U2VA v) (Some buf) (int (length buf)) s =
      Some (Some (read_mem (amem s) (unat v) (length buf) @ drop (length buf) buf), t)" "vm_inv L t" "amem t = amem s"
    by (rule get_data_ok [OF inv v(1,2) order_refl v(3), of c])
  have "read_mem (amem s) (unat v) (length buf) = read_mem (content (client_of L s)) (unat v) (length buf)"
    by (rule read_mem_cong) (simp add: client_of_def owns_index [OF v(3)])
  moreover have "client_of L t = client_of L s" using t(3) by (simp add: client_of_def cong: if_cong)
  ultimately show ?thesis using Get t(1,2) by auto
qed

section \<open>Runs\<close>

inductive vm_trace :: "libc \<Rightarrow> nat set \<Rightarrow> vm \<Rightarrow> (vm_call \<times> vm_result) list \<Rightarrow> nat set \<Rightarrow> vm \<Rightarrow> bool" for c where
  stop: "vm_trace c L s [] L s"
| call: "vm_call_ok call (client_of L s) \<Longrightarrow> vm_exec c call s = Some (r, t) \<Longrightarrow>
    vm_trace c (pages_after call r L) t tr N u \<Longrightarrow> vm_trace c L s ((call, r) # tr) N u"

inductive_cases vm_trace_ConsE: "vm_trace c L s ((call, r) # tr) N u"
inductive_cases vm_trace_NilE: "vm_trace c L s [] N u"

lemma vm_trace_step:
  assumes "vm_inv L s" "vm_trace c L s ((call, r) # tr) N u"
  obtains t where "vm_exec c call s = Some (r, t)" "vm_inv (pages_after call r L) t"
    "vm_spec call (client_of L s) r (client_of (pages_after call r L) t)"
    "vm_trace c (pages_after call r L) t tr N u" "vm_call_ok call (client_of L s)"
  using assms(2)
proof (rule vm_trace_ConsE)
  fix t assume t: "vm_call_ok call (client_of L s)" "vm_exec c call s = Some (r, t)" "vm_trace c (pages_after call r L) t tr N u"
  from vm_exec_refines [OF assms(1) t(1), of c] t show ?thesis by (auto intro: that)
qed

text \<open>The calls that leave the \<open>n\<close> bytes from \<open>v\<close> on alone.\<close>

fun leaves_alone :: "u32 \<Rightarrow> nat \<Rightarrow> vm_call \<Rightarrow> bool" where
  "leaves_alone v n (Put w bs) \<longleftrightarrow> unat w + length bs \<le> unat v \<or> unat v + n \<le> unat w"
| "leaves_alone v n (Free w m) \<longleftrightarrow> (\<forall>x. unat v \<le> x \<and> x < unat v + n \<longrightarrow> x div 4096 \<notin> freed_pages w m)"
| "leaves_alone v n _ \<longleftrightarrow> True"

lemma left_alone:
  assumes "vm_spec call a r a'" "leaves_alone v n call" "owns (owned_pages a) v n"
  shows "owns (owned_pages a') v n" "\<forall>x. unat v \<le> x \<and> x < unat v + n \<longrightarrow> content a' x = content a x"
  using assms by (cases call; auto simp: owns_def put_mem_def)+

lemma vm_trace_keeps:
  assumes "vm_trace c L s tr N u" "vm_inv L s" "\<forall>(call, r) \<in> set tr. leaves_alone v n call" "owns L v n"
  shows "vm_inv N u \<and> owns N v n \<and>
    (\<forall>x. unat v \<le> x \<and> x < unat v + n \<longrightarrow> content (client_of N u) x = content (client_of L s) x)"
  using assms
proof (induction rule: vm_trace.induct)
  case (call cl L s r t tr N u)
  let ?M = "pages_after cl r L"
  have m: "vm_inv ?M t" "vm_spec cl (client_of L s) r (client_of ?M t)"
    using vm_exec_refines [OF call.prems(1) call.hyps(1), of c] call.hyps(2) by auto
  have l: "leaves_alone v n cl" and o: "owns (owned_pages (client_of L s)) v n"
    using call.prems(2,3) by (auto simp: client_of_def)
  note k = left_alone [OF m(2) l o]
  have "owns ?M v n" using k(1) by (simp add: client_of_def)
  from call.IH [OF m(1) _ this] call.prems(2) k(2) show ?case by simp
qed simp

lemma vm_trace_inv: "vm_trace c L s tr N u \<Longrightarrow> vm_inv L s \<Longrightarrow> vm_inv N u"
proof (induction rule: vm_trace.induct)
  case (call cl L s r t tr N u)
  then show ?case using vm_exec_refines [OF call.prems call.hyps(1), of c] by auto
qed

lemma vm_trace_split:
  "vm_trace c L s (tr @ tr') N u \<Longrightarrow> \<exists>M t. vm_trace c L s tr M t \<and> vm_trace c M t tr' N u"
proof (induction tr arbitrary: L s)
  case Nil
  then show ?case by (auto intro: vm_trace.stop)
next
  case (Cons p tr)
  obtain call r where p: "p = (call, r)" by fastforce
  from Cons.prems [unfolded p append_Cons] show ?case
  proof (rule vm_trace_ConsE)
    fix t assume t: "vm_call_ok call (client_of L s)" "vm_exec c call s = Some (r, t)"
      "vm_trace c (pages_after call r L) t (tr @ tr') N u"
    from Cons.IH [OF t(3)] t(1,2) show ?thesis unfolding p by (blast intro: vm_trace.call)
  qed
qed

text \<open>
  C2. Every call a client may make succeeds and answers as the abstract memory does: an allocation gives
  \<open>NULL\<close> or pages the client did not hold and leaves the bytes it holds, a release takes its pages away
  and no others, a write changes exactly its bytes and a read returns them.
\<close>

theorem vm_calls_refine:
  assumes "vm_inv L s" "vm_call_ok call (client_of L s)"
  shows "\<exists>r t M. vm_exec c call s = Some (r, t) \<and> M = pages_after call r L \<and> vm_inv M t \<and>
    vm_spec call (client_of L s) r (client_of M t)"
  by (rule vm_exec_refines [OF assms])

text \<open>
  C4. Written bytes stay: in every run of a client, from the static state on, a read of bytes written
  earlier returns what was written, whatever allocations, releases, reads and writes come before and between, as
  long as none of those in between writes the same bytes or releases their pages.
\<close>

theorem written_bytes_stay:
  assumes boot: "callocs_ok c" "ensure_vm_init c vm_boot = Some s"
    and run: "vm_trace c {} s (before @ (Put v bs, r) # between @ [(Get v buf, r')]) N u"
    and alone: "\<forall>(call, r) \<in> set between. leaves_alone v (length bs) call" and len: "length buf = length bs"
  shows "r = Stored 0 \<and> r' = Loaded (Some bs)"
proof -
  have inv: "vm_inv {} s" using init_booted [OF boot(1)] boot booted_inv by (simp add: callocs_ok_def)
  from vm_trace_split [OF run] obtain L1 s1 where 1: "vm_trace c {} s before L1 s1"
    "vm_trace c L1 s1 ((Put v bs, r) # between @ [(Get v buf, r')]) N u" by blast
  have inv1: "vm_inv L1 s1" by (rule vm_trace_inv [OF 1(1) inv])
  from vm_trace_step [OF inv1 1(2)] obtain s2 where 2: "vm_inv L1 s2"
    "vm_spec (Put v bs) (client_of L1 s1) r (client_of L1 s2)" "vm_trace c L1 s2 (between @ [(Get v buf, r')]) N u"
    "vm_call_ok (Put v bs) (client_of L1 s1)" by auto
  from vm_trace_split [OF 2(3)] obtain L3 s3 where 3: "vm_trace c L1 s2 between L3 s3"
    "vm_trace c L3 s3 [(Get v buf, r')] N u" by blast
  have own: "owns L1 v (length bs)" using 2(4) by (simp add: client_of_def)
  note k = vm_trace_keeps [OF 3(1) 2(1) alone own]
  from vm_trace_step [OF conjunct1 [OF k] 3(2)] obtain s4 where
    4: "vm_spec (Get v buf) (client_of L3 s3) r' (client_of L3 s4)" by auto
  have "read_mem (content (client_of L3 s3)) (unat v) (length bs) =
      read_mem (put_mem (content (client_of L1 s1)) (unat v) bs) (unat v) (length bs)"
    using k 2(2) by (intro read_mem_cong) simp
  then show ?thesis using 2(2) 4 len by (simp add: read_put_mem)
qed

lemma vm_calls_refine_witness:
  "\<exists>r t M. vm_exec good_libc (Malloc 8192) (booted 4096) = Some (r, t) \<and> vm_inv M t"
proof -
  have "vm_call_ok (Malloc 8192) (client_of {} (booted 4096))" by simp
  from vm_calls_refine [OF booted_4096 this, of good_libc] show ?thesis by blast
qed

text \<open>A client that allocates, writes, allocates again and reads what it wrote.\<close>

lemma sample_run:
  obtains v q r r' N u where "vm_trace good_libc {} (booted 4096)
    ([(Malloc 8192, Pointer (U2VA v))] @ (Put v [1, 2, 3], r) # [(Malloc 50, q)] @ [(Get v [0, 0, 0], r')]) N u"
proof -
  let ?c = good_libc
  obtain start s1 where a: "n_malloc ?c 8192 (booted 4096) = Some (U2VA (run_va start), s1)"
    "run_va start \<noteq> 0" "vm_inv (run_pages start 2) s1" "start + 2 \<le> NUM_VIRT_PAGES"
    "\<forall>j<2. run_va (start + j) \<noteq> 0" by (rule sample_alloc)
  let ?v = "run_va start" and ?L = "run_pages start 2"
  have "pages_for 8192 = 2" by (simp add: pages_for_def PGSIZE_def)
  then have L: "pages_after (Malloc 8192) (Pointer (U2VA ?v)) {} = ?L"
    using a(2) freed_run_pages [of start 8192] by simp
  have own: "owns ?L ?v (Suc (Suc (Suc 0)))" by (rule owns_mono [OF run_va_contiguous [OF a(4,5)]]) simp_all
  let ?put = "Put ?v [1, 2, 3]" and ?get = "Get ?v [0, 0, 0]"
  have put: "vm_call_ok ?put (client_of ?L s1)" using a(2) own by (simp add: client_of_def)
  from vm_exec_refines [OF a(3) put, of ?c] obtain r s2 where s2: "vm_exec ?c ?put s1 = Some (r, s2)" "vm_inv ?L s2" by auto
  have mal: "vm_call_ok (Malloc 50) (client_of ?L s2)" by simp
  from vm_exec_refines [OF s2(2) mal, of ?c] obtain q s3 where s3: "vm_exec ?c (Malloc 50) s2 = Some (q, s3)"
    "vm_inv (pages_after (Malloc 50) q ?L) s3"
    "vm_spec (Malloc 50) (client_of ?L s2) q (client_of (pages_after (Malloc 50) q ?L) s3)" by blast
  let ?M = "pages_after (Malloc 50) q ?L"
  have "owns ?M ?v (Suc (Suc (Suc 0)))" using left_alone(1) [OF s3(3), of ?v "Suc (Suc (Suc 0))"] own by (simp add: client_of_def)
  then have get: "vm_call_ok ?get (client_of ?M s3)" using a(2) by (simp add: client_of_def)
  from vm_exec_refines [OF s3(2) get, of ?c] obtain r' s4 where s4: "vm_exec ?c ?get s3 = Some (r', s4)" by auto
  have "vm_trace ?c ?M s3 [(?get, r')] (pages_after ?get r' ?M) s4"
    by (rule vm_trace.call [OF get s4 vm_trace.stop])
  from vm_trace.call [OF mal s3(1) this]
  have "vm_trace ?c (pages_after ?put r ?L) s2 [(Malloc 50, q), (?get, r')] (pages_after ?get r' ?M) s4" by simp
  from vm_trace.call [OF put s2(1) this]
  have "vm_trace ?c (pages_after (Malloc 8192) (Pointer (U2VA ?v)) {}) s1
    [(?put, r), (Malloc 50, q), (?get, r')] (pages_after ?get r' ?M) s4" unfolding L .
  moreover have "vm_call_ok (Malloc 8192) (client_of {} (booted 4096))" by simp
  moreover have "vm_exec ?c (Malloc 8192) (booted 4096) = Some (Pointer (U2VA ?v), s1)" using a(1) by simp
  ultimately have "vm_trace ?c {} (booted 4096)
    [(Malloc 8192, Pointer (U2VA ?v)), (?put, r), (Malloc 50, q), (?get, r')] (pages_after ?get r' ?M) s4"
    by (rule vm_trace.call [rotated 2])
  then show ?thesis by (rule that [unfolded append_Cons append_Nil])
qed

lemma written_bytes_stay_witness:
  "\<exists>s tr v N u. ensure_vm_init good_libc vm_boot = Some s \<and>
    vm_trace good_libc {} s (tr @ [(Get v [0, 0, 0], Loaded (Some [1, 2, 3]))]) N u"
proof -
  have ok: "callocs_ok good_libc" by (simp add: callocs_ok_def good_libc_def vm_consts)
  have b: "ensure_vm_init good_libc vm_boot = Some (booted 4096)" using init_booted [OF ok] by (simp add: good_libc_def)
  obtain v q r r' N u where t: "vm_trace good_libc {} (booted 4096)
    ([(Malloc 8192, Pointer (U2VA v))] @ (Put v [1, 2, 3], r) # [(Malloc 50, q)] @ [(Get v [0, 0, 0], r')]) N u"
    by (rule sample_run)
  have "r' = Loaded (Some [1, 2, 3])" using written_bytes_stay [OF ok b t] by simp
  then have "vm_trace good_libc {} (booted 4096)
    (([(Malloc 8192, Pointer (U2VA v))] @ (Put v [1, 2, 3], r) # [(Malloc 50, q)]) @
      [(Get v [0, 0, 0], Loaded (Some [1, 2, 3]))]) N u" using t by simp
  then show ?thesis using b by blast
qed

end
