(* ===== verification/VmRace.thy ===== *)
theory VmRace
  imports VmData
begin

text \<open>
  Two threads in \<open>project3/my_vm.c\<close>. \<open>n_free\<close> clears the bits of a page under the lock, and its
  page-table entry and the TLB only afterwards; an \<open>n_malloc\<close> of another thread in between is given
  the page while it is still mapped.
\<close>

section \<open>The two halves of the loop body of n_free\<close>

text \<open>Up to the release of \<open>vm_lock\<close>; the result is the page table, if the page is mapped.\<close>

definition free_bits :: "u32 \<Rightarrow> vm \<Rightarrow> (u64 option \<times> vm) option" where
  "free_bits curr_va32 s = do {
     let pd_index = PDX curr_va32;
     let pt_index = PTX curr_va32;
     pde \<leftarrow> dir_entry s pd_index;
     if pde AND PTE_PRESENT = 0 then Some (None, s)
     else do {
       let pt_frame = drop_bit PFN_SHIFT pde;
       let pt = phys_mem s + push_bit PFN_SHIFT (ucast pt_frame);
       pte \<leftarrow> load32 s (pt + 4 * ucast pt_index);
       if pte AND PTE_PRESENT = 0 then Some (None, s)
       else do {
         let frame = drop_bit PFN_SHIFT pte;
         s \<leftarrow> lock_vm s;
         ensure (unat frame < capacity (phys_bitmap s));
         let s = unlock_vm (s\<lparr>phys_bitmap := BIT_CLEAR (phys_bitmap s) (unat frame)\<rparr>);
         let virt_index = int (unat ((curr_va32 - VA_BASE) div of_nat PGSIZE));
         s \<leftarrow> (if 0 \<le> virt_index then do {
                 s \<leftarrow> lock_vm s;
                 ensure (nat virt_index < capacity (virt_bitmap s));
                 Some (unlock_vm (s\<lparr>virt_bitmap := BIT_CLEAR (virt_bitmap s) (nat virt_index)\<rparr>))
               } else Some s);
         Some (Some pt, s)
       }
     }
   }"

definition free_entry :: "u32 \<Rightarrow> u64 \<Rightarrow> vm \<Rightarrow> vm option" where
  "free_entry curr_va32 pt s = do {
     s \<leftarrow> store32 (pt + 4 * ucast (PTX curr_va32)) 0 s;
     s \<leftarrow> lock_tlb s;
     let page = drop_bit PFN_SHIFT curr_va32;
     let s = s\<lparr>tlbGlobal := map (\<lambda>e. if valid e \<and> vpn e = page then e\<lparr>valid := False\<rparr> else e)
                           (tlbGlobal s)\<rparr>;
     Some (unlock_tlb s)
   }"

text \<open>Without another thread in between they are the loop body.\<close>

lemma free_page_halves:
  "free_page v s = do {
     (pt, t) \<leftarrow> free_bits v s;
     case pt of None \<Rightarrow> Some t | Some pt \<Rightarrow> free_entry v pt t
   }"
  unfolding free_page_def free_bits_def free_entry_def Let_def
  by (auto intro!: Option.bind_cong split: Option.bind_split)

section \<open>Between the halves\<close>

definition half_freed :: "vm \<Rightarrow> nat \<Rightarrow> nat \<Rightarrow> vm" where
  "half_freed s i f = s\<lparr>phys_bitmap := BIT_CLEAR (phys_bitmap s) f, virt_bitmap := BIT_CLEAR (virt_bitmap s) i\<rparr>"

lemma free_bits_live:
  assumes ok: "vm_ok s" and f: "page_frame s (page_of v) = Some f"
  obtains t where "free_bits v s = Some (Some (phys_mem s + push_bit PFN_SHIFT (of_nat t)), half_freed s (virt_index_of v) f)"
    "table_frame s (page_of v div 1024) = Some t"
proof -
  obtain pde where pde: "dir_entry s (PDX v) = Some pde"
    "table_frame s (page_of v div 1024) =
      (if pde AND PTE_PRESENT = 0 then None else Some (unat (drop_bit PFN_SHIFT pde)))"
    by (rule dir_entry_ok [OF ok])
  have "table_frame s (page_of v div 1024) \<noteq> None" using f by (auto simp: page_frame_def split: option.splits)
  then have p: "pde AND PTE_PRESENT \<noteq> 0" using pde(2) by auto
  let ?t = "unat (drop_bit PFN_SHIFT pde)"
  let ?e = "entry_at s ?t (page_of v mod 1024)"
  have t: "table_frame s (page_of v div 1024) = Some ?t" using p pde by simp
  have tb: "?t < NUM_PHYS_PAGES" using tables_used [OF ok t] by blast
  have ld: "load32 s (phys_mem s + push_bit PFN_SHIFT (of_nat ?t) + 4 * ucast (PTX v)) = Some ?e"
    by (rule load_entry_nat [OF tb])
  have base: "(push_bit PFN_SHIFT (ucast (drop_bit PFN_SHIFT pde)) :: u64) = push_bit PFN_SHIFT (of_nat ?t)"
    by (rule frame_shift_of_nat)
  have e: "?e AND PTE_PRESENT \<noteq> 0" "unat (drop_bit PFN_SHIFT ?e) = f"
    using f t by (auto simp: page_frame_def split: if_splits)
  have fb: "f < capacity (phys_bitmap s)" using pages_in_memory [OF ok f] phys_capacity [OF ok] by simp
  have vb: "virt_index_of v < capacity (virt_bitmap s)" using virt_index_bound virt_capacity [OF ok] by simp
  have "free_bits v s = Some (Some (phys_mem s + push_bit PFN_SHIFT (of_nat ?t)), half_freed s (virt_index_of v) f)"
    using pde(1) p e ld base fb vb vm_ok_fields(2) [OF ok]
    by (cases s) (simp add: free_bits_def half_freed_def Let_def lock_vm_def unlock_vm_def
        virt_index_of_def [symmetric] del: of_nat_unat cong: if_cong)
  then show ?thesis using t by (rule that)
qed

lemma one_page_refused:
  assumes "\<not> vm_lock s" "alloc_phys_frame s = Some (int g, s\<lparr>phys_bitmap := pb\<rparr>)"
    and "map_page c (U2VA (run_va i)) (phys_mem s + push_bit PFN_SHIFT (of_nat g)) (s\<lparr>phys_bitmap := pb\<rparr>) =
      Some (-1, s\<lparr>phys_bitmap := pb\<rparr>)"
    and "free_frames [int g] (Suc 0) (s\<lparr>phys_bitmap := pb\<rparr>) = Some s'"
  shows "malloc_loop c (U2VA (run_va i)) (Suc 0) 0 [-1] s = Some (0, s')"
  using assms alloc_under_lock [OF assms(1,2)]
  by (simp add: malloc_loop.simps [of c "U2VA (run_va i)" "Suc 0" 0] lock_vm_def Let_def
      del: free_frames.simps cong: if_cong)

text \<open>The calling thread of \<open>n_malloc\<close> finds the page, and \<open>map_page\<close> refuses to map it.\<close>

lemma malloc_between:
  assumes inv: "vm_inv L s" and i: "i < NUM_VIRT_PAGES" "run_va i \<noteq> 0" "virt_page i \<in> L"
    and f: "page_frame s (virt_page i) = Some f" and low: "\<forall>j<i. bit_at (virt_bitmap s) j"
    and b: "b \<noteq> 0" "pages_for b = 1" "malloc_ok c 4"
  obtains pb vb where "n_malloc c b (half_freed s i f) = Some (0, s\<lparr>phys_bitmap := pb, virt_bitmap := vb\<rparr>)"
    "vm_ok (s\<lparr>phys_bitmap := pb, virt_bitmap := vb\<rparr>)" "\<forall>j<NUM_VIRT_PAGES. bit_at vb j = bit_at (virt_bitmap s) j"
proof -
  have ok: "vm_ok s" by (rule vm_inv_ok [OF inv])
  let ?u = "half_freed s i f"
  obtain f' where f': "page_frame s (virt_page i) = Some f'" "f' < NUM_PHYS_PAGES" "bit_at (phys_bitmap s) f'"
    "\<forall>d. table_frame s d \<noteq> Some f'" by (rule live_frame [OF inv i(3)])
  then have ff: "f < NUM_PHYS_PAGES" "\<And>d. table_frame s d \<noteq> Some f" using f by auto
  have cap: "capacity (phys_bitmap s) = NUM_PHYS_PAGES" "capacity (virt_bitmap s) = NUM_VIRT_PAGES"
    using phys_capacity [OF ok] virt_capacity [OF ok] by simp_all
  have ui: "vm_initialized ?u" "\<not> vm_lock ?u" "capacity (virt_bitmap ?u) = NUM_VIRT_PAGES"
    using vm_ok_fields(1,2) [OF ok] cap(2) by (simp_all add: half_freed_def)
  have ub: "bit_at (virt_bitmap ?u) j \<longleftrightarrow> bit_at (virt_bitmap s) j \<and> j \<noteq> i" if "j < NUM_VIRT_PAGES" for j
    using that i(1) cap(2) by (auto simp: half_freed_def bit_at_clear)
  have one: "1 \<le> NUM_VIRT_PAGES" using i(1) by linarith
  define vb where "vb = mark_run (virt_bitmap ?u) i 1"
  have got: "get_next_avail c (int 1) ?u = Some (U2VA (run_va i), ?u\<lparr>virt_bitmap := vb\<rparr>)"
  proof (cases rule: get_next_avail_unlocked [OF ui one, of c])
    case 1
    then show ?thesis using 1(2) [of i] i(1) ub [OF i(1)] by simp
  next
    case (2 start)
    have s: "start < NUM_VIRT_PAGES" "\<not> bit_at (virt_bitmap ?u) start" using 2(2) 2(3) [of 0] by simp_all
    have "\<not> start < i" using low ub [OF s(1)] s(2) by auto
    moreover have "\<not> i < start" using 2(4) [of i] ub [OF i(1)] by auto
    ultimately have "start = i" by simp
    then show ?thesis using 2(1) by (simp add: vb_def)
  qed
  have vbits: "\<forall>j<NUM_VIRT_PAGES. bit_at vb j = bit_at (virt_bitmap s) j"
  proof (intro allI impI)
    fix j assume j: "j < NUM_VIRT_PAGES"
    have set: "bit_at (virt_bitmap s) i" using ok i(1) f by (auto simp: vm_ok_def virt_ok_def)
    have "bit_at vb j \<longleftrightarrow> i \<le> j \<and> j < i + 1 \<or> bit_at (virt_bitmap ?u) j"
      unfolding vb_def by (rule mark_run_bits) (use i(1) j ui(3) in simp_all)
    then show "bit_at vb j = bit_at (virt_bitmap s) j" using ub [OF j] set by (cases "j = i") auto
  qed
  have lvb: "length vb = length (virt_bitmap s)" by (simp add: vb_def half_freed_def)
  have good: "vm_ok (s\<lparr>phys_bitmap := pb, virt_bitmap := vb\<rparr>)"
    if "length pb = length (phys_bitmap s)" "\<And>d g. table_frame s d = Some g \<Longrightarrow> bit_at pb g" for pb
  proof -
    have "vm_ok (s\<lparr>phys_bitmap := pb\<rparr>)" by (rule vm_ok_phys_bits [OF ok that])
    then have "vm_ok (s\<lparr>phys_bitmap := pb\<rparr>\<lparr>virt_bitmap := vb\<rparr>)"
      by (rule vm_ok_virt_bits) (use lvb vbits ok in \<open>auto simp: phys_bits_views vm_ok_def virt_ok_def\<close>)
    then show ?thesis by simp
  qed
  define pb where "pb = BIT_CLEAR (phys_bitmap s) f"
  let ?s1 = "s\<lparr>phys_bitmap := pb, virt_bitmap := vb\<rparr>"
  have s1: "?u\<lparr>virt_bitmap := vb\<rparr> = ?s1" by (simp add: half_freed_def pb_def)
  have lpb: "length pb = length (phys_bitmap s)" by (simp add: pb_def)
  have used: "bit_at pb g" if "table_frame s d = Some g" for d g
    using tables_used [OF ok that] ff that cap(1) by (auto simp: pb_def bit_at_clear)
  have ok1: "vm_ok ?s1" by (rule good [OF lpb used])
  have nf: "\<not> bit_at (phys_bitmap ?s1) f" using ff(1) cap(1) by (simp add: pb_def bit_at_clear)
  have cap1: "NUM_PHYS_PAGES \<le> capacity (phys_bitmap ?s1)" using phys_capacity [OF ok1] by simp
  obtain g where g: "alloc_phys_frame ?s1 = Some (int g, ?s1\<lparr>phys_bitmap := BIT_SET pb g\<rparr>)" "g < NUM_PHYS_PAGES" "\<not> bit_at pb g"
    by (rule alloc_phys_frame_cases [OF cap1]) (use nf ff(1) in auto)
  let ?s2 = "?s1\<lparr>phys_bitmap := BIT_SET pb g\<rparr>"
  have used2: "bit_at (BIT_SET pb g) h" if "table_frame s d = Some h" for d h
    using used [OF that] tables_used [OF ok that] g(2) lpb cap(1) by (auto simp: bit_at_set)
  have swap: "?s1\<lparr>phys_bitmap := x\<rparr> = s\<lparr>phys_bitmap := x, virt_bitmap := vb\<rparr>" for x by (cases s) simp
  have ok2: "vm_ok ?s2" unfolding swap by (rule good) (use used2 lpb in simp_all)
  have "page_frame ?s2 = page_frame s" "table_frame ?s2 = table_frame s"
    by (intro ext page_frame_cong table_frame_cong; simp)+
  moreover obtain t where "table_frame s (virt_page i div 1024) = Some t"
    using f by (auto simp: page_frame_def split: option.splits)
  ultimately have map: "map_page c (U2VA (run_va i)) (frame_ptr ?s2 g) ?s2 = Some (-1, ?s2)"
    using map_page_entry [OF ok2 run_va_aligned i(2) g(2), of t c] f by (simp add: page_of_run_va)
  have clean: "\<exists>pb'. free_frames [int g] 1 ?s2 = Some (?s2\<lparr>phys_bitmap := pb'\<rparr>) \<and>
      length pb' = length (phys_bitmap ?s2) \<and>
      (\<forall>h<NUM_PHYS_PAGES. bit_at pb' h \<longleftrightarrow> bit_at (phys_bitmap ?s2) h \<and> (\<forall>k<1. [int g] ! k \<noteq> int h))"
    by (rule free_frames_run) (use vm_ok_fields(2) [OF ok2] phys_capacity [OF ok2] g(2) in simp_all)
  then obtain pb' where pb': "free_frames [int g] 1 ?s2 = Some (?s2\<lparr>phys_bitmap := pb'\<rparr>)"
    "length pb' = length (phys_bitmap s)"
    "\<forall>h<NUM_PHYS_PAGES. bit_at pb' h \<longleftrightarrow> bit_at (BIT_SET pb g) h \<and> h \<noteq> g"
    using lpb by auto
  have fin: "?s2\<lparr>phys_bitmap := pb'\<rparr> = s\<lparr>phys_bitmap := pb', virt_bitmap := vb\<rparr>" by (cases s) simp
  have ptr: "phys_mem ?s1 + push_bit PFN_SHIFT (of_nat g) = frame_ptr ?s2 g"
    using frame_ptr_off(3) [OF ok2 g(2)] by simp
  have "malloc_loop c (U2VA (run_va i)) (Suc 0) 0 [-1] ?s1 = Some (0, ?s2\<lparr>phys_bitmap := pb'\<rparr>)"
    by (rule one_page_refused [OF vm_ok_fields(2) [OF ok1] g(1)]) (use map pb'(1) ptr in \<open>simp_all only: One_nat_def\<close>)
  then have "n_malloc c b ?u = Some (0, s\<lparr>phys_bitmap := pb', virt_bitmap := vb\<rparr>)"
    using got b ui(1) i(2) s1 fin by (simp add: n_malloc_def)
  moreover have "vm_ok (s\<lparr>phys_bitmap := pb', virt_bitmap := vb\<rparr>)"
  proof (rule good [OF pb'(2)])
    fix d h assume t: "table_frame s d = Some h"
    have "bit_at pb h" by (rule used [OF t])
    moreover have "h < NUM_PHYS_PAGES" using tables_used [OF ok t] by blast
    moreover have "h \<noteq> g" using g(3) calculation(1) by blast
    ultimately show "bit_at pb' h" using pb'(3) lpb cap(1) g(2) by (simp add: bit_at_set)
  qed
  ultimately show ?thesis using vbits by (rule that)
qed

lemma free_entry_run:
  assumes ok: "vm_ok s" and t: "table_frame s (page_of v div 1024) = Some t"
  obtains s' where "free_entry v (phys_mem s + push_bit PFN_SHIFT (of_nat t)) s = Some s'"
    "page_frame s' = (page_frame s)(page_of v := None)" "virt_bitmap s' = virt_bitmap s"
proof -
  have tb: "t < NUM_PHYS_PAGES" using tables_used [OF ok t] by blast
  have ts: "tables_ok s" using ok by (simp add: vm_ok_def)
  let ?s = "(set_pte s t (page_of v) 0)\<lparr>tlb_lock := False, tlbGlobal := invalidate (drop_bit PFN_SHIFT v) (tlbGlobal s)\<rparr>"
  have "free_entry v (phys_mem s + push_bit PFN_SHIFT (of_nat t)) s = Some ?s"
    using store_entry_nat [OF tb, of s v 0] vm_ok_fields(3) [OF ok]
    by (cases s) (simp add: free_entry_def lock_tlb_def unlock_tlb_def set_pte_def invalidate_def Let_def)
  moreover have "page_frame ?s = page_frame (set_pte s t (page_of v) 0)"
    by (intro ext page_frame_cong) simp_all
  then have "page_frame ?s = (page_frame s)(page_of v := None)" using set_pte_views(2) [OF ts t, of 0] by simp
  moreover have "virt_bitmap ?s = virt_bitmap s" by (simp add: set_pte_def)
  ultimately show ?thesis by (rule that)
qed

section \<open>The lost page\<close>

text \<open>
  C32. \<open>n_free\<close> of a page below which every virtual page is taken, with an \<open>n_malloc\<close> of one page by another
  thread between the release of \<open>vm_lock\<close> and the clearing of the page-table entry: the
  \<open>n_malloc\<close> returns \<open>NULL\<close> whatever memory is free, and at the end the page is mapped nowhere
  but still marked in the virtual bitmap, so that it is never given out again.
\<close>

theorem free_malloc_race:
  assumes inv: "vm_inv L s" and i: "i < NUM_VIRT_PAGES" "run_va i \<noteq> 0" "virt_page i \<in> L"
    and low: "\<forall>j<i. bit_at (virt_bitmap s) j" and b: "b \<noteq> 0" "pages_for b = 1" "malloc_ok c 4"
  shows "\<exists>pt s1 s2 s3. free_bits (run_va i) s = Some (Some pt, s1) \<and> n_malloc c b s1 = Some (0, s2) \<and>
    free_entry (run_va i) pt s2 = Some s3 \<and> page_frame s3 (virt_page i) = None \<and> bit_at (virt_bitmap s3) i"
proof -
  have ok: "vm_ok s" by (rule vm_inv_ok [OF inv])
  obtain f where f: "page_frame s (virt_page i) = Some f" by (rule live_frame [OF inv i(3)])
  then have f': "page_frame s (page_of (run_va i)) = Some f" by (simp add: page_of_run_va)
  have "virt_index_of (run_va i) = i"
    using virt_page_inj [OF virt_index_bound i(1)] virt_page_index by (simp add: page_of_run_va)
  then obtain t where t: "free_bits (run_va i) s =
      Some (Some (phys_mem s + push_bit PFN_SHIFT (of_nat t)), half_freed s i f)"
    "table_frame s (page_of (run_va i) div 1024) = Some t"
    using free_bits_live [OF ok f'] by metis
  obtain pb vb where m: "n_malloc c b (half_freed s i f) = Some (0, s\<lparr>phys_bitmap := pb, virt_bitmap := vb\<rparr>)"
    "vm_ok (s\<lparr>phys_bitmap := pb, virt_bitmap := vb\<rparr>)" "\<forall>j<NUM_VIRT_PAGES. bit_at vb j = bit_at (virt_bitmap s) j"
    by (rule malloc_between [OF inv i f low b])
  let ?s2 = "s\<lparr>phys_bitmap := pb, virt_bitmap := vb\<rparr>"
  have "table_frame ?s2 (page_of (run_va i) div 1024) = Some t" using t(2) table_frame_cong [of ?s2 s] by simp
  then obtain s3 where s3: "free_entry (run_va i) (phys_mem ?s2 + push_bit PFN_SHIFT (of_nat t)) ?s2 = Some s3"
    "page_frame s3 = (page_frame ?s2)(page_of (run_va i) := None)" "virt_bitmap s3 = virt_bitmap ?s2"
    by (rule free_entry_run [OF m(2)])
  have "bit_at (virt_bitmap s) i" using ok i(1) f by (auto simp: vm_ok_def virt_ok_def)
  then have "bit_at (virt_bitmap s3) i" using m(3) i(1) s3(3) by simp
  moreover have "page_frame s3 (virt_page i) = None" using s3(2) by (simp add: page_of_run_va)
  ultimately show ?thesis using t(1) m(1) s3(1) by auto
qed

theorem free_malloc_race_witness:
  "\<exists>L s pt s1 s2 s3. vm_inv L s \<and> free_bits (run_va 0) s = Some (Some pt, s1) \<and>
    n_malloc good_libc 4096 s1 = Some (0, s2) \<and> free_entry (run_va 0) pt s2 = Some s3 \<and>
    bit_at (virt_bitmap s3) 0"
proof (cases rule: n_malloc_cases [OF booted_4096, of good_libc 4096])
  have one: "pages_for 4096 = 1" by (simp add: pages_for_def PGSIZE_def)
  {
    case 1
    from 1(4) have False
      using booted_clear booted_free [of 4096] by (auto simp: one good_libc_def vm_consts)
    then show ?thesis ..
  next
    case (2 start s1)
    have "start = 0" using 2(4,7) booted_clear by (cases start) (auto simp: one)
    then have s1: "n_malloc good_libc 4096 (booted 4096) = Some (U2VA (run_va 0), s1)" "run_va 0 \<noteq> 0"
      "vm_inv (run_pages 0 1) s1" using 2(1,2,8) by (simp_all add: one)
    have mem: "virt_page 0 \<in> run_pages 0 1" using run_pages_mem [of 0 1 0] by simp
    have b: "(4096 :: u32) \<noteq> 0" "malloc_ok good_libc 4" "0 < NUM_VIRT_PAGES" "\<forall>j<0. bit_at (virt_bitmap s1) j"
      by (simp_all add: good_libc_def vm_consts)
    show ?thesis
      using free_malloc_race [OF s1(3) b(3) s1(2) mem b(4) b(1) one b(2)] s1(3) by blast
  }
qed

end
