(* ===== verification/FsDisk.thy ===== *)
theory FsDisk
  imports Bitmap
begin

text \<open>
  The disk layer of project 4: the block device of \<open>block.c\<close>, the on-disk layout of the
  superblock, inodes and directory entries of \<open>rufs.h\<close>, and the bitmap and inode operations at
  the head of \<open>rufs.c\<close>.

  The disk file is a map from block numbers to blocks of 4096 bytes; a block never written, or
  past the end of the file, reads as zeros, as \<open>bio_read\<close> delivers it. Structures are laid out as
  the x86-64 ABI does, integers little-endian: an inode takes 256 bytes (its \<open>struct stat\<close> 144
  of them, kept as bytes), a directory entry 214. \<^term>\<open>None\<close> is an access outside a buffer.
\<close>

section \<open>block.c\<close>

definition BLOCK_SIZE :: nat where "BLOCK_SIZE = 4096"
definition DISK_SIZE :: nat where "DISK_SIZE = 32 * 1024 * 1024"

type_synonym block = "u8 list"

definition zero_blk :: block where
  "zero_blk = replicate BLOCK_SIZE 0"

lemma length_zero_blk [simp]: "length zero_blk = BLOCK_SIZE"
  by (simp add: zero_blk_def)

text \<open>\<open>struct superblock\<close>, \<open>struct inode\<close>, \<open>struct dirent\<close>.\<close>

record superblock =
  magic_num :: u32
  max_inum :: u16
  max_dnum :: u16
  i_bitmap_blk :: u32
  d_bitmap_blk :: u32
  i_start_blk :: u32
  d_start_blk :: u32

record inode =
  ino :: u16
  ivalid :: u16
  isize :: u32
  itype :: u32
  link :: u32
  direct_ptr :: "u32 list"
  indirect_ptr :: "u32 list"
  vstat :: "u8 list"

record dirent =
  d_ino :: u16
  d_valid :: u16
  d_name :: "u8 list"
  d_len :: u16

text \<open>
  The file system in memory: the file descriptor and whether it is open, whether the disk file
  exists, its blocks, and the in-memory copy of the superblock. A process starts with
  \<open>diskfile\<close> = -1.
\<close>

record fs =
  diskfile :: int
  fd_open :: bool
  disk_exists :: bool
  disk :: "nat \<Rightarrow> block"
  sb :: superblock

text \<open>
  \<open>open\<close> answers with a descriptor or -1: the argument \<open>fd\<close>. \<open>dev_init\<close> exits when it fails.
  It then sets the length to \<open>DISK_SIZE\<close>: blocks past it are gone, blocks before it that the file
  did not have are zeros.
\<close>

definition dev_init :: "int \<Rightarrow> fs \<Rightarrow> fs option" where
  "dev_init fd s =
     (if 0 \<le> diskfile s then Some s
      else do {
        ensure (0 \<le> fd);
        let d = (if disk_exists s then disk s else (\<lambda>_. zero_blk));
        let d = (\<lambda>b. if b < DISK_SIZE div BLOCK_SIZE then d b else zero_blk);
        Some (s\<lparr>diskfile := fd, fd_open := True, disk_exists := True, disk := d\<rparr>)
      })"

definition dev_open :: "int \<Rightarrow> fs \<Rightarrow> int \<times> fs" where
  "dev_open fd s =
     (if 0 \<le> diskfile s then (0, s)
      else if fd < 0 \<or> \<not> disk_exists s then (-1, s\<lparr>diskfile := -1\<rparr>)
      else (0, s\<lparr>diskfile := fd, fd_open := True\<rparr>))"

text \<open>\<open>dev_close\<close> closes the descriptor and keeps its number in \<open>diskfile\<close>.\<close>

definition dev_close :: "fs \<Rightarrow> fs" where
  "dev_close s = (if 0 \<le> diskfile s then s\<lparr>fd_open := False\<rparr> else s)"

text \<open>
  The byte offset \<open>block_num*BLOCK_SIZE\<close> is a 32-bit product, taken modulo \<open>2^32\<close>; \<open>pread\<close> and
  \<open>pwrite\<close> refuse a negative one, and any on a descriptor that is not open. A failed read leaves
  zeros in the buffer, a failed write changes nothing; no caller looks at the result code. On an open
  descriptor and a block of the file the two are taken to transfer the whole block: that the host may fail
  or stop short there is not modelled. From block \<open>2 ^ 19\<close> on the product overflows in C, and no
  theorem is about such a block.
\<close>

definition blk_offset :: "u32 \<Rightarrow> int" where
  "blk_offset b = sint (b * of_nat BLOCK_SIZE)"

definition bio_read :: "fs \<Rightarrow> u32 \<Rightarrow> block" where
  "bio_read s b =
     (if \<not> fd_open s \<or> blk_offset b < 0 then replicate BLOCK_SIZE 0
      else disk s (nat (blk_offset b) div BLOCK_SIZE))"

definition bio_write :: "u32 \<Rightarrow> block \<Rightarrow> fs \<Rightarrow> fs" where
  "bio_write b buf s =
     (if \<not> fd_open s \<or> blk_offset b < 0 then s
      else s\<lparr>disk := (disk s)(nat (blk_offset b) div BLOCK_SIZE := buf)\<rparr>)"

section \<open>Layout\<close>

definition u16_at :: "u8 list \<Rightarrow> nat \<Rightarrow> u16" where
  "u16_at buf off = of_nat (le_dec (chunk off 2 buf))"

definition u32_at :: "u8 list \<Rightarrow> nat \<Rightarrow> u32" where
  "u32_at buf off = of_nat (le_dec (chunk off 4 buf))"

definition enc16 :: "u16 \<Rightarrow> u8 list" where
  "enc16 w = le_enc 2 (unat w)"

definition enc32 :: "u32 \<Rightarrow> u8 list" where
  "enc32 w = le_enc 4 (unat w)"

definition INODE_SIZE :: nat where "INODE_SIZE = 256"
definition DIRENT_SIZE :: nat where "DIRENT_SIZE = 214"
definition NAME_SIZE :: nat where "NAME_SIZE = 208"
definition STAT_SIZE :: nat where "STAT_SIZE = 144"
definition INODES_PER_BLOCK :: nat where "INODES_PER_BLOCK = BLOCK_SIZE div INODE_SIZE"
definition DIRENTS_PER_BLOCK :: nat where "DIRENTS_PER_BLOCK = BLOCK_SIZE div DIRENT_SIZE"

lemmas fs_consts = BLOCK_SIZE_def DISK_SIZE_def INODE_SIZE_def DIRENT_SIZE_def NAME_SIZE_def STAT_SIZE_def
  INODES_PER_BLOCK_def DIRENTS_PER_BLOCK_def

definition enc_superblock :: "superblock \<Rightarrow> u8 list" where
  "enc_superblock x = enc32 (magic_num x) @ enc16 (max_inum x) @ enc16 (max_dnum x) @
     enc32 (i_bitmap_blk x) @ enc32 (d_bitmap_blk x) @ enc32 (i_start_blk x) @ enc32 (d_start_blk x)"

definition dec_superblock :: "u8 list \<Rightarrow> superblock" where
  "dec_superblock b = \<lparr>magic_num = u32_at b 0, max_inum = u16_at b 4, max_dnum = u16_at b 6,
     i_bitmap_blk = u32_at b 8, d_bitmap_blk = u32_at b 12, i_start_blk = u32_at b 16,
     d_start_blk = u32_at b 20\<rparr>"

definition enc_inode :: "inode \<Rightarrow> u8 list" where
  "enc_inode n = enc16 (ino n) @ enc16 (ivalid n) @ enc32 (isize n) @ enc32 (itype n) @ enc32 (link n) @
     concat (map enc32 (direct_ptr n)) @ concat (map enc32 (indirect_ptr n)) @ vstat n"

definition dec_inode :: "u8 list \<Rightarrow> inode" where
  "dec_inode b = \<lparr>ino = u16_at b 0, ivalid = u16_at b 2, isize = u32_at b 4, itype = u32_at b 8,
     link = u32_at b 12, direct_ptr = map (\<lambda>i. u32_at b (16 + 4 * i)) [0..<16],
     indirect_ptr = map (\<lambda>i. u32_at b (80 + 4 * i)) [0..<8], vstat = chunk 112 STAT_SIZE b\<rparr>"

definition dec_dirent :: "u8 list \<Rightarrow> dirent" where
  "dec_dirent b = \<lparr>d_ino = u16_at b 0, d_valid = u16_at b 2, d_name = chunk 4 NAME_SIZE b, d_len = u16_at b 212\<rparr>"

text \<open>\<open>memset(&node, 0, sizeof(node))\<close>.\<close>

definition zero_inode :: inode where
  "zero_inode = \<lparr>ino = 0, ivalid = 0, isize = 0, itype = 0, link = 0, direct_ptr = replicate 16 0,
     indirect_ptr = replicate 8 0, vstat = replicate STAT_SIZE 0\<rparr>"

text \<open>\<open>st_mode\<close>, \<open>st_atime\<close> and \<open>st_mtime\<close> in \<open>struct stat\<close>.\<close>

definition set_mode :: "u32 \<Rightarrow> inode \<Rightarrow> inode" where
  "set_mode v n = n\<lparr>vstat := splice_at (vstat n) 24 (enc32 v)\<rparr>"

definition set_atime :: "u64 \<Rightarrow> inode \<Rightarrow> inode" where
  "set_atime v n = n\<lparr>vstat := splice_at (vstat n) 72 (le_enc 8 (unat v))\<rparr>"

definition set_mtime :: "u64 \<Rightarrow> inode \<Rightarrow> inode" where
  "set_mtime v n = n\<lparr>vstat := splice_at (vstat n) 88 (le_enc 8 (unat v))\<rparr>"

definition atime_of :: "inode \<Rightarrow> u64" where
  "atime_of n = of_nat (le_dec (chunk 72 8 (vstat n)))"

definition mtime_of :: "inode \<Rightarrow> u64" where
  "mtime_of n = of_nat (le_dec (chunk 88 8 (vstat n)))"

section \<open>Bitmaps and inodes\<close>

definition total_disk_blocks :: nat where
  "total_disk_blocks = DISK_SIZE div BLOCK_SIZE"

definition zero_block :: "u32 \<Rightarrow> fs \<Rightarrow> fs" where
  "zero_block blkno s = bio_write blkno (replicate BLOCK_SIZE 0) s"

definition init_dir_block_empty :: "u32 \<Rightarrow> fs \<Rightarrow> fs" where
  "init_dir_block_empty blkno s = zero_block blkno s"

definition bitmap_alloc_bit :: "u32 \<Rightarrow> nat \<Rightarrow> fs \<Rightarrow> (int \<times> fs) option" where
  "bitmap_alloc_bit bitmap_blkno max_bits s = do {
     let buf = bio_read s bitmap_blkno;
     ensure (max_bits \<le> capacity buf);
     (case first_clear (\<lambda>i. get_bitmap buf i \<noteq> 0) 0 max_bits of
        Some i \<Rightarrow> Some (int i, bio_write bitmap_blkno (set_bitmap buf i) s)
      | None \<Rightarrow> Some (-1, s))
   }"

definition get_avail_ino :: "fs \<Rightarrow> (int \<times> fs) option" where
  "get_avail_ino s = bitmap_alloc_bit (i_bitmap_blk (sb s)) (unat (max_inum (sb s))) s"

definition get_avail_blkno :: "fs \<Rightarrow> (int \<times> fs) option" where
  "get_avail_blkno s = do {
     (idx, s) \<leftarrow> bitmap_alloc_bit (d_bitmap_blk (sb s)) (unat (max_dnum (sb s))) s;
     if idx < 0 then Some (-1, s)
     else Some (sint (d_start_blk (sb s) + of_int idx), s)
   }"

definition EINVAL :: int where "EINVAL = 22"

definition readi :: "u16 \<Rightarrow> fs \<Rightarrow> int \<times> inode option" where
  "readi i s =
     (if max_inum (sb s) \<le> i then (-EINVAL, None)
      else let blk = i_start_blk (sb s) + of_nat (unat i div INODES_PER_BLOCK);
               off = unat i mod INODES_PER_BLOCK * INODE_SIZE
           in (0, Some (dec_inode (chunk off INODE_SIZE (bio_read s blk)))))"

definition writei :: "u16 \<Rightarrow> inode \<Rightarrow> fs \<Rightarrow> int \<times> fs" where
  "writei i n s =
     (if max_inum (sb s) \<le> i then (-EINVAL, s)
      else let blk = i_start_blk (sb s) + of_nat (unat i div INODES_PER_BLOCK);
               off = unat i mod INODES_PER_BLOCK * INODE_SIZE
           in (0, bio_write blk (splice_at (bio_read s blk) off (enc_inode n)) s))"

section \<open>The layout is a bijection\<close>

lemma chunk_append1: "off + n \<le> length xs \<Longrightarrow> chunk off n (xs @ ys) = chunk off n xs"
  by (simp add: chunk_def)

lemma chunk_append2: "length xs \<le> off \<Longrightarrow> chunk off n (xs @ ys) = chunk (off - length xs) n ys"
  by (simp add: chunk_def)

lemma chunk_all: "n = length xs \<Longrightarrow> chunk 0 n xs = xs"
  by (simp add: chunk_def)

lemma length_enc [simp]: "length (enc16 w) = 2" "length (enc32 v) = 4"
  by (simp_all add: enc16_def enc32_def)

lemma dec_enc16: "of_nat (le_dec (enc16 w)) = w"
proof -
  have "unat w < 256 ^ 2" using unsigned_less [of w] by simp
  then show ?thesis by (simp add: enc16_def le_dec_enc)
qed

lemma dec_enc32: "of_nat (le_dec (enc32 w)) = w"
proof -
  have "unat w < 256 ^ 4" using unat_u32_bound [of w] by simp
  then show ?thesis by (simp add: enc32_def le_dec_enc)
qed

lemmas layout = u16_at_def u32_at_def chunk_append1 chunk_append2 chunk_all dec_enc16 dec_enc32

lemma dec_enc_superblock_rest: "dec_superblock (enc_superblock x @ rest) = x"
  by (simp add: dec_superblock_def enc_superblock_def layout)

lemma length_concat_enc [simp]: "length (concat (map enc32 xs)) = 4 * length xs"
  by (induction xs) auto

lemma u32_at_concat: "i < length xs \<Longrightarrow> u32_at (concat (map enc32 xs) @ rest) (4 * i) = xs ! i"
proof (induction xs arbitrary: i)
  case Nil
  then show ?case by simp
next
  case (Cons x xs)
  show ?case
  proof (cases i)
    case 0
    then show ?thesis by (simp add: layout)
  next
    case (Suc j)
    have "u32_at (concat (map enc32 (x # xs)) @ rest) (4 * Suc j) = u32_at (concat (map enc32 xs) @ rest) (4 * j)"
      by (simp add: u32_at_def chunk_append2)
    then show ?thesis using Suc Cons by simp
  qed
qed

definition inode_shape :: "inode \<Rightarrow> bool" where
  "inode_shape n \<longleftrightarrow> length (direct_ptr n) = 16 \<and> length (indirect_ptr n) = 8 \<and> length (vstat n) = STAT_SIZE"

lemma length_enc_inode [simp]: "inode_shape n \<Longrightarrow> length (enc_inode n) = INODE_SIZE"
  by (simp add: enc_inode_def inode_shape_def fs_consts)

lemma u32_at_append2: "length xs \<le> off \<Longrightarrow> u32_at (xs @ ys) off = u32_at ys (off - length xs)"
  by (simp add: u32_at_def chunk_append2)

lemma dec_enc_inode:
  assumes "inode_shape n"
  shows "dec_inode (enc_inode n) = n"
proof -
  let ?h = "enc16 (ino n) @ enc16 (ivalid n) @ enc32 (isize n) @ enc32 (itype n) @ enc32 (link n)"
  have e: "enc_inode n = ?h @ concat (map enc32 (direct_ptr n)) @ concat (map enc32 (indirect_ptr n)) @ vstat n"
    by (simp add: enc_inode_def)
  have d: "map (\<lambda>i. u32_at (enc_inode n) (16 + 4 * i)) [0..<16] = direct_ptr n"
    using assms unfolding e
    by (intro nth_equalityI) (auto simp: inode_shape_def u32_at_append2 [of ?h, simplified] u32_at_concat)
  have "u32_at (enc_inode n) (80 + 4 * i) = indirect_ptr n ! i" if "i < 8" for i
    using assms that unfolding e
    by (simp add: inode_shape_def u32_at_append2 [of ?h, simplified]
        u32_at_append2 [of "concat (map enc32 (direct_ptr n))"] u32_at_concat)
  then have i: "map (\<lambda>i. u32_at (enc_inode n) (80 + 4 * i)) [0..<8] = indirect_ptr n"
    using assms by (intro nth_equalityI) (auto simp: inode_shape_def)
  show ?thesis unfolding dec_inode_def d i
    using assms by (simp add: enc_inode_def inode_shape_def layout STAT_SIZE_def)
qed

lemma inode_shape_dec: "length b = INODE_SIZE \<Longrightarrow> inode_shape (dec_inode b)"
  by (simp add: inode_shape_def dec_inode_def fs_consts)

lemma inode_shape_zero [simp]: "inode_shape zero_inode"
  by (simp add: inode_shape_def zero_inode_def)

section \<open>What the file system relies on the device for\<close>

locale block_device =
  fixes rd :: "'s \<Rightarrow> u32 \<Rightarrow> block"
    and wr :: "u32 \<Rightarrow> block \<Rightarrow> 's \<Rightarrow> 's"
    and usable :: "'s \<Rightarrow> u32 \<Rightarrow> bool"
  assumes rd_len: "usable s b \<Longrightarrow> length (rd s b) = BLOCK_SIZE"
    and rd_wr: "usable s b \<Longrightarrow> usable s b' \<Longrightarrow> length buf = BLOCK_SIZE \<Longrightarrow>
      rd (wr b buf s) b' = (if b' = b then buf else rd s b')"
    and usable_wr: "usable s b \<Longrightarrow> length buf = BLOCK_SIZE \<Longrightarrow> usable (wr b buf s) b' = usable s b'"
begin

text \<open>A block divided into slots of \<open>n\<close> bytes: rewriting slot \<open>k\<close> of block \<open>b\<close> changes that slot only.\<close>

definition slot :: "'s \<Rightarrow> nat \<Rightarrow> u32 \<Rightarrow> nat \<Rightarrow> u8 list" where
  "slot s n b k = chunk (k * n) n (rd s b)"

definition put_slot :: "nat \<Rightarrow> u32 \<Rightarrow> nat \<Rightarrow> u8 list \<Rightarrow> 's \<Rightarrow> 's" where
  "put_slot n b k x s = wr b (splice_at (rd s b) (k * n) x) s"

lemma slot_fits: "k < BLOCK_SIZE div n \<Longrightarrow> k * n + n \<le> BLOCK_SIZE"
  by (metis Suc_leI div_le_dividend less_eq_div_iff_mult_less_eq mult_Suc add.commute
      not_gr_zero not_less_zero div_by_0)

lemma put_slot_len:
  "usable s b \<Longrightarrow> k < BLOCK_SIZE div n \<Longrightarrow> length x = n \<Longrightarrow>
   length (splice_at (rd s b) (k * n) x) = BLOCK_SIZE"
  using slot_fits [of k n] rd_len [of s b] by (simp add: length_splice_at)

lemma slot_put_slot:
  assumes "usable s b" "usable s b'" "k < BLOCK_SIZE div n" "k' < BLOCK_SIZE div n" "length x = n"
  shows "slot (put_slot n b k x s) n b' k' = (if b' = b \<and> k' = k then x else slot s n b' k')"
proof -
  note fits = slot_fits [OF assms(3)] slot_fits [OF assms(4)]
  have len: "length (rd s b) = BLOCK_SIZE" by (rule rd_len [OF assms(1)])
  have r: "rd (put_slot n b k x s) b' = (if b' = b then splice_at (rd s b) (k * n) x else rd s b')"
    unfolding put_slot_def by (rule rd_wr [OF assms(1,2) put_slot_len [OF assms(1,3,5)]])
  show ?thesis
  proof (cases "b' = b \<and> k' \<noteq> k")
    case True
    then have "k' * n + n \<le> k * n \<or> k * n + n \<le> k' * n"
      by (metis Suc_leI add.commute linorder_neqE_nat mult_Suc mult_le_mono1)
    then have "chunk (k' * n) n (splice_at (rd s b) (k * n) x) = chunk (k' * n) n (rd s b)"
      using fits len assms(5) by (intro chunk_splice_other) auto
    then show ?thesis using True r by (simp add: slot_def)
  next
    case False
    then show ?thesis using r fits len assms(5) by (auto simp: slot_def)
  qed
qed

lemma usable_put_slot:
  "usable s b \<Longrightarrow> k < BLOCK_SIZE div n \<Longrightarrow> length x = n \<Longrightarrow> usable (put_slot n b k x s) b' = usable s b'"
  unfolding put_slot_def by (rule usable_wr [OF _ put_slot_len])

end

definition dev_ok :: "fs \<Rightarrow> bool" where
  "dev_ok s \<longleftrightarrow> fd_open s \<and> 0 \<le> diskfile s \<and> (\<forall>b. length (disk s b) = BLOCK_SIZE)"

text \<open>Block numbers whose byte offset is a positive int.\<close>

definition block_usable :: "fs \<Rightarrow> u32 \<Rightarrow> bool" where
  "block_usable s b \<longleftrightarrow> dev_ok s \<and> unat b < 2 ^ 19"

lemma blk_offset_of_nat: "n < 2 ^ 19 \<Longrightarrow> blk_offset (of_nat n) = int (4096 * n)"
proof -
  assume n: "n < 2 ^ 19"
  have "(of_nat n :: u32) * of_nat BLOCK_SIZE = of_int (int (4096 * n))"
    by (simp add: BLOCK_SIZE_def mult.commute)
  moreover have "sint (of_int (int (4096 * n)) :: u32) = int (4096 * n)"
    using n by (simp only: signed_of_int) (simp add: signed_take_bit_int_eq_self)
  ultimately show ?thesis by (simp add: blk_offset_def)
qed

lemma blk_offset_small:
  assumes "unat b < 2 ^ 19"
  shows "\<not> blk_offset b < 0" "nat (blk_offset b) div BLOCK_SIZE = unat b"
proof -
  have e: "blk_offset b = int (4096 * unat b)"
    using blk_offset_of_nat [OF assms] by simp
  then show "\<not> blk_offset b < 0" by simp
  show "nat (blk_offset b) div BLOCK_SIZE = unat b" unfolding e nat_int by (simp add: BLOCK_SIZE_def)
qed

interpretation bio: block_device bio_read bio_write block_usable
proof unfold_locales
  fix s :: fs and b b' :: u32 and buf :: block
  assume u: "block_usable s b"
  show "length (bio_read s b) = BLOCK_SIZE"
    using u by (simp add: bio_read_def block_usable_def dev_ok_def)
  assume len: "length buf = BLOCK_SIZE"
  show "block_usable (bio_write b buf s) b' = block_usable s b'"
    using u len by (auto simp: bio_write_def block_usable_def dev_ok_def)
  assume "block_usable s b'"
  then show "bio_read (bio_write b buf s) b' = (if b' = b then buf else bio_read s b')"
    using u len
    by (simp add: bio_read_def bio_write_def block_usable_def dev_ok_def word_unat_eq_iff
        blk_offset_small)
qed

section \<open>A formatted disk\<close>

text \<open>The superblock \<open>rufs_mkfs\<close> writes: 64 inode blocks from block 3, 8125 data blocks from 67.\<close>

definition formatted_sb :: superblock where
  "formatted_sb = \<lparr>magic_num = 0x5C3A, max_inum = 1024, max_dnum = 8125, i_bitmap_blk = 1,
     d_bitmap_blk = 2, i_start_blk = 3, d_start_blk = 67\<rparr>"

definition disk_ok :: "fs \<Rightarrow> bool" where
  "disk_ok s \<longleftrightarrow> dev_ok s \<and> sb s = formatted_sb"

text \<open>Block \<open>b\<close> of the disk, inode \<open>i\<close> of the inode table, the two bitmaps.\<close>

definition blk :: "fs \<Rightarrow> nat \<Rightarrow> block" where
  "blk s b = bio_read s (of_nat b)"

definition inode_of :: "fs \<Rightarrow> nat \<Rightarrow> inode" where
  "inode_of s i = dec_inode (bio.slot s INODE_SIZE (of_nat (3 + i div 16)) (i mod 16))"

definition ino_used :: "fs \<Rightarrow> nat \<Rightarrow> bool" where
  "ino_used s i = bit_at (blk s 1) i"

definition blk_used :: "fs \<Rightarrow> nat \<Rightarrow> bool" where
  "blk_used s b = bit_at (blk s 2) (b - 67)"

lemma unat_u32_small: "b < 2 ^ 19 \<Longrightarrow> unat (of_nat b :: u32) = b"
  by (intro unat_of_nat_small) simp

lemma small_usable: "disk_ok s \<Longrightarrow> b < 2 ^ 19 \<Longrightarrow> block_usable s (of_nat b)"
  using unat_u32_small [of b] by (simp add: block_usable_def disk_ok_def)

lemma of_nat_u32_eq: "a < 2 ^ 19 \<Longrightarrow> b < 2 ^ 19 \<Longrightarrow> (of_nat a :: u32) = of_nat b \<longleftrightarrow> a = b"
proof
  assume "a < 2 ^ 19" "b < 2 ^ 19"
  then have "unat (of_nat a :: u32) = a" "unat (of_nat b :: u32) = b"
    by (intro unat_of_nat_small; simp)+
  then show "(of_nat a :: u32) = of_nat b \<Longrightarrow> a = b" by metis
qed simp

text \<open>Writing block \<open>b\<close> changes block \<open>b\<close>.\<close>

lemma write_blk:
  assumes "disk_ok s" "b < 2 ^ 19" "length buf = BLOCK_SIZE"
  shows "disk_ok (bio_write (of_nat b) buf s)"
    and "b' < 2 ^ 19 \<Longrightarrow> blk (bio_write (of_nat b) buf s) b' = (if b' = b then buf else blk s b')"
proof -
  note u = small_usable [OF assms(1,2)]
  show "disk_ok (bio_write (of_nat b) buf s)"
    using bio.usable_wr [OF u assms(3), of "of_nat b"] u assms(1)
    by (simp add: disk_ok_def block_usable_def) (simp add: bio_write_def)
  show "b' < 2 ^ 19 \<Longrightarrow> blk (bio_write (of_nat b) buf s) b' = (if b' = b then buf else blk s b')"
    using bio.rd_wr [OF u small_usable [OF assms(1)] assms(3), of b'] of_nat_u32_eq [OF _ assms(2), of b']
    by (simp add: blk_def)
qed

lemma length_blk [simp]: "disk_ok s \<Longrightarrow> b < 2 ^ 19 \<Longrightarrow> length (blk s b) = BLOCK_SIZE"
  unfolding blk_def by (rule bio.rd_len [OF small_usable])

lemma inode_of_blk: "inode_of s i = dec_inode (chunk (i mod 16 * INODE_SIZE) INODE_SIZE (blk s (3 + i div 16)))"
  by (simp add: inode_of_def bio.slot_def blk_def)

lemma inode_of_cong: "blk s' (3 + i div 16) = blk s (3 + i div 16) \<Longrightarrow> inode_of s' i = inode_of s i"
  by (simp add: inode_of_blk)

lemma sixteen: "INODES_PER_BLOCK = 16" "BLOCK_SIZE div INODE_SIZE = 16"
  by (simp_all add: fs_consts)

lemma inode_of_shape: "disk_ok s \<Longrightarrow> i < 1024 \<Longrightarrow> inode_shape (inode_of s i)"
proof -
  assume "disk_ok s" "i < 1024"
  then have "length (blk s (3 + i div 16)) = BLOCK_SIZE" by (intro length_blk) auto
  moreover have "i mod 16 * INODE_SIZE + INODE_SIZE \<le> BLOCK_SIZE" by (simp add: fs_consts)
  ultimately show ?thesis unfolding inode_of_blk by (intro inode_shape_dec) simp
qed

lemma unat_u16: "i < 1024 \<Longrightarrow> unat (of_nat i :: u16) = i"
  by (intro unat_of_nat_small) simp

lemma readi_ok: "disk_ok s \<Longrightarrow> i < 1024 \<Longrightarrow> readi (of_nat i) s = (0, Some (inode_of s i))"
  using unat_u16 [of i]
  by (simp add: readi_def disk_ok_def formatted_sb_def inode_of_def bio.slot_def sixteen
      word_le_nat_alt)

lemma writei_ok:
  assumes ok: "disk_ok s" and i: "i < 1024" and n: "inode_shape n"
  obtains s' where "writei (of_nat i) n s = (0, s')" "disk_ok s'"
    "\<And>j. j < 1024 \<Longrightarrow> inode_of s' j = (if j = i then n else inode_of s j)"
    "\<And>b. b < 2 ^ 19 \<Longrightarrow> b < 3 \<or> 67 \<le> b \<Longrightarrow> blk s' b = blk s b"
proof -
  let ?b = "3 + i div 16"
  define s' where "s' = bio.put_slot INODE_SIZE (of_nat ?b) (i mod 16) (enc_inode n) s"
  have bi: "?b < 67" using i by simp
  have u: "block_usable s (of_nat (3 + j div 16))" if "j < 1024" for j
    using that by (intro small_usable [OF ok]) simp
  have run: "writei (of_nat i) n s = (0, s')"
    using ok unat_u16 [OF i] i
    by (simp add: writei_def disk_ok_def formatted_sb_def bio.put_slot_def sixteen s'_def word_le_nat_alt Let_def)
  have len: "length (splice_at (bio_read s (of_nat ?b)) (i mod 16 * INODE_SIZE) (enc_inode n)) = BLOCK_SIZE"
    using n by (intro bio.put_slot_len [OF u [OF i]]) (simp_all add: sixteen)
  have small: "?b < 2 ^ 19" using bi by simp
  note w = write_blk [OF ok small len]
  have ok': "disk_ok s'" using w(1) by (simp add: s'_def bio.put_slot_def)
  moreover have "inode_of s' j = (if j = i then n else inode_of s j)" if j: "j < 1024" for j
  proof -
    have eq: "(of_nat (3 + j div 16) :: u32) = of_nat ?b \<longleftrightarrow> j div 16 = i div 16"
      using of_nat_u32_eq [of "3 + j div 16" ?b] i j by simp
    have "j = i \<longleftrightarrow> j div 16 = i div 16 \<and> j mod 16 = i mod 16" by (metis div_mult_mod_eq)
    then show ?thesis
      using bio.slot_put_slot [OF u [OF i] u [OF j], of "i mod 16" INODE_SIZE "j mod 16" "enc_inode n"] n eq
      by (auto simp: inode_of_def s'_def sixteen dec_enc_inode)
  qed
  moreover have "blk s' b = blk s b" if "b < 2 ^ 19" "b < 3 \<or> 67 \<le> b" for b
    using w(2) [OF that(1)] that(2) bi by (auto simp: s'_def bio.put_slot_def)
  ultimately show ?thesis using run by (intro that)
qed

text \<open>The allocators: the first free bit, marked; or -1 when every bit is set.\<close>

lemma bitmap_alloc_cases:
  assumes ok: "disk_ok s" and b: "b < 2 ^ 19" and n: "n \<le> 8 * BLOCK_SIZE"
  obtains (full) "bitmap_alloc_bit (of_nat b) n s = Some (-1, s)" "\<forall>i<n. bit_at (blk s b) i"
  | (found) i s' where "bitmap_alloc_bit (of_nat b) n s = Some (int i, s')" "i < n" "\<not> bit_at (blk s b) i"
      "\<forall>j<i. bit_at (blk s b) j" "disk_ok s'"
      "\<forall>j<8 * BLOCK_SIZE. bit_at (blk s' b) j \<longleftrightarrow> j = i \<or> bit_at (blk s b) j"
      "\<forall>c<2 ^ 19. c \<noteq> b \<longrightarrow> blk s' c = blk s c"
proof -
  let ?buf = "blk s b"
  have len: "length ?buf = BLOCK_SIZE" using ok b by simp
  show ?thesis
  proof (cases "first_clear (bit_at ?buf) 0 n")
    case None
    then have "bitmap_alloc_bit (of_nat b) n s = Some (-1, s)"
      using len n by (simp add: bitmap_alloc_bit_def blk_def get_bitmap_zero)
    moreover have "\<forall>i<n. bit_at ?buf i" using None by (simp add: first_clear_None)
    ultimately show ?thesis by (rule full)
  next
    case (Some i)
    then have i: "i < n" "\<not> bit_at ?buf i" "\<forall>j<i. bit_at ?buf j" by (auto simp: first_clear_Some)
    let ?s = "bio_write (of_nat b) (set_bitmap ?buf i) s"
    have "length (set_bitmap ?buf i) = BLOCK_SIZE" using len by simp
    note w = write_blk [OF ok b this]
    have run: "bitmap_alloc_bit (of_nat b) n s = Some (int i, ?s)"
      using Some len n by (simp add: bitmap_alloc_bit_def blk_def get_bitmap_zero)
    have bits: "\<forall>j<8 * BLOCK_SIZE. bit_at (blk ?s b) j \<longleftrightarrow> j = i \<or> bit_at ?buf j"
      using w(2) [OF b] i(1) n len by (simp add: bit_at_set)
    show ?thesis by (rule found [OF run i w(1) bits]) (use w(2) in auto)
  qed
qed

lemma get_avail_ino_cases:
  assumes ok: "disk_ok s"
  obtains (full) "get_avail_ino s = Some (-1, s)" "\<forall>i<1024. ino_used s i"
  | (found) i s' where "get_avail_ino s = Some (int i, s')" "i < 1024" "\<not> ino_used s i" "disk_ok s'"
      "\<forall>j<1024. ino_used s' j \<longleftrightarrow> j = i \<or> ino_used s j" "\<forall>c<2 ^ 19. c \<noteq> 1 \<longrightarrow> blk s' c = blk s c"
      "\<forall>j<i. ino_used s j"
proof -
  have run: "get_avail_ino s = bitmap_alloc_bit (of_nat 1) 1024 s"
    using ok by (simp add: get_avail_ino_def disk_ok_def formatted_sb_def)
  have b: "(1 :: nat) < 2 ^ 19" "1024 \<le> 8 * BLOCK_SIZE" by (simp_all add: fs_consts)
  show ?thesis
  proof (cases rule: bitmap_alloc_cases [OF ok b])
    case 1
    then show ?thesis using run by (intro full) (simp_all add: ino_used_def)
  next
    case (2 i s')
    have "\<forall>j<1024. ino_used s' j \<longleftrightarrow> j = i \<or> ino_used s j"
      using 2(6) by (simp add: ino_used_def fs_consts)
    then show ?thesis using run 2 by (intro found [of i s']) (simp_all add: ino_used_def)
  qed
qed

lemma get_avail_blkno_cases:
  assumes ok: "disk_ok s"
  obtains (full) "get_avail_blkno s = Some (-1, s)" "\<forall>b. 67 \<le> b \<and> b < 8192 \<longrightarrow> blk_used s b"
  | (found) b s' where "get_avail_blkno s = Some (int b, s')" "67 \<le> b" "b < 8192" "\<not> blk_used s b" "disk_ok s'"
      "\<forall>c. 67 \<le> c \<and> c < 8192 \<longrightarrow> (blk_used s' c \<longleftrightarrow> c = b \<or> blk_used s c)"
      "\<forall>c<2 ^ 19. c \<noteq> 2 \<longrightarrow> blk s' c = blk s c" "\<forall>c. 67 \<le> c \<and> c < b \<longrightarrow> blk_used s c"
proof -
  have run: "get_avail_blkno s = do {
      (idx, s) \<leftarrow> bitmap_alloc_bit (of_nat 2) 8125 s;
      if idx < 0 then Some (-1, s) else Some (sint (d_start_blk (sb s) + of_int idx), s)}"
    using ok by (simp add: get_avail_blkno_def disk_ok_def formatted_sb_def)
  have b: "(2 :: nat) < 2 ^ 19" "8125 \<le> 8 * BLOCK_SIZE" by (simp_all add: fs_consts)
  show ?thesis
  proof (cases rule: bitmap_alloc_cases [OF ok b])
    case 1
    have "\<forall>c. 67 \<le> c \<and> c < 8192 \<longrightarrow> blk_used s c" using 1(2) by (auto simp: blk_used_def)
    then show ?thesis using run 1(1) by (intro full) simp_all
  next
    case (2 i s')
    have "(67 :: u32) + of_int (int i) = of_nat (67 + i)" by simp
    moreover have "sint (of_nat (67 + i) :: u32) = int (67 + i)"
    proof -
      have "sint (of_int (int (67 + i)) :: u32) = int (67 + i)"
        using 2(2) by (simp only: signed_of_int) (simp add: signed_take_bit_int_eq_self)
      then show ?thesis by simp
    qed
    moreover have "d_start_blk (sb s') = 67" using 2(5) by (simp add: disk_ok_def formatted_sb_def)
    ultimately have "get_avail_blkno s = Some (int (67 + i), s')" using run 2(1) by simp
    moreover have "\<forall>c. 67 \<le> c \<and> c < 8192 \<longrightarrow> (blk_used s' c \<longleftrightarrow> c = 67 + i \<or> blk_used s c)"
      using 2(6) by (auto simp: blk_used_def fs_consts)
    moreover have "\<forall>c. 67 \<le> c \<and> c < 67 + i \<longrightarrow> blk_used s c" using 2(4) by (auto simp: blk_used_def)
    ultimately show ?thesis using 2 by (intro found [of "67 + i" s']) (simp_all add: blk_used_def)
  qed
qed

end
