(* ===== verification/FsDir.thy ===== *)
theory FsDir
  imports FsDisk
begin

text \<open>
  Directories and paths of \<open>project4/rufs.c\<close>: \<open>dir_find\<close>, \<open>dir_add\<close>, \<open>get_node_by_path\<close>. A name
  or a path is its bytes without the terminating NUL; a directory entry is read and written at
  its bytes in the block, so what a name longer than the field overwrites is what it overwrites
  in the program.
\<close>

section \<open>dir_find\<close>

definition ENOENT :: int where "ENOENT = 2"
definition EEXIST :: int where "EEXIST = 17"
definition ENOSPC :: int where "ENOSPC = 28"

text \<open>\<open>strncmp(a, b, n) == 0\<close>; running out of bytes of the buffer is an access past its end.\<close>

fun strncmp_eq :: "u8 list \<Rightarrow> u8 list \<Rightarrow> nat \<Rightarrow> bool option" where
  "strncmp_eq a b 0 = Some True"
| "strncmp_eq (x # a) (y # b) (Suc n) =
     (if x \<noteq> y then Some False else if x = 0 then Some True else strncmp_eq a b n)"
| "strncmp_eq _ _ (Suc n) = None"

text \<open>The fields of entry \<open>i\<close> of a directory block.\<close>

definition ent_ino :: "block \<Rightarrow> nat \<Rightarrow> u16" where "ent_ino buf i = u16_at buf (DIRENT_SIZE * i)"
definition ent_valid :: "block \<Rightarrow> nat \<Rightarrow> u16" where "ent_valid buf i = u16_at buf (DIRENT_SIZE * i + 2)"
definition ent_len :: "block \<Rightarrow> nat \<Rightarrow> u16" where "ent_len buf i = u16_at buf (DIRENT_SIZE * i + 212)"
definition ent_name :: "block \<Rightarrow> nat \<Rightarrow> u8 list" where "ent_name buf i = drop (DIRENT_SIZE * i + 4) buf"

definition ent_at :: "block \<Rightarrow> nat \<Rightarrow> dirent" where
  "ent_at buf i = dec_dirent (chunk (DIRENT_SIZE * i) DIRENT_SIZE buf)"

function find_ent :: "u8 list \<Rightarrow> block \<Rightarrow> nat \<Rightarrow> nat option option" where
  "find_ent fname buf i =
     (if i < DIRENTS_PER_BLOCK then
        if ent_valid buf i = 0 then find_ent fname buf (Suc i)
        else if unat (ent_len buf i) = length fname then do {
          eq \<leftarrow> strncmp_eq (ent_name buf i) (fname @ [0]) (length fname);
          if eq then Some (Some i) else find_ent fname buf (Suc i)
        }
        else find_ent fname buf (Suc i)
      else Some None)"
  by pat_completeness auto
termination
  by (relation "measure (\<lambda>(fname, buf, i). DIRENTS_PER_BLOCK - i)") auto

declare find_ent.simps [simp del]

function find_in :: "fs \<Rightarrow> inode \<Rightarrow> u8 list \<Rightarrow> nat \<Rightarrow> dirent option option" where
  "find_in s dir fname p =
     (if p < 16 then
        let b = direct_ptr dir ! p in
        if b = 0 then find_in s dir fname (Suc p)
        else do {
          let buf = bio_read s b;
          r \<leftarrow> find_ent fname buf 0;
          case r of
            Some i \<Rightarrow> Some (Some (ent_at buf i))
          | None \<Rightarrow> find_in s dir fname (Suc p)
        }
      else Some None)"
  by pat_completeness auto
termination
  by (relation "measure (\<lambda>(s, dir, fname, p). 16 - p)") auto

declare find_in.simps [simp del]

text \<open>The result code, and \<open>*out\<close> when it is 0.\<close>

definition dir_find :: "fs \<Rightarrow> u16 \<Rightarrow> u8 list \<Rightarrow> (int \<times> dirent option) option" where
  "dir_find s i fname =
     (case readi i s of
        (r, None) \<Rightarrow> Some (-ENOENT, None)
      | (r, Some dir) \<Rightarrow>
          if ivalid dir = 0 then Some (-ENOENT, None)
          else do {
            e \<leftarrow> find_in s dir fname 0;
            case e of
              Some d \<Rightarrow> Some (0, Some d)
            | None \<Rightarrow> Some (-ENOENT, None)
          })"

section \<open>dir_add\<close>

text \<open>
  Filling entry \<open>i\<close>: the fields in the order of the code, the name cleared and then copied over
  all its bytes; a copy that leaves the block stops the run.
\<close>

definition fill_ent :: "block \<Rightarrow> nat \<Rightarrow> u16 \<Rightarrow> u8 list \<Rightarrow> block option" where
  "fill_ent buf i f_ino fname = do {
     let e = DIRENT_SIZE * i;
     let buf = splice_at buf (e + 2) (enc16 1);
     let buf = splice_at buf e (enc16 f_ino);
     let buf = splice_at buf (e + 212) (enc16 (of_nat (length fname)));
     let buf = splice_at buf (e + 4) (replicate NAME_SIZE 0);
     ensure (e + 4 + length fname \<le> length buf);
     Some (splice_at buf (e + 4) fname)
   }"

definition grow_dir :: "inode \<Rightarrow> inode" where
  "grow_dir d = d\<lparr>isize := isize d + of_nat DIRENT_SIZE\<rparr>"

function add_in :: "fs \<Rightarrow> inode \<Rightarrow> u16 \<Rightarrow> u8 list \<Rightarrow> nat \<Rightarrow> fs option option" where
  "add_in s dir f_ino fname p =
     (if p < 16 then
        let b = direct_ptr dir ! p in
        if b = 0 then add_in s dir f_ino fname (Suc p)
        else
          let buf = bio_read s b in
          (case first_clear (\<lambda>i. ent_valid buf i \<noteq> 0) 0 DIRENTS_PER_BLOCK of
             None \<Rightarrow> add_in s dir f_ino fname (Suc p)
           | Some i \<Rightarrow> do {
               buf \<leftarrow> fill_ent buf i f_ino fname;
               let s = bio_write b buf s;
               let (_, s) = writei (ino dir) (grow_dir dir) s;
               Some (Some s)
             })
      else Some None)"
  by pat_completeness auto
termination
  by (relation "measure (\<lambda>(s, dir, f, n, p). 16 - p)") auto

declare add_in.simps [simp del]

definition dir_add :: "inode \<Rightarrow> u16 \<Rightarrow> u8 list \<Rightarrow> fs \<Rightarrow> (int \<times> fs) option" where
  "dir_add dir_inode f_ino fname s = do {
     (r, _) \<leftarrow> dir_find s (ino dir_inode) fname;
     if r = 0 then Some (-EEXIST, s)
     else do {
       added \<leftarrow> add_in s dir_inode f_ino fname 0;
       case added of
         Some s \<Rightarrow> Some (0, s)
       | None \<Rightarrow> do {
           (newblk, s) \<leftarrow> get_avail_blkno s;
           if newblk < 0 then Some (-ENOSPC, s)
           else
             (case first_clear (\<lambda>p. direct_ptr dir_inode ! p \<noteq> 0) 0 16 of
                None \<Rightarrow> Some (-ENOSPC, s)
              | Some p \<Rightarrow> do {
                  let dir_inode = dir_inode\<lparr>direct_ptr := (direct_ptr dir_inode)[p := of_int newblk]\<rparr>;
                  let s = init_dir_block_empty (of_int newblk) s;
                  let buf = bio_read s (of_int newblk);
                  buf \<leftarrow> fill_ent buf 0 f_ino fname;
                  let s = bio_write (of_int newblk) buf s;
                  let (_, s) = writei (ino dir_inode) (grow_dir dir_inode) s;
                  Some (0, s)
                })
         }
     }
   }"

section \<open>get_node_by_path\<close>

definition SLASH :: u8 where "SLASH = 47"
definition DOT :: u8 where "DOT = 46"
definition PATH_MAX :: nat where "PATH_MAX = 4096"

text \<open>The tokens \<open>strtok_r(copy, "/", &save)\<close> yields.\<close>

function tokens :: "u8 list \<Rightarrow> u8 list list" where
  "tokens path =
     (case dropWhile (\<lambda>c. c = SLASH) path of
        [] \<Rightarrow> []
      | c # cs \<Rightarrow> takeWhile (\<lambda>c. c \<noteq> SLASH) (c # cs) # tokens (dropWhile (\<lambda>c. c \<noteq> SLASH) cs))"
  by pat_completeness auto
termination
proof (relation "measure length")
  fix path c cs
  assume "dropWhile (\<lambda>c. c = SLASH) path = c # cs"
  then have "length (c # cs) \<le> length path" by (metis length_dropWhile_le)
  then show "(dropWhile (\<lambda>c. c \<noteq> SLASH) cs, path) \<in> measure length"
    using length_dropWhile_le [of "\<lambda>c. c \<noteq> SLASH" cs] by simp
qed simp

declare tokens.simps [simp del]

fun walk :: "fs \<Rightarrow> u16 \<Rightarrow> inode \<Rightarrow> u8 list list \<Rightarrow> (int \<times> inode option) option" where
  "walk s cur_ino cur [] = Some (0, Some cur)"
| "walk s cur_ino cur (tok # toks) = do {
     (r, de) \<leftarrow> dir_find s cur_ino tok;
     case de of
       None \<Rightarrow> Some (-ENOENT, None)
     | Some de \<Rightarrow>
         (case readi (d_ino de) s of
            (_, None) \<Rightarrow> Some (-ENOENT, None)
          | (_, Some cur) \<Rightarrow>
              if ivalid cur = 0 then Some (-ENOENT, None) else walk s (d_ino de) cur toks)
   }"

definition get_node_by_path :: "fs \<Rightarrow> u8 list \<Rightarrow> u16 \<Rightarrow> (int \<times> inode option) option" where
  "get_node_by_path s path start_ino =
     (if path = [SLASH] then Some (readi 0 s)
      else let copy = take (PATH_MAX - 1) path in
        (case readi start_ino s of
           (_, None) \<Rightarrow> Some (-ENOENT, None)
         | (_, Some cur) \<Rightarrow>
             if ivalid cur = 0 then Some (-ENOENT, None) else walk s start_ino cur (tokens copy)))"

end
