(* ===== verification/FsOps.thy ===== *)
theory FsOps
  imports FsDir
begin

text \<open>
  The operations \<open>project4/rufs.c\<close> hands to FUSE, from \<open>rufs_mkfs\<close> to \<open>rufs_write\<close>. Each takes
  the file system and returns its result code with the file system it leaves; \<^term>\<open>None\<close> is an
  access outside a buffer, or the exit of \<open>dev_init\<close>. What \<open>open\<close>, \<open>time\<close>, \<open>getuid\<close> and \<open>getgid\<close>
  answer are arguments. Offsets and sizes are 64-bit words, as are the sums of them.
\<close>

section \<open>Constants of the headers\<close>

definition MAGIC_NUM :: u32 where "MAGIC_NUM = 0x5C3A"
definition MAX_INUM :: nat where "MAX_INUM = 1024"
definition MAX_DNUM :: int where "MAX_DNUM = 16384"
definition ENOTDIR :: int where "ENOTDIR = 20"
definition EISDIR :: int where "EISDIR = 21"
definition EFBIG :: int where "EFBIG = 27"
definition S_IFDIR :: u32 where "S_IFDIR = 0x4000"
definition S_IFREG :: u32 where "S_IFREG = 0x8000"
definition DIR_MODE :: u32 where "DIR_MODE = S_IFDIR OR 0x1ED"
definition REG_MODE :: u32 where "REG_MODE = S_IFREG OR 0x1A4"

section \<open>rufs_mkfs, rufs_init, rufs_destroy\<close>

text \<open>An entry written field by field, its name with \<open>strcpy\<close>; and the first two of a new directory.\<close>

definition put_ent :: "nat \<Rightarrow> u16 \<Rightarrow> u8 list \<Rightarrow> block \<Rightarrow> block" where
  "put_ent i f_ino fname buf =
     (let e = DIRENT_SIZE * i;
          buf = splice_at buf (e + 2) (enc16 1);
          buf = splice_at buf e (enc16 f_ino);
          buf = splice_at buf (e + 212) (enc16 (of_nat (length fname)))
      in splice_at buf (e + 4) (fname @ [0]))"

definition put_dots :: "u16 \<Rightarrow> u16 \<Rightarrow> block \<Rightarrow> block" where
  "put_dots self parent buf = put_ent 1 parent [DOT, DOT] (put_ent 0 self [DOT] buf)"

definition mkfs_sb :: superblock where
  "mkfs_sb =
     (let inode_blks = (MAX_INUM + INODES_PER_BLOCK - 1) div INODES_PER_BLOCK;
          d_start = 3 + of_nat inode_blks;
          usable_data = int total_disk_blocks - sint (d_start :: u32);
          usable_data = (if usable_data < 0 then 0 else usable_data)
      in \<lparr>magic_num = MAGIC_NUM, max_inum = of_nat MAX_INUM,
          max_dnum = of_int (if usable_data < MAX_DNUM then usable_data else MAX_DNUM),
          i_bitmap_blk = 1, d_bitmap_blk = 2, i_start_blk = 3, d_start_blk = d_start\<rparr>)"

definition mkfs_tables :: "fs \<Rightarrow> fs" where
  "mkfs_tables s =
     (let x = sb s;
          inode_blks = (MAX_INUM + INODES_PER_BLOCK - 1) div INODES_PER_BLOCK;
          s = bio_write 0 (splice_at (replicate BLOCK_SIZE 0) 0 (enc_superblock x)) s;
          s = zero_block (i_bitmap_blk x) s;
          s = zero_block (d_bitmap_blk x) s;
          s = fold (\<lambda>b. zero_block (i_start_blk x + of_nat b)) [0..<inode_blks] s;
          s = bio_write (i_bitmap_blk x) (set_bitmap (bio_read s (i_bitmap_blk x)) 0) s;
          dbuf = bio_read s (d_bitmap_blk x);
          dbuf = (if 0 < max_dnum x then set_bitmap dbuf 0 else dbuf)
      in bio_write (d_bitmap_blk x) dbuf s)"

definition mkfs_root :: "u64 \<Rightarrow> u64 \<Rightarrow> fs \<Rightarrow> fs" where
  "mkfs_root mtime atime s =
     (let x = sb s;
          root_blk = (if 0 < max_dnum x then d_start_blk x else 0);
          s = (if root_blk \<noteq> 0 then init_dir_block_empty root_blk s else s);
          root = zero_inode\<lparr>ino := 0, ivalid := 1, itype := S_IFDIR, link := 2, isize := 0\<rparr>;
          root = (if root_blk \<noteq> 0 then root\<lparr>direct_ptr := (direct_ptr root)[0 := root_blk]\<rparr> else root);
          root = set_mode DIR_MODE (set_atime atime (set_mtime mtime root));
          s = (if root_blk \<noteq> 0 then bio_write root_blk (put_dots 0 0 (bio_read s root_blk)) s else s);
          root = (if root_blk \<noteq> 0 then root\<lparr>isize := of_nat (2 * DIRENT_SIZE)\<rparr> else root)
      in snd (writei 0 root s))"

definition rufs_mkfs :: "int \<Rightarrow> u64 \<Rightarrow> u64 \<Rightarrow> fs \<Rightarrow> (int \<times> fs) option" where
  "rufs_mkfs fd mtime atime s = do {
     s \<leftarrow> dev_init fd s;
     let (_, s) = dev_open fd s;
     let s = s\<lparr>sb := mkfs_sb\<rparr>;
     let s = mkfs_tables s;
     let s = mkfs_root mtime atime s;
     Some (0, s)
   }"

text \<open>\<open>fd\<close> answers the \<open>open\<close> of \<open>dev_open\<close>, \<open>fd'\<close> that of \<open>rufs_mkfs\<close>.\<close>

definition rufs_init :: "int \<Rightarrow> int \<Rightarrow> u64 \<Rightarrow> u64 \<Rightarrow> fs \<Rightarrow> fs option" where
  "rufs_init fd fd' mtime atime s =
     (if \<not> disk_exists s then do {
        (_, s) \<leftarrow> rufs_mkfs fd' mtime atime s;
        Some s
      }
      else do {
        let (_, s) = dev_open fd s;
        let s = s\<lparr>sb := dec_superblock (bio_read s 0)\<rparr>;
        if magic_num (sb s) \<noteq> MAGIC_NUM then do {
          (_, s) \<leftarrow> rufs_mkfs fd' mtime atime s;
          Some s
        }
        else Some s
      })"

definition rufs_destroy :: "fs \<Rightarrow> fs" where
  "rufs_destroy s = dev_close s"

section \<open>rufs_getattr, rufs_opendir, rufs_readdir\<close>

record file_stat =
  st_uid :: u32
  st_gid :: u32
  st_nlink :: u64
  st_size :: u64
  st_atim :: u64
  st_mtim :: u64
  st_mode :: u32

definition zero_stat :: file_stat where
  "zero_stat = \<lparr>st_uid = 0, st_gid = 0, st_nlink = 0, st_size = 0, st_atim = 0, st_mtim = 0, st_mode = 0\<rparr>"

text \<open>The lookup the operations begin with: \<^term>\<open>Some None\<close> is the answer \<open>-ENOENT\<close>.\<close>

definition node_at :: "fs \<Rightarrow> u8 list \<Rightarrow> inode option option" where
  "node_at s path = do {
     (r, node) \<leftarrow> get_node_by_path s path 0;
     Some (case node of
         None \<Rightarrow> None
       | Some n \<Rightarrow> if r < 0 \<or> ivalid n = 0 then None else Some n)
   }"

definition rufs_getattr :: "u32 \<Rightarrow> u32 \<Rightarrow> fs \<Rightarrow> u8 list \<Rightarrow> (int \<times> file_stat) option" where
  "rufs_getattr uid gid s path = do {
     node \<leftarrow> node_at s path;
     Some (case node of
         None \<Rightarrow> (-ENOENT, zero_stat)
       | Some n \<Rightarrow>
           (0, \<lparr>st_uid = uid, st_gid = gid, st_nlink = ucast (link n), st_size = ucast (isize n),
                st_atim = atime_of n, st_mtim = mtime_of n,
                st_mode = (if itype n = S_IFDIR then DIR_MODE else REG_MODE)\<rparr>))
   }"

definition rufs_opendir :: "fs \<Rightarrow> u8 list \<Rightarrow> int option" where
  "rufs_opendir s path = do {
     node \<leftarrow> node_at s path;
     Some (case node of
         None \<Rightarrow> -ENOENT
       | Some n \<Rightarrow> if itype n \<noteq> S_IFDIR then -ENOTDIR else 0)
   }"

text \<open>The C string at the head of a buffer; none when no NUL follows.\<close>

fun c_string :: "u8 list \<Rightarrow> u8 list option" where
  "c_string [] = None"
| "c_string (c # cs) = (if c = 0 then Some [] else do { r \<leftarrow> c_string cs; Some (c # r) })"

function list_block :: "block \<Rightarrow> nat \<Rightarrow> u8 list list option" where
  "list_block buf i =
     (if i < DIRENTS_PER_BLOCK then
        if ent_valid buf i = 0 then list_block buf (Suc i)
        else do {
          name \<leftarrow> c_string (ent_name buf i);
          rest \<leftarrow> list_block buf (Suc i);
          Some (if name = [DOT] \<or> name = [DOT, DOT] then rest else name # rest)
        }
      else Some [])"
  by pat_completeness auto
termination
  by (relation "measure (\<lambda>(buf, i). DIRENTS_PER_BLOCK - i)") auto

declare list_block.simps [simp del]

fun list_dir :: "fs \<Rightarrow> u32 list \<Rightarrow> u8 list list option" where
  "list_dir s [] = Some []"
| "list_dir s (b # bs) =
     (if b = 0 then list_dir s bs
      else do {
        here \<leftarrow> list_block (bio_read s b) 0;
        rest \<leftarrow> list_dir s bs;
        Some (here @ rest)
      })"

text \<open>The names given to \<open>filler\<close>, in order; its result is not looked at.\<close>

definition rufs_readdir :: "fs \<Rightarrow> u8 list \<Rightarrow> (int \<times> u8 list list) option" where
  "rufs_readdir s path = do {
     node \<leftarrow> node_at s path;
     case node of
       None \<Rightarrow> Some (-ENOENT, [])
     | Some dir \<Rightarrow>
         if itype dir \<noteq> S_IFDIR then Some (-ENOTDIR, [])
         else do {
           names \<leftarrow> list_dir s (take 16 (direct_ptr dir));
           Some (0, [DOT] # [DOT, DOT] # names)
         }
   }"

section \<open>rufs_mkdir, rufs_create\<close>

text \<open>\<open>dirname\<close> and \<open>basename\<close> of \<open>libgen.h\<close>.\<close>

definition strip_slash :: "u8 list \<Rightarrow> u8 list" where
  "strip_slash p = rev (dropWhile (\<lambda>c. c = SLASH) (rev p))"

definition dirname :: "u8 list \<Rightarrow> u8 list" where
  "dirname path =
     (if path = [] then [DOT]
      else let p = strip_slash path in
        if p = [] then [SLASH]
        else let d = rev (dropWhile (\<lambda>c. c \<noteq> SLASH) (rev p)) in
          if d = [] then [DOT]
          else let e = strip_slash d in if e = [] then [SLASH] else e)"

definition basename :: "u8 list \<Rightarrow> u8 list" where
  "basename path =
     (if path = [] then [DOT]
      else let p = strip_slash path in
        if p = [] then [SLASH] else rev (takeWhile (\<lambda>c. c \<noteq> SLASH) (rev p)))"

text \<open>The checks the two operations share: the parent's inode, or the error code.\<close>

definition new_entry_parent :: "fs \<Rightarrow> u8 list \<Rightarrow> (int + inode) option" where
  "new_entry_parent s path = do {
     (r, pnode) \<leftarrow> get_node_by_path s (dirname (take (PATH_MAX - 1) path)) 0;
     case pnode of
       None \<Rightarrow> Some (Inl (-ENOENT))
     | Some pnode \<Rightarrow>
         if r < 0 then Some (Inl (-ENOENT))
         else if itype pnode \<noteq> S_IFDIR then Some (Inl (-ENOTDIR))
         else do {
           (r, _) \<leftarrow> dir_find s (ino pnode) (basename (take (PATH_MAX - 1) path));
           if r = 0 then Some (Inl (-EEXIST)) else Some (Inr pnode)
         }
   }"

definition new_dir_inode :: "u16 \<Rightarrow> u32 \<Rightarrow> u64 \<Rightarrow> u64 \<Rightarrow> inode" where
  "new_dir_inode i first mtime atime =
     (let node = zero_inode\<lparr>ino := i, ivalid := 1, itype := S_IFDIR, link := 2\<rparr>;
          node = node\<lparr>direct_ptr := (direct_ptr node)[0 := first]\<rparr>;
          node = set_atime atime (set_mtime mtime (set_mode DIR_MODE node))
      in node\<lparr>isize := of_nat (2 * DIRENT_SIZE)\<rparr>)"

definition rufs_mkdir :: "u64 \<Rightarrow> u64 \<Rightarrow> u8 list \<Rightarrow> fs \<Rightarrow> (int \<times> fs) option" where
  "rufs_mkdir mtime atime path s = do {
     parent \<leftarrow> new_entry_parent s path;
     case parent of
       Inl e \<Rightarrow> Some (e, s)
     | Inr pnode \<Rightarrow> do {
         let fname = basename (take (PATH_MAX - 1) path);
         (i, s) \<leftarrow> get_avail_ino s;
         if i < 0 then Some (-ENOSPC, s)
         else do {
           (b, s) \<leftarrow> get_avail_blkno s;
           if b < 0 then Some (-ENOSPC, s)
           else do {
             let s = init_dir_block_empty (of_int b) s;
             let node = new_dir_inode (of_int i) (of_int b) mtime atime;
             let s = bio_write (of_int b) (put_dots (ino node) (ino pnode) (bio_read s (of_int b))) s;
             (r, s) \<leftarrow> dir_add pnode (ino node) fname s;
             if r < 0 then Some (-ENOSPC, s)
             else Some (0, snd (writei (ino node) node s))
           }
         }
       }
   }"

definition new_file_inode :: "u16 \<Rightarrow> u64 \<Rightarrow> u64 \<Rightarrow> inode" where
  "new_file_inode i mtime atime =
     (let node = zero_inode\<lparr>ino := i, ivalid := 1, itype := S_IFREG, link := 1, isize := 0\<rparr>
      in set_atime atime (set_mtime mtime (set_mode REG_MODE node)))"

definition rufs_create :: "u64 \<Rightarrow> u64 \<Rightarrow> u8 list \<Rightarrow> fs \<Rightarrow> (int \<times> fs) option" where
  "rufs_create mtime atime path s = do {
     parent \<leftarrow> new_entry_parent s path;
     case parent of
       Inl e \<Rightarrow> Some (e, s)
     | Inr pnode \<Rightarrow> do {
         let fname = basename (take (PATH_MAX - 1) path);
         (i, s) \<leftarrow> get_avail_ino s;
         if i < 0 then Some (-ENOSPC, s)
         else do {
           let node = new_file_inode (of_int i) mtime atime;
           (r, s) \<leftarrow> dir_add pnode (ino node) fname s;
           if r < 0 then Some (-ENOSPC, s)
           else Some (0, snd (writei (ino node) node s))
         }
       }
   }"

section \<open>rufs_open, rufs_read, rufs_write\<close>

definition rufs_open :: "fs \<Rightarrow> u8 list \<Rightarrow> int option" where
  "rufs_open s path = do {
     node \<leftarrow> node_at s path;
     Some (case node of None \<Rightarrow> -ENOENT | Some n \<Rightarrow> 0)
   }"

text \<open>The block of the file a position is in, an int, and the position within it.\<close>

definition file_blk_idx :: "u64 \<Rightarrow> int" where
  "file_blk_idx pos = sint (of_nat (unat pos div BLOCK_SIZE) :: u32)"

definition blk_off :: "u64 \<Rightarrow> nat" where
  "blk_off pos = unat pos mod BLOCK_SIZE"

text \<open>The bytes one round moves: to the end of the block, or what is left.\<close>

definition round_len :: "u64 \<Rightarrow> u64 \<Rightarrow> nat" where
  "round_len pos left =
     (let n = BLOCK_SIZE - blk_off pos in if n > unat left then unat left else n)"

lemma round_len_bounds: "left \<noteq> 0 \<Longrightarrow> 0 < round_len pos left" "round_len pos left \<le> unat left"
  "round_len pos left \<le> BLOCK_SIZE - blk_off pos" "blk_off pos < BLOCK_SIZE"
  by (auto simp: round_len_def blk_off_def fs_consts unat_gt_0 Let_def)

lemma round_decreases:
  assumes "did < (n :: u64)"
  shows "unat (n - (did + of_nat (round_len pos (n - did)))) < unat (n - did)"
proof -
  let ?l = "n - did" and ?k = "round_len pos (n - did)"
  have k: "0 < ?k" "?k \<le> unat ?l" using assms round_len_bounds(1) [of ?l pos] round_len_bounds(2) [of pos ?l] by auto
  have u: "unat (of_nat ?k :: u64) = ?k" using k(2) by (rule le_unat_uoi)
  then have "unat (?l - of_nat ?k) = unat ?l - ?k" using k(2) by (subst unat_sub) (simp_all add: word_le_nat_alt)
  then have "unat (?l - of_nat ?k) < unat ?l" using k by linarith
  then show ?thesis by (simp only: diff_diff_eq)
qed

text \<open>
  \<open>cap\<close> is the size of the caller's buffer. The result is \<open>done\<close> and the bytes stored from the
  start of the buffer on.
\<close>

function read_loop :: "fs \<Rightarrow> inode \<Rightarrow> u64 \<Rightarrow> u64 \<Rightarrow> nat \<Rightarrow> u64 \<Rightarrow> u8 list \<Rightarrow> (u64 \<times> u8 list) option" where
  "read_loop s node offset to_read cap did out =
     (if did < to_read then
        let idx = file_blk_idx (offset + did) in
        if 16 \<le> idx then Some (did, out)
        else do {
          ensure (0 \<le> idx);
          let blkno = direct_ptr node ! nat idx;
          if blkno = 0 then Some (did, out)
          else do {
            let buf = bio_read s blkno;
            let n = round_len (offset + did) (to_read - did);
            ensure (unat did + n \<le> cap);
            read_loop s node offset to_read cap (did + of_nat n)
              (out @ chunk (blk_off (offset + did)) n buf)
          }
        }
      else Some (did, out))"
  by pat_completeness auto
termination
  by (relation "measure (\<lambda>(s, node, offset, to_read, cap, did, out). unat (to_read - did))")
    (auto simp: round_decreases)

declare read_loop.simps [simp del]

definition rufs_read :: "u64 \<Rightarrow> u8 list \<Rightarrow> u64 \<Rightarrow> u64 \<Rightarrow> fs \<Rightarrow> (int \<times> u8 list \<times> fs) option" where
  "rufs_read atime path sz offset s = do {
     node \<leftarrow> node_at s path;
     case node of
       None \<Rightarrow> Some (-ENOENT, [], s)
     | Some n \<Rightarrow>
         if itype n \<noteq> S_IFREG then Some (-EISDIR, [], s)
         else if isize n \<le> ucast offset then Some (0, [], s)
         else do {
           let to_read = (if sint (offset + sz) > int (unat (isize n)) then ucast (isize n) - offset
                          else sz);
           (did, out) \<leftarrow> read_loop s n offset to_read (unat sz) 0 [];
           let (_, s) = writei (ino n) (set_atime atime n) s;
           Some (sint (ucast did :: u32), out, s)
         }
   }"

text \<open>The block at \<open>idx\<close> of the file, taken from the free ones when the file has none there.\<close>

definition file_block :: "inode \<Rightarrow> nat \<Rightarrow> fs \<Rightarrow> (inode option \<times> fs) option" where
  "file_block node idx s =
     (if direct_ptr node ! idx = 0 then do {
        (newblk, s) \<leftarrow> get_avail_blkno s;
        if newblk < 0 then Some (None, s)
        else Some (Some (node\<lparr>direct_ptr := (direct_ptr node)[idx := of_int newblk]\<rparr>),
                   zero_block (of_int newblk) s)
      }
      else Some (Some node, s))"

text \<open>\<^term>\<open>Inl\<close> is a return from inside the loop.\<close>

function write_loop ::
    "inode \<Rightarrow> u64 \<Rightarrow> u64 \<Rightarrow> u8 list \<Rightarrow> u64 \<Rightarrow> fs \<Rightarrow> ((int \<times> fs) + (inode \<times> u64 \<times> fs)) option" where
  "write_loop node offset sz data did s =
     (if did < sz then
        let idx = file_blk_idx (offset + did) in
        if 16 \<le> idx then Some (Inl (if 0 < did then sint (ucast did :: u32) else -EFBIG, s))
        else do {
          ensure (0 \<le> idx);
          (node', s) \<leftarrow> file_block node (nat idx) s;
          case node' of
            None \<Rightarrow> Some (Inl (if 0 < did then sint (ucast did :: u32) else -ENOSPC, s))
          | Some node \<Rightarrow> do {
              let blkno = direct_ptr node ! nat idx;
              let buf = bio_read s blkno;
              let n = round_len (offset + did) (sz - did);
              ensure (unat did + n \<le> length data);
              let buf = splice_at buf (blk_off (offset + did)) (chunk (unat did) n data);
              let s = bio_write blkno buf s;
              write_loop node offset sz data (did + of_nat n) s
            }
        }
      else Some (Inr (node, did, s)))"
  by pat_completeness auto
termination
  by (relation "measure (\<lambda>(node, offset, sz, data, did, s). unat (sz - did))")
    (auto simp: round_decreases)

declare write_loop.simps [simp del]

definition rufs_write :: "u64 \<Rightarrow> u64 \<Rightarrow> u8 list \<Rightarrow> u8 list \<Rightarrow> u64 \<Rightarrow> u64 \<Rightarrow> fs \<Rightarrow> (int \<times> fs) option" where
  "rufs_write mtime atime path data sz offset s = do {
     node \<leftarrow> node_at s path;
     case node of
       None \<Rightarrow> Some (-ENOENT, s)
     | Some n \<Rightarrow>
         if itype n \<noteq> S_IFREG then Some (-EISDIR, s)
         else do {
           res \<leftarrow> write_loop n offset sz data 0 s;
           case res of
             Inl (r, s) \<Rightarrow> Some (r, s)
           | Inr (n, did, s) \<Rightarrow> do {
               let new_end = (ucast (offset + did) :: u32);
               let n = (if isize n < new_end then n\<lparr>isize := new_end\<rparr> else n);
               let n = set_atime atime (set_mtime mtime n);
               let (_, s) = writei (ino n) n s;
               Some (sint (ucast did :: u32), s)
             }
         }
   }"

section \<open>The operations left as stubs\<close>

definition rufs_rmdir :: "u8 list \<Rightarrow> fs \<Rightarrow> int \<times> fs" where "rufs_rmdir path s = (0, s)"
definition rufs_releasedir :: "u8 list \<Rightarrow> fs \<Rightarrow> int \<times> fs" where "rufs_releasedir path s = (0, s)"
definition rufs_unlink :: "u8 list \<Rightarrow> fs \<Rightarrow> int \<times> fs" where "rufs_unlink path s = (0, s)"
definition rufs_truncate :: "u8 list \<Rightarrow> u64 \<Rightarrow> fs \<Rightarrow> int \<times> fs" where "rufs_truncate path sz s = (0, s)"
definition rufs_release :: "u8 list \<Rightarrow> fs \<Rightarrow> int \<times> fs" where "rufs_release path s = (0, s)"
definition rufs_flush :: "u8 list \<Rightarrow> fs \<Rightarrow> int \<times> fs" where "rufs_flush path s = (0, s)"
definition rufs_utimens :: "u8 list \<Rightarrow> fs \<Rightarrow> int \<times> fs" where "rufs_utimens path s = (0, s)"

lemmas stub_ops = rufs_rmdir_def rufs_releasedir_def rufs_unlink_def rufs_truncate_def rufs_release_def
  rufs_flush_def rufs_utimens_def

end
