(* ===== verification/FsLookup.thy ===== *)
theory FsLookup
  imports FsOps
begin

text \<open>
  What lookups and insertions in a directory amount to: a directory is a map from names to inode
  numbers, \<open>dir_find\<close> is application and \<open>dir_add\<close> is update.
\<close>

section \<open>Entries of a block\<close>

lemma strncmp_eq_take:
  "0 \<notin> set nm \<Longrightarrow> length nm \<le> length a \<Longrightarrow>
   strncmp_eq a (nm @ [0]) (length nm) = Some (take (length nm) a = nm)"
proof (induction nm arbitrary: a)
  case Nil
  then show ?case by simp
next
  case (Cons x nm)
  then obtain y b where a: "a = y # b" by (cases a) auto
  show ?case using Cons by (auto simp: a)
qed

text \<open>Entry \<open>k\<close> is in use and carries the name \<open>nm\<close>.\<close>

definition ent_is :: "block \<Rightarrow> u8 list \<Rightarrow> nat \<Rightarrow> bool" where
  "ent_is buf nm k \<longleftrightarrow> ent_valid buf k \<noteq> 0 \<and> unat (ent_len buf k) = length nm \<and>
     chunk (DIRENT_SIZE * k + 4) (length nm) buf = nm"

text \<open>
  The length an entry records fits the name field, the name holds no NUL, and a NUL follows it unless
  it fills the field.
\<close>

definition ent_named :: "block \<Rightarrow> nat \<Rightarrow> bool" where
  "ent_named buf k \<longleftrightarrow> unat (ent_len buf k) \<le> NAME_SIZE \<and>
     0 \<notin> set (chunk (DIRENT_SIZE * k + 4) (unat (ent_len buf k)) buf) \<and>
     (unat (ent_len buf k) < NAME_SIZE \<longrightarrow> chunk (DIRENT_SIZE * k + 4 + unat (ent_len buf k)) 1 buf = [0])"

definition lens_ok :: "block \<Rightarrow> bool" where
  "lens_ok buf \<longleftrightarrow> length buf = BLOCK_SIZE \<and>
     (\<forall>k<DIRENTS_PER_BLOCK. ent_valid buf k \<noteq> 0 \<longrightarrow> ent_named buf k)"

lemma lens_ok_len: "lens_ok buf \<Longrightarrow> k < DIRENTS_PER_BLOCK \<Longrightarrow> ent_valid buf k \<noteq> 0 \<Longrightarrow> unat (ent_len buf k) \<le> NAME_SIZE"
  by (simp add: lens_ok_def ent_named_def)

definition name_ok :: "u8 list \<Rightarrow> bool" where
  "name_ok nm \<longleftrightarrow> 0 \<notin> set nm \<and> length nm \<le> NAME_SIZE"

lemma dirents_19: "DIRENTS_PER_BLOCK = 19"
  by (simp add: fs_consts)

lemma slot_end: "k < DIRENTS_PER_BLOCK \<Longrightarrow> DIRENT_SIZE * k + DIRENT_SIZE \<le> BLOCK_SIZE"
  by (simp add: fs_consts)

lemma find_ent_first:
  assumes "lens_ok buf" "0 \<notin> set nm"
  shows "find_ent nm buf i = Some (first_clear (\<lambda>k. \<not> ent_is buf nm k) i DIRENTS_PER_BLOCK)"
  using assms
proof (induction nm buf i rule: find_ent.induct)
  case (1 nm buf i)
  show ?case
  proof (cases "i < DIRENTS_PER_BLOCK \<and> ent_valid buf i \<noteq> 0 \<and> unat (ent_len buf i) = length nm")
    case True
    then have "length nm \<le> NAME_SIZE" "length buf = BLOCK_SIZE" "DIRENT_SIZE * i + DIRENT_SIZE \<le> BLOCK_SIZE"
      using 1(4) lens_ok_len [OF 1(4), of i] slot_end [of i] by (auto simp: lens_ok_def)
    then have "length nm \<le> length (ent_name buf i)" by (simp add: ent_name_def fs_consts)
    then have "strncmp_eq (ent_name buf i) (nm @ [0]) (length nm) = Some (ent_is buf nm i)"
      using strncmp_eq_take [OF 1(5)] True by (simp add: ent_is_def ent_name_def chunk_def)
    then show ?thesis
      using True 1 by (simp add: find_ent.simps [of nm buf i] first_clear.simps [of _ i])
  next
    case False
    then show ?thesis
      using 1 by (auto simp: find_ent.simps [of nm buf i] first_clear.simps [of _ i] ent_is_def)
  qed
qed

section \<open>An entry by its bytes\<close>

definition ent_bytes :: "block \<Rightarrow> nat \<Rightarrow> u8 list" where
  "ent_bytes buf k = chunk (DIRENT_SIZE * k) DIRENT_SIZE buf"

lemma chunk_chunk: "a + n \<le> m \<Longrightarrow> chunk a n (chunk off m buf) = chunk (off + a) n buf"
  by (simp add: chunk_def drop_take min_def add.commute)

lemma ent_fields:
  "ent_valid buf k = u16_at (ent_bytes buf k) 2" "ent_ino buf k = u16_at (ent_bytes buf k) 0"
  "ent_len buf k = u16_at (ent_bytes buf k) 212" "ent_at buf k = dec_dirent (ent_bytes buf k)"
  by (simp_all add: ent_valid_def ent_ino_def ent_len_def ent_at_def ent_bytes_def u16_at_def chunk_chunk fs_consts)

lemma d_ino_ent_at [simp]: "d_ino (ent_at buf k) = ent_ino buf k"
  by (simp add: ent_fields dec_dirent_def)

lemma ent_is_bytes: "length nm \<le> NAME_SIZE \<Longrightarrow> ent_is buf nm k \<longleftrightarrow>
    u16_at (ent_bytes buf k) 2 \<noteq> 0 \<and> unat (u16_at (ent_bytes buf k) 212) = length nm \<and>
    chunk 4 (length nm) (ent_bytes buf k) = nm"
  by (simp add: ent_is_def ent_fields(1,3)) (simp add: ent_bytes_def chunk_chunk fs_consts)

lemma ent_named_bytes: "ent_named buf k \<longleftrightarrow>
    (let n = unat (u16_at (ent_bytes buf k) 212)
     in n \<le> NAME_SIZE \<and> 0 \<notin> set (chunk 4 n (ent_bytes buf k)) \<and> (n < NAME_SIZE \<longrightarrow> chunk (4 + n) 1 (ent_bytes buf k) = [0]))"
proof -
  have c: "chunk (DIRENT_SIZE * k + 4) n buf = chunk 4 n (ent_bytes buf k)" if "n \<le> NAME_SIZE" for n
    using that by (simp add: ent_bytes_def chunk_chunk fs_consts)
  have d: "chunk (DIRENT_SIZE * k + 4 + n) 1 buf = chunk (4 + n) 1 (ent_bytes buf k)" if "n < NAME_SIZE" for n
  proof -
    have "chunk (4 + n) 1 (ent_bytes buf k) = chunk (DIRENT_SIZE * k + (4 + n)) 1 buf"
      using that unfolding ent_bytes_def by (intro chunk_chunk) (simp add: fs_consts)
    then show ?thesis by (simp add: add.assoc)
  qed
  show ?thesis unfolding ent_named_def Let_def ent_fields(3) using c d by auto
qed

lemma ent_is_long: "lens_ok buf \<Longrightarrow> k < DIRENTS_PER_BLOCK \<Longrightarrow> NAME_SIZE < length nm \<Longrightarrow> \<not> ent_is buf nm k"
  using lens_ok_len by (fastforce simp: ent_is_def)

lemma ent_is_cong:
  assumes "lens_ok buf" "lens_ok buf'" "k < DIRENTS_PER_BLOCK" "ent_bytes buf' k = ent_bytes buf k"
  shows "ent_is buf' nm k = ent_is buf nm k"
proof (cases "length nm \<le> NAME_SIZE")
  case True
  then show ?thesis using assms(4) by (simp add: ent_is_bytes)
next
  case False
  then show ?thesis using ent_is_long assms(1,2,3) by simp
qed

text \<open>Writing inside entry \<open>k\<close> leaves the bytes of the others alone.\<close>

lemma ent_bytes_splice_other:
  assumes "length buf = BLOCK_SIZE" "k < DIRENTS_PER_BLOCK" "k' < DIRENTS_PER_BLOCK" "k' \<noteq> k"
    and "j + length x \<le> DIRENT_SIZE"
  shows "ent_bytes (splice_at buf (DIRENT_SIZE * k + j) x) k' = ent_bytes buf k'"
proof -
  have "DIRENT_SIZE * k' + DIRENT_SIZE \<le> DIRENT_SIZE * k \<or> DIRENT_SIZE * k + DIRENT_SIZE \<le> DIRENT_SIZE * k'"
    using assms(4) by (simp add: fs_consts) linarith
  then show ?thesis unfolding ent_bytes_def
    using slot_end [OF assms(2)] slot_end [OF assms(3)] assms(1,5) by (intro chunk_splice_other) auto
qed

lemma splice_at_middle:
  "j + length x \<le> length e \<Longrightarrow> splice_at (a @ e @ b) (length a + j) x = a @ splice_at e j x @ b"
  by (simp add: splice_at_def)

lemma ent_bytes_splice_same:
  assumes "length buf = BLOCK_SIZE" "k < DIRENTS_PER_BLOCK" "j + length x \<le> DIRENT_SIZE"
  shows "ent_bytes (splice_at buf (DIRENT_SIZE * k + j) x) k = splice_at (ent_bytes buf k) j x"
proof -
  let ?e = "DIRENT_SIZE * k"
  note fit = slot_end [OF assms(2)]
  have split: "buf = take ?e buf @ ent_bytes buf k @ drop (?e + DIRENT_SIZE) buf"
    by (simp add: ent_bytes_def chunk_def add.commute flip: drop_drop)
  have len: "length (take ?e buf) = ?e" "length (ent_bytes buf k) = DIRENT_SIZE"
    using fit assms(1) by (simp_all add: ent_bytes_def)
  have "splice_at buf (?e + j) x = take ?e buf @ splice_at (ent_bytes buf k) j x @ drop (?e + DIRENT_SIZE) buf"
    using splice_at_middle [of j x "ent_bytes buf k" "take ?e buf" "drop (?e + DIRENT_SIZE) buf"] len assms(3) split
    by simp
  moreover have "chunk ?e DIRENT_SIZE (a @ f @ b) = f" if "length a = ?e" "length f = DIRENT_SIZE" for a f b :: "u8 list"
    using that by (simp add: chunk_def)
  ultimately show ?thesis
    using len assms(3) unfolding ent_bytes_def [of "splice_at buf (?e + j) x"] by simp
qed

lemmas ent_splice = ent_bytes_splice_same ent_bytes_splice_other

text \<open>The bytes of a filled entry, and of the first two of a new directory.\<close>

lemma filled_entry:
  assumes "length e = DIRENT_SIZE" "length nm \<le> NAME_SIZE" "length a = 2" "length b = 2" "length c = 2"
  shows "splice_at (splice_at (splice_at (splice_at (splice_at e 2 a) 0 b) 212 c) 4 (replicate NAME_SIZE 0)) 4 nm =
    b @ a @ nm @ replicate (NAME_SIZE - length nm) 0 @ c"
  using assms by (simp add: splice_at_def fs_consts)

lemma put_entry:
  assumes "length e = DIRENT_SIZE" "length nm < NAME_SIZE" "length a = 2" "length b = 2" "length c = 2"
  shows "splice_at (splice_at (splice_at (splice_at e 2 a) 0 b) 212 c) 4 (nm @ [0]) =
    b @ a @ nm @ 0 # drop (5 + length nm) (take 212 e) @ c"
  using assms by (simp add: splice_at_def fs_consts drop_take)

text \<open>Entry \<open>k\<close> is in use for inode \<open>f\<close> under the one name \<open>nm\<close>.\<close>

definition holds :: "block \<Rightarrow> nat \<Rightarrow> u16 \<Rightarrow> u8 list \<Rightarrow> bool" where
  "holds buf k f nm \<longleftrightarrow> ent_valid buf k \<noteq> 0 \<and> ent_ino buf k = f \<and> unat (ent_len buf k) = length nm \<and>
     (\<forall>nm'. ent_is buf nm' k \<longleftrightarrow> nm' = nm)"

lemma unat_name_len: "length nm \<le> NAME_SIZE \<Longrightarrow> unat (of_nat (length nm) :: u16) = length nm"
  by (intro unat_of_nat_small) (simp add: fs_consts)

lemma u16_at_layout:
  "u16_at (enc16 f @ enc16 v @ rest) 0 = f" "u16_at (enc16 f @ enc16 v @ rest) 2 = v"
  by (simp_all add: layout)

lemma holds_layout:
  assumes e: "ent_bytes buf k = enc16 f @ enc16 1 @ nm @ pad @ enc16 (of_nat (length nm))"
    and pad: "length nm + length pad = NAME_SIZE"
  shows "holds buf k f nm"
proof -
  have v: "ent_valid buf k = 1" "ent_ino buf k = f" by (simp_all add: ent_fields e u16_at_layout)
  have "u16_at (ent_bytes buf k) 212 = of_nat (length nm)"
    using pad by (simp add: e layout fs_consts)
  then have l: "unat (ent_len buf k) = length nm" using pad by (simp add: ent_fields unat_name_len)
  have n: "chunk 4 (length nm) (ent_bytes buf k) = nm" by (simp add: e chunk_def)
  have "ent_is buf nm' k \<longleftrightarrow> nm' = nm" for nm'
  proof (cases "length nm' = length nm")
    case True
    then show ?thesis using v l n pad by (auto simp: ent_is_bytes ent_fields)
  next
    case False
    then show ?thesis using l by (auto simp: ent_is_def)
  qed
  then show ?thesis using v l by (simp add: holds_def)
qed

lemma ent_named_layout:
  assumes e: "ent_bytes buf k = enc16 f @ enc16 1 @ nm @ pad @ enc16 (of_nat (length nm))"
    and pad: "length nm + length pad = NAME_SIZE" "pad \<noteq> [] \<longrightarrow> hd pad = 0" and nm: "0 \<notin> set nm"
  shows "ent_named buf k"
proof -
  have "u16_at (ent_bytes buf k) 212 = of_nat (length nm)"
    using pad by (simp add: e layout fs_consts)
  then have l: "unat (u16_at (ent_bytes buf k) 212) = length nm" using pad by (simp add: unat_name_len)
  have n: "chunk 4 (length nm) (ent_bytes buf k) = nm" by (simp add: e chunk_def)
  have "chunk (4 + length nm) 1 (ent_bytes buf k) = [0]" if "length nm < NAME_SIZE"
  proof -
    have "pad \<noteq> []" using that pad(1) by auto
    then obtain ps where "pad = 0 # ps" using pad(2) by (cases pad) auto
    then show ?thesis by (simp add: e chunk_def)
  qed
  then show ?thesis using l n nm pad(1) by (simp add: ent_named_bytes)
qed

lemma lens_okI:
  assumes "length buf = BLOCK_SIZE"
    and "\<And>k. k < DIRENTS_PER_BLOCK \<Longrightarrow> ent_valid buf k = 0 \<or> ent_named buf k"
  shows "lens_ok buf"
  using assms by (auto simp: lens_ok_def)

text \<open>A series of stores into entry \<open>k\<close>, each at its offset in the entry.\<close>

definition stores :: "nat \<Rightarrow> (nat \<times> u8 list) list \<Rightarrow> block \<Rightarrow> block" where
  "stores k ws buf = fold (\<lambda>(j, x) b. splice_at b (DIRENT_SIZE * k + j) x) ws buf"

lemma stores_ok:
  assumes "length buf = BLOCK_SIZE" "k < DIRENTS_PER_BLOCK" "\<forall>(j, x) \<in> set ws. j + length x \<le> DIRENT_SIZE"
  shows "length (stores k ws buf) = BLOCK_SIZE"
    and "ent_bytes (stores k ws buf) k = fold (\<lambda>(j, x) e. splice_at e j x) ws (ent_bytes buf k)"
    and "k' < DIRENTS_PER_BLOCK \<Longrightarrow> k' \<noteq> k \<Longrightarrow> ent_bytes (stores k ws buf) k' = ent_bytes buf k'"
proof -
  have "length (stores k ws buf) = BLOCK_SIZE \<and>
      ent_bytes (stores k ws buf) k = fold (\<lambda>(j, x) e. splice_at e j x) ws (ent_bytes buf k) \<and>
      (k' < DIRENTS_PER_BLOCK \<longrightarrow> k' \<noteq> k \<longrightarrow> ent_bytes (stores k ws buf) k' = ent_bytes buf k')" for k'
    using assms(1,3)
  proof (induction ws arbitrary: buf)
    case Nil
    then show ?case by (simp add: stores_def)
  next
    case (Cons w ws)
    obtain j x where w: "w = (j, x)" by (cases w)
    let ?b = "splice_at buf (DIRENT_SIZE * k + j) x"
    have fit: "j + length x \<le> DIRENT_SIZE" using Cons.prems w by simp
    have "length ?b = BLOCK_SIZE" using slot_end [OF assms(2)] fit Cons.prems by simp
    note IH = Cons.IH [OF this] and sp = ent_splice(1) [OF Cons.prems(1) assms(2) fit]
      ent_splice(2) [OF Cons.prems(1) assms(2) _ _ fit, of k']
    have "stores k (w # ws) buf = stores k ws ?b" by (simp add: stores_def w)
    then show ?case using IH Cons.prems(2) sp by (simp add: w)
  qed
  then show "length (stores k ws buf) = BLOCK_SIZE"
    "ent_bytes (stores k ws buf) k = fold (\<lambda>(j, x) e. splice_at e j x) ws (ent_bytes buf k)"
    "k' < DIRENTS_PER_BLOCK \<Longrightarrow> k' \<noteq> k \<Longrightarrow> ent_bytes (stores k ws buf) k' = ent_bytes buf k'" by blast+
qed

lemma lens_ok_update:
  assumes "lens_ok buf" "length buf' = BLOCK_SIZE" "ent_named buf' k"
    and "\<And>k'. k' < DIRENTS_PER_BLOCK \<Longrightarrow> k' \<noteq> k \<Longrightarrow> ent_bytes buf' k' = ent_bytes buf k'"
  shows "lens_ok buf'"
proof (rule lens_okI [OF assms(2)])
  fix k' assume k': "k' < DIRENTS_PER_BLOCK"
  show "ent_valid buf' k' = 0 \<or> ent_named buf' k'"
  proof (cases "k' = k")
    case False
    then show ?thesis using assms(1) assms(4) [OF k'] k' by (auto simp: lens_ok_def ent_fields(1) ent_named_bytes)
  qed (use assms(3) in simp)
qed

lemma fill_ent_ok:
  assumes buf: "lens_ok buf" and k: "k < DIRENTS_PER_BLOCK" and nm: "name_ok nm"
  obtains buf' where "fill_ent buf k f nm = Some buf'" "lens_ok buf'" "holds buf' k f nm"
    "\<forall>k'<DIRENTS_PER_BLOCK. k' \<noteq> k \<longrightarrow> ent_bytes buf' k' = ent_bytes buf k'"
proof -
  let ?len = "enc16 (of_nat (length nm))"
  let ?ws = "[(2, enc16 1), (0, enc16 f), (212, ?len), (4, replicate NAME_SIZE 0)]"
  let ?b = "stores k (?ws @ [(4, nm)]) buf"
  have len: "length buf = BLOCK_SIZE" and n: "length nm \<le> NAME_SIZE"
    using buf nm by (simp_all add: lens_ok_def name_ok_def)
  have fits: "\<forall>(j, x) \<in> set (?ws @ [(4, nm)]). j + length x \<le> DIRENT_SIZE" using n by (auto simp: fs_consts)
  then have fits4: "\<forall>(j, x) \<in> set ?ws. j + length x \<le> DIRENT_SIZE" by simp
  note ok = stores_ok [OF len k fits]
  have "DIRENT_SIZE * k + 4 + length nm \<le> length (stores k ?ws buf)"
    using stores_ok(1) [OF len k fits4] slot_end [OF k] n by (simp add: fs_consts)
  then have run: "fill_ent buf k f nm = Some ?b" by (simp add: fill_ent_def stores_def Let_def)
  have e: "ent_bytes ?b k = enc16 f @ enc16 1 @ nm @ replicate (NAME_SIZE - length nm) 0 @ ?len"
    unfolding ok(2) using len slot_end [OF k] n
    by (simp add: filled_entry ent_bytes_def)
  have h: "holds ?b k f nm" by (rule holds_layout [OF e]) (use n in simp)
  have nd: "ent_named ?b k" by (rule ent_named_layout [OF e]) (use n nm in \<open>simp_all add: name_ok_def\<close>)
  have "\<forall>k'<DIRENTS_PER_BLOCK. k' \<noteq> k \<longrightarrow> ent_bytes ?b k' = ent_bytes buf k'" using ok(3) by blast
  moreover have "lens_ok ?b" by (rule lens_ok_update [OF buf ok(1) nd]) (rule ok(3))
  ultimately show ?thesis by (intro that [OF run _ h])
qed

text \<open>The two entries of a new directory, in a block of zeros.\<close>

lemma put_ent_ok:
  assumes buf: "lens_ok buf" and k: "k < DIRENTS_PER_BLOCK" and n: "length nm < NAME_SIZE" "0 \<notin> set nm"
  shows "lens_ok (put_ent k f nm buf)" "holds (put_ent k f nm buf) k f nm"
    "k' < DIRENTS_PER_BLOCK \<Longrightarrow> k' \<noteq> k \<Longrightarrow> ent_bytes (put_ent k f nm buf) k' = ent_bytes buf k'"
proof -
  let ?len = "enc16 (of_nat (length nm))"
  let ?ws = "[(2, enc16 1), (0, enc16 f), (212, ?len), (4, nm @ [0])]"
  have len: "length buf = BLOCK_SIZE" using buf by (simp add: lens_ok_def)
  have fits: "\<forall>(j, x) \<in> set ?ws. j + length x \<le> DIRENT_SIZE" using n by (auto simp: fs_consts)
  note ok = stores_ok [OF len k fits]
  have run: "put_ent k f nm buf = stores k ?ws buf" by (simp add: put_ent_def stores_def Let_def)
  have elen: "length (ent_bytes buf k) = DIRENT_SIZE" using len slot_end [OF k] by (simp add: ent_bytes_def)
  let ?pad = "0 # drop (5 + length nm) (take 212 (ent_bytes buf k))"
  have e: "ent_bytes (stores k ?ws buf) k = enc16 f @ enc16 1 @ nm @ ?pad @ ?len"
    unfolding ok(2) using elen n by (simp add: put_entry)
  have p: "length nm + length ?pad = NAME_SIZE" using elen n by (simp add: fs_consts)
  have h: "holds (stores k ?ws buf) k f nm" by (rule holds_layout [OF e p])
  have nd: "ent_named (stores k ?ws buf) k" by (rule ent_named_layout [OF e p _ n(2)]) simp
  show "lens_ok (put_ent k f nm buf)" "holds (put_ent k f nm buf) k f nm"
    "k' < DIRENTS_PER_BLOCK \<Longrightarrow> k' \<noteq> k \<Longrightarrow> ent_bytes (put_ent k f nm buf) k' = ent_bytes buf k'"
    unfolding run using h lens_ok_update [OF buf ok(1) nd ok(3)] ok(3) by simp_all
qed

section \<open>Lookup in a directory\<close>

text \<open>What one block of a directory answers; 0 is no block.\<close>

definition probe :: "(u32 \<Rightarrow> block) \<Rightarrow> u8 list \<Rightarrow> u32 \<Rightarrow> dirent option" where
  "probe rd nm b =
     (if b = 0 then None
      else map_option (ent_at (rd b)) (first_clear (\<lambda>k. \<not> ent_is (rd b) nm k) 0 DIRENTS_PER_BLOCK))"

fun first_some :: "'a option list \<Rightarrow> 'a option" where
  "first_some [] = None"
| "first_some (None # xs) = first_some xs"
| "first_some (Some x # xs) = Some x"

lemma first_some_None: "first_some xs = None \<longleftrightarrow> (\<forall>x \<in> set xs. x = None)"
  by (induction xs rule: first_some.induct) auto

lemma first_some_in: "first_some xs = Some x \<Longrightarrow> Some x \<in> set xs"
  by (induction xs rule: first_some.induct) auto

lemma first_some_only:
  "p < length xs \<Longrightarrow> xs ! p = Some x \<Longrightarrow> \<forall>q<p. xs ! q = None \<Longrightarrow> first_some xs = Some x"
proof (induction xs arbitrary: p rule: first_some.induct)
  case (2 xs)
  then obtain n where p: "p = Suc n" by (cases p) auto
  have "\<forall>q<n. xs ! q = None" using 2(4) by (auto simp: p dest: spec [of _ "Suc _"])
  then show ?case using 2(1) [of n] 2(2,3) by (simp add: p)
next
  case (3 x xs)
  then show ?case by (cases p) auto
qed simp

text \<open>The blocks of a directory are well formed.\<close>

definition dir_blocks_ok :: "(u32 \<Rightarrow> block) \<Rightarrow> inode \<Rightarrow> bool" where
  "dir_blocks_ok rd dir \<longleftrightarrow> length (direct_ptr dir) = 16 \<and>
     (\<forall>b \<in> set (direct_ptr dir). b \<noteq> 0 \<longrightarrow> lens_ok (rd b))"

lemma find_in_probes:
  assumes "dir_blocks_ok (bio_read s) dir" "0 \<notin> set nm"
  shows "find_in s dir nm p = Some (first_some (map (probe (bio_read s) nm) (drop p (direct_ptr dir))))"
  using assms
proof (induction s dir nm p rule: find_in.induct)
  case (1 s dir nm p)
  let ?b = "direct_ptr dir ! p"
  have len: "length (direct_ptr dir) = 16" using 1(3) by (simp add: dir_blocks_ok_def)
  show ?case
  proof (cases "p < 16")
    case False
    then show ?thesis using len by (simp add: find_in.simps [of s dir nm p])
  next
    case True
    then have d: "drop p (direct_ptr dir) = ?b # drop (Suc p) (direct_ptr dir)"
      using len by (simp add: Cons_nth_drop_Suc)
    show ?thesis
    proof (cases "?b = 0")
      case z: True
      then have "find_in s dir nm p = find_in s dir nm (Suc p)"
        using True by (simp add: find_in.simps [of s dir nm p])
      then show ?thesis using "1.IH"(1) [OF True refl] z 1(3,4) by (simp add: d probe_def)
    next
      case nz: False
      have "?b \<in> set (direct_ptr dir)" using len True by simp
      then have "lens_ok (bio_read s ?b)" using nz 1(3) by (simp add: dir_blocks_ok_def)
      note f = find_ent_first [OF this 1(4), of 0]
      show ?thesis
      proof (cases "first_clear (\<lambda>k. \<not> ent_is (bio_read s ?b) nm k) 0 DIRENTS_PER_BLOCK")
        case None
        then have "find_in s dir nm p = find_in s dir nm (Suc p)"
          using True nz f by (simp add: find_in.simps [of s dir nm p])
        then show ?thesis
          using "1.IH"(2) [OF True refl nz refl f None] None nz 1(3,4) by (simp add: d probe_def)
      next
        case (Some k)
        then show ?thesis using True nz f by (simp add: find_in.simps [of s dir nm p] d probe_def)
      qed
    qed
  qed
qed

lemma probe_Some: "probe rd nm b = Some d \<Longrightarrow>
    \<exists>k<DIRENTS_PER_BLOCK. b \<noteq> 0 \<and> d = ent_at (rd b) k \<and> ent_is (rd b) nm k"
  by (auto simp: probe_def first_clear_Some split: if_splits)

lemma probe_None: "probe rd nm b = None \<longleftrightarrow> b = 0 \<or> (\<forall>k<DIRENTS_PER_BLOCK. \<not> ent_is (rd b) nm k)"
  by (auto simp: probe_def first_clear_None)

lemma probe_cong: "rd' b = rd b \<Longrightarrow> probe rd' nm b = probe rd nm b"
  by (simp add: probe_def)

text \<open>Block \<open>b\<close> gets entry \<open>k\<close>, free before, for \<open>nm\<close>: only lookups of \<open>nm\<close> change there.\<close>

lemma probe_update:
  assumes old: "lens_ok (rd b)" and new: "lens_ok (rd' b)" and b: "b \<noteq> 0"
    and k: "k < DIRENTS_PER_BLOCK" "ent_valid (rd b) k = 0"
    and h: "holds (rd' b) k f nm"
    and rest: "\<forall>k'<DIRENTS_PER_BLOCK. k' \<noteq> k \<longrightarrow> ent_bytes (rd' b) k' = ent_bytes (rd b) k'"
  shows "nm' \<noteq> nm \<Longrightarrow> probe rd' nm' b = probe rd nm' b"
    and "probe rd nm b = None \<Longrightarrow> \<exists>d. probe rd' nm b = Some d \<and> d_ino d = f"
proof -
  let ?o = "rd b" and ?n = "rd' b"
  have same: "ent_is ?n nm' k' = ent_is ?o nm' k'" if "k' < DIRENTS_PER_BLOCK" "k' \<noteq> k" for nm' k'
    using ent_is_cong [OF old new that(1)] rest that by simp
  have "\<not> ent_is ?o nm' k" for nm' using k(2) by (simp add: ent_is_def)
  moreover have "ent_is ?n nm' k \<longleftrightarrow> nm' = nm" for nm' using h by (simp add: holds_def)
  ultimately have all: "ent_is ?n nm' k' \<longleftrightarrow> (if nm' = nm \<and> k' = k then True else ent_is ?o nm' k')"
    if "k' < DIRENTS_PER_BLOCK" for nm' k' using same [OF that] by (cases "k' = k") auto
  show "probe rd' nm' b = probe rd nm' b" if ne: "nm' \<noteq> nm"
  proof -
    have e: "first_clear (\<lambda>k. \<not> ent_is ?n nm' k) 0 DIRENTS_PER_BLOCK =
        first_clear (\<lambda>k. \<not> ent_is ?o nm' k) 0 DIRENTS_PER_BLOCK"
      using all ne by (intro first_clear_cong) auto
    show ?thesis
    proof (cases "first_clear (\<lambda>k. \<not> ent_is ?o nm' k) 0 DIRENTS_PER_BLOCK")
      case None
      then show ?thesis using e by (simp add: probe_def)
    next
      case (Some j)
      then have "j < DIRENTS_PER_BLOCK" "ent_is ?o nm' j" by (auto simp: first_clear_Some)
      moreover from this have "j \<noteq> k" using k(2) by (auto simp: ent_is_def)
      ultimately have "ent_at ?n j = ent_at ?o j" using rest by (simp add: ent_fields)
      then show ?thesis using e Some by (simp add: probe_def)
    qed
  qed
  show "\<exists>d. probe rd' nm b = Some d \<and> d_ino d = f" if "probe rd nm b = None"
  proof -
    have "\<not> ent_is ?o nm j" if "j < DIRENTS_PER_BLOCK" for j
      using \<open>probe rd nm b = None\<close> b that by (auto simp: probe_None)
    then have "first_clear (\<lambda>k. \<not> ent_is ?n nm k) 0 DIRENTS_PER_BLOCK = Some k"
      using all k(1) by (auto simp: first_clear_Some)
    then show ?thesis using b h by (simp add: probe_def holds_def)
  qed
qed

end
