(* ===== verification/FsView.thy ===== *)
theory FsView
  imports FsLookup
begin

text \<open>
  The abstract file system: the superblock on the disk, the inodes, the sets of inodes and blocks
  in use and the contents of the data blocks. Every primitive of the disk layer is an update of one of these fields.
\<close>

section \<open>The abstract state\<close>

record store =
  super :: superblock
  inodes :: "nat \<Rightarrow> inode"
  iused :: "nat set"
  bused :: "nat set"
  data :: "nat \<Rightarrow> block"

definition data_blk :: "nat \<Rightarrow> bool" where
  "data_blk b \<longleftrightarrow> 67 \<le> b \<and> b < 8192"

definition view :: "fs \<Rightarrow> store" where
  "view s = \<lparr>super = dec_superblock (blk s 0), inodes = (\<lambda>i. if i < 1024 then inode_of s i else zero_inode),
     iused = {i. i < 1024 \<and> ino_used s i}, bused = {b. data_blk b \<and> blk_used s b},
     data = (\<lambda>b. if data_blk b then blk s b else [])\<rparr>"

lemma view_simps [simp]:
  "i < 1024 \<Longrightarrow> inodes (view s) i = inode_of s i"
  "i \<in> iused (view s) \<longleftrightarrow> i < 1024 \<and> ino_used s i"
  "b \<in> bused (view s) \<longleftrightarrow> data_blk b \<and> blk_used s b"
  "data_blk b \<Longrightarrow> data (view s) b = blk s b"
  by (simp_all add: view_def)

lemma store_eqI:
  "super v = super w \<Longrightarrow> inodes v = inodes w \<Longrightarrow> iused v = iused w \<Longrightarrow> bused v = bused w \<Longrightarrow> data v = data w \<Longrightarrow> v = (w :: store)"
  by (cases v, cases w) simp

text \<open>Updates of different fields, in one order: the inode table last.\<close>

lemma store_commute:
  "v\<lparr>inodes := f, data := g\<rparr> = v\<lparr>data := g, inodes := f\<rparr>"
  "v\<lparr>inodes := f, bused := u\<rparr> = v\<lparr>bused := u, inodes := f\<rparr>"
  "v\<lparr>inodes := f, iused := t\<rparr> = v\<lparr>iused := t, inodes := f\<rparr>"
  for v :: store
  by simp_all

lemma data_blk_small: "data_blk b \<Longrightarrow> b < 2 ^ 19"
  by (simp add: data_blk_def)

section \<open>The primitives on the abstract state\<close>

lemma view_readi: "disk_ok s \<Longrightarrow> readi i s = (if unat i < 1024 then (0, Some (inodes (view s) (unat i))) else (-EINVAL, None))"
  using readi_ok [of s "unat i"]
  by (auto simp: readi_def disk_ok_def formatted_sb_def word_le_nat_alt)

lemma view_read: "data_blk (unat b) \<Longrightarrow> bio_read s b = data (view s) (unat b)"
  by (simp add: blk_def)

lemma view_inode_shape: "disk_ok s \<Longrightarrow> inode_shape (inodes (view s) i)"
  using inode_of_shape [of s i] by (simp add: view_def)

lemma view_data_len: "disk_ok s \<Longrightarrow> data_blk b \<Longrightarrow> length (data (view s) b) = BLOCK_SIZE"
  using data_blk_small by simp

lemma view_writei:
  assumes ok: "disk_ok s" and i: "unat i < 1024" and n: "inode_shape n"
  obtains s' where "writei i n s = (0, s')" "disk_ok s'"
    "view s' = (view s)\<lparr>inodes := (inodes (view s))(unat i := n)\<rparr>"
proof -
  obtain s' where s': "writei (of_nat (unat i)) n s = (0, s')" "disk_ok s'"
    "\<And>j. j < 1024 \<Longrightarrow> inode_of s' j = (if j = unat i then n else inode_of s j)"
    "\<And>b. b < 2 ^ 19 \<Longrightarrow> b < 3 \<or> 67 \<le> b \<Longrightarrow> blk s' b = blk s b"
    using writei_ok [OF ok i n] by metis
  have "view s' = (view s)\<lparr>inodes := (inodes (view s))(unat i := n)\<rparr>"
    using s'(3,4) i by (intro store_eqI) (auto simp: view_def ino_used_def blk_used_def data_blk_def fun_eq_iff)
  with s' show ?thesis by (intro that) simp_all
qed

lemma view_write:
  assumes ok: "disk_ok s" and b: "data_blk (unat b)" and len: "length buf = BLOCK_SIZE"
  shows "disk_ok (bio_write b buf s)"
    and "view (bio_write b buf s) = (view s)\<lparr>data := (data (view s))(unat b := buf)\<rparr>"
proof -
  note w = write_blk [OF ok data_blk_small [OF b] len]
  show "disk_ok (bio_write b buf s)" using w(1) by simp
  have u: "67 \<le> unat b" using b by (simp add: data_blk_def)
  have "inode_of (bio_write b buf s) i = inode_of s i" if "i < 1024" for i
    using w(2) [of "3 + i div 16"] that u by (intro inode_of_cong) auto
  moreover have "blk (bio_write b buf s) c = (if c = unat b then buf else blk s c)" if "c < 2 ^ 19" for c
    using w(2) that by simp
  ultimately show "view (bio_write b buf s) = (view s)\<lparr>data := (data (view s))(unat b := buf)\<rparr>"
    using u b by (intro store_eqI) (auto simp: view_def ino_used_def blk_used_def data_blk_def fun_eq_iff)
qed

lemma view_get_avail_ino:
  assumes ok: "disk_ok s"
  obtains (full) "get_avail_ino s = Some (-1, s)" "{..<1024} \<subseteq> iused (view s)"
  | (found) i s' where "get_avail_ino s = Some (int i, s')" "i < 1024" "i \<notin> iused (view s)" "disk_ok s'"
      "view s' = (view s)\<lparr>iused := insert i (iused (view s))\<rparr>" "\<forall>j<i. j \<in> iused (view s)"
proof (cases rule: get_avail_ino_cases [OF ok])
  case 1
  then show ?thesis by (intro full) auto
next
  case (2 i s')
  have "inode_of s' j = inode_of s j" if "j < 1024" for j
    using 2(6) that by (intro inode_of_cong) auto
  then have "view s' = (view s)\<lparr>iused := insert i (iused (view s))\<rparr>"
    using 2 by (intro store_eqI) (auto simp: view_def blk_used_def data_blk_def fun_eq_iff)
  then show ?thesis using 2 by (intro found) auto
qed

lemma view_get_avail_blkno:
  assumes ok: "disk_ok s"
  obtains (full) "get_avail_blkno s = Some (-1, s)" "bused (view s) = {b. data_blk b}"
  | (found) b s' where "get_avail_blkno s = Some (int b, s')" "data_blk b" "b \<notin> bused (view s)" "disk_ok s'"
      "view s' = (view s)\<lparr>bused := insert b (bused (view s))\<rparr>" "\<forall>c. data_blk c \<and> c < b \<longrightarrow> c \<in> bused (view s)"
proof (cases rule: get_avail_blkno_cases [OF ok])
  case 1
  then show ?thesis by (intro full) (auto simp: data_blk_def)
next
  case (2 b s')
  have "inode_of s' j = inode_of s j" if "j < 1024" for j
    using 2(7) that by (intro inode_of_cong) auto
  then have "view s' = (view s)\<lparr>bused := insert b (bused (view s))\<rparr>"
    using 2 by (intro store_eqI) (auto simp: view_def ino_used_def data_blk_def fun_eq_iff)
  then show ?thesis using 2 by (intro found) (auto simp: data_blk_def)
qed

text \<open>The number of a data block as the int and the word the code passes on.\<close>

lemma data_blk_word:
  assumes "data_blk b"
  shows "unat (of_int (int b) :: u32) = b" "(of_int (int b) :: u32) \<noteq> 0"
proof -
  show u: "unat (of_int (int b) :: u32) = b"
    using assms unat_u32_small [OF data_blk_small [OF assms]] by simp
  show "(of_int (int b) :: u32) \<noteq> 0"
  proof
    assume "(of_int (int b) :: u32) = 0"
    then have "b = 0" using u by simp
    then show False using assms by (simp add: data_blk_def)
  qed
qed

declare view_simps [simp del]

end
