(* ===== verification/FsInv.thy ===== *)
theory FsInv
  imports FsView
begin

text \<open>
  The invariant of a mounted file system: the inodes, the bitmaps and the directories agree. The
  facts of this theory say how updates of the abstract state keep it, and what adding an entry to
  a directory does to the directory as a map from names to inode numbers.
\<close>

section \<open>The invariant\<close>

definition alive :: "store \<Rightarrow> nat \<Rightarrow> bool" where
  "alive v i \<longleftrightarrow> i < 1024 \<and> ivalid (inodes v i) \<noteq> 0"

definition is_dir :: "inode \<Rightarrow> bool" where
  "is_dir n \<longleftrightarrow> itype n = S_IFDIR"

text \<open>The data blocks an inode points to.\<close>

definition owned :: "inode \<Rightarrow> nat set" where
  "owned n = {unat b |b. b \<in> set (direct_ptr n) \<and> b \<noteq> 0}"

text \<open>Distinct pointers are distinct blocks, so that writing one does not change another.\<close>

definition ptrs_distinct :: "inode \<Rightarrow> bool" where
  "ptrs_distinct n \<longleftrightarrow> distinct (filter (\<lambda>b. b \<noteq> 0) (direct_ptr n))"

definition inode_ok :: "store \<Rightarrow> nat \<Rightarrow> bool" where
  "inode_ok v i \<longleftrightarrow> inode_shape (inodes v i) \<and>
     (alive v i \<longrightarrow> i \<in> iused v \<and> unat (ino (inodes v i)) = i \<and> owned (inodes v i) \<subseteq> bused v \<and>
        ptrs_distinct (inodes v i))"

definition core :: "store \<Rightarrow> bool" where
  "core v \<longleftrightarrow> super v = formatted_sb \<and> (\<forall>i. inode_ok v i) \<and> bused v \<subseteq> {b. data_blk b} \<and>
     (\<forall>b. data_blk b \<longrightarrow> length (data v b) = BLOCK_SIZE) \<and>
     (\<forall>i j. alive v i \<and> alive v j \<and> i \<noteq> j \<longrightarrow> owned (inodes v i) \<inter> owned (inodes v j) = {})"

text \<open>Every entry in use has a name that fits and leads to an inode of \<open>L\<close>.\<close>

definition block_ents :: "nat set \<Rightarrow> block \<Rightarrow> bool" where
  "block_ents L buf \<longleftrightarrow> lens_ok buf \<and>
     (\<forall>k<DIRENTS_PER_BLOCK. ent_valid buf k \<noteq> 0 \<longrightarrow> unat (ent_ino buf k) \<in> L)"

definition dirs :: "nat set \<Rightarrow> store \<Rightarrow> bool" where
  "dirs L v \<longleftrightarrow> (\<forall>i. alive v i \<and> is_dir (inodes v i) \<longrightarrow> (\<forall>b \<in> owned (inodes v i). block_ents L (data v b)))"

definition store_inv :: "store \<Rightarrow> bool" where
  "store_inv v \<longleftrightarrow> core v \<and> dirs {i. alive v i} v \<and> alive v 0 \<and> is_dir (inodes v 0)"

definition fs_inv :: "fs \<Rightarrow> bool" where
  "fs_inv s \<longleftrightarrow> disk_ok s \<and> store_inv (view s)"

text \<open>Directory \<open>i\<close> as a map.\<close>

definition rd :: "store \<Rightarrow> u32 \<Rightarrow> block" where
  "rd v b = data v (unat b)"

definition dmap :: "store \<Rightarrow> nat \<Rightarrow> u8 list \<Rightarrow> u16 option" where
  "dmap v i nm = map_option d_ino (first_some (map (probe (rd v) nm) (direct_ptr (inodes v i))))"

section \<open>Updates keep it\<close>

lemma coreD:
  assumes "core v"
  shows "inode_shape (inodes v i)" "alive v i \<Longrightarrow> i \<in> iused v" "alive v i \<Longrightarrow> unat (ino (inodes v i)) = i"
    "alive v i \<Longrightarrow> owned (inodes v i) \<subseteq> bused v" "alive v i \<Longrightarrow> ptrs_distinct (inodes v i)"
    "b \<in> bused v \<Longrightarrow> data_blk b" "data_blk b \<Longrightarrow> length (data v b) = BLOCK_SIZE"
    "alive v i \<Longrightarrow> alive v j \<Longrightarrow> i \<noteq> j \<Longrightarrow> b \<in> owned (inodes v i) \<Longrightarrow> b \<notin> owned (inodes v j)"
  using assms by (auto simp: core_def inode_ok_def disjoint_iff)

lemma owned_ptr: "b \<in> set (direct_ptr n) \<Longrightarrow> b \<noteq> 0 \<Longrightarrow> unat b \<in> owned n"
  by (auto simp: owned_def)

lemma core_shape_zero: "disk_ok s \<Longrightarrow> inode_shape (inodes (view s) i)"
  by (rule view_inode_shape)

lemma alive_upd [simp]:
  "alive (v\<lparr>data := d\<rparr>) = alive v" "alive (v\<lparr>bused := u\<rparr>) = alive v" "alive (v\<lparr>iused := t\<rparr>) = alive v"
  by (simp_all add: alive_def fun_eq_iff)

lemma alive_set: "alive (v\<lparr>inodes := (inodes v)(i := n)\<rparr>) j \<longleftrightarrow> (if j = i then i < 1024 \<and> ivalid n \<noteq> 0 else alive v j)"
  by (auto simp: alive_def)

lemma core_data: "core v \<Longrightarrow> length buf = BLOCK_SIZE \<Longrightarrow> core (v\<lparr>data := (data v)(b := buf)\<rparr>)"
  by (simp add: core_def inode_ok_def)

lemma core_use_blk: "core v \<Longrightarrow> data_blk b \<Longrightarrow> core (v\<lparr>bused := insert b (bused v)\<rparr>)"
  by (auto simp: core_def inode_ok_def)

lemma core_use_ino: "core v \<Longrightarrow> core (v\<lparr>iused := insert i (iused v)\<rparr>)"
  by (auto simp: core_def inode_ok_def)

lemma core_set_inode:
  assumes c: "core v" and i: "i < 1024" and n: "inode_shape n" and u: "i \<in> iused v" "unat (ino n) = i"
    and o: "owned n \<subseteq> bused v" "ptrs_distinct n"
    and disj: "\<And>j b. alive v j \<Longrightarrow> j \<noteq> i \<Longrightarrow> b \<in> owned n \<Longrightarrow> b \<notin> owned (inodes v j)"
  shows "core (v\<lparr>inodes := (inodes v)(i := n)\<rparr>)"
  unfolding core_def
proof (intro conjI allI impI)
  let ?v = "v\<lparr>inodes := (inodes v)(i := n)\<rparr>"
  show "super ?v = formatted_sb" using c by (simp add: core_def)
  show "inode_ok ?v j" for j
    using coreD(1-5) [OF c, of j] n u o by (auto simp: inode_ok_def alive_set)
  show "bused ?v \<subseteq> {b. data_blk b}" using coreD(6) [OF c] by auto
  show "length (data ?v b) = BLOCK_SIZE" if "data_blk b" for b using coreD(7) [OF c that] by simp
  show "owned (inodes ?v j) \<inter> owned (inodes ?v k) = {}" if a: "alive ?v j \<and> alive ?v k \<and> j \<noteq> k" for j k
  proof -
    consider "j = i" | "k = i" | "j \<noteq> i" "k \<noteq> i" by blast
    then show ?thesis
    proof cases
      case 1
      then show ?thesis using disj [of k] a by (auto simp: alive_set)
    next
      case 2
      then show ?thesis using disj [of j] a by (auto simp: alive_set)
    next
      case 3
      then show ?thesis using coreD(8) [OF c, of j k] a by (auto simp: alive_set)
    qed
  qed
qed

text \<open>An inode replaced by one with the same pointers.\<close>

lemma core_touch:
  assumes c: "core v" and a: "alive v i" and n: "inode_shape n" "ino n = ino (inodes v i)"
    and p: "direct_ptr n = direct_ptr (inodes v i)"
  shows "core (v\<lparr>inodes := (inodes v)(i := n)\<rparr>)"
proof -
  have o: "owned n = owned (inodes v i)" "ptrs_distinct n = ptrs_distinct (inodes v i)"
    using p by (simp_all add: owned_def ptrs_distinct_def)
  show ?thesis
    using coreD(2-5) [OF c a] coreD(8) [OF c a] a n o by (intro core_set_inode [OF c]) (auto simp: alive_def)
qed

lemma dirsD: "dirs L v \<Longrightarrow> alive v i \<Longrightarrow> is_dir (inodes v i) \<Longrightarrow> b \<in> owned (inodes v i) \<Longrightarrow> block_ents L (data v b)"
  by (simp add: dirs_def)

lemma dirs_mono: "dirs L v \<Longrightarrow> L \<subseteq> L' \<Longrightarrow> dirs L' v"
  by (fastforce simp: dirs_def block_ents_def)

lemma dirs_upd [simp]:
  "dirs L (v\<lparr>bused := u\<rparr>) = dirs L v" "dirs L (v\<lparr>iused := t\<rparr>) = dirs L v"
  by (simp_all add: dirs_def)

lemma dirs_data:
  assumes "dirs L v" and "\<And>i. alive v i \<Longrightarrow> is_dir (inodes v i) \<Longrightarrow> b \<in> owned (inodes v i) \<Longrightarrow> block_ents L buf"
  shows "dirs L (v\<lparr>data := (data v)(b := buf)\<rparr>)"
  using assms by (auto simp: dirs_def)

lemma dirs_set_inode:
  assumes "dirs L v"
    and "is_dir n \<Longrightarrow> ivalid n \<noteq> 0 \<Longrightarrow> \<forall>b \<in> owned n. block_ents L (data v b)"
  shows "dirs L (v\<lparr>inodes := (inodes v)(i := n)\<rparr>)"
  using assms by (auto simp: dirs_def alive_set)

lemma owned_cong: "direct_ptr n = direct_ptr m \<Longrightarrow> owned n = owned m"
  by (simp add: owned_def)

section \<open>Lookup on the abstract state\<close>

lemma view_rd: "core (view s) \<Longrightarrow> unat b \<in> bused (view s) \<Longrightarrow> bio_read s b = rd (view s) b"
  using coreD(6) view_read by (metis rd_def)

lemma probe_cong_set:
  "(\<And>b. b \<in> set bs \<Longrightarrow> b \<noteq> 0 \<Longrightarrow> r b = r' b) \<Longrightarrow> map (probe r nm) bs = map (probe r' nm) bs"
  by (auto simp: probe_def)

lemma dir_view:
  assumes c: "core (view s)" "dirs L (view s)" and a: "alive (view s) d" "is_dir (inodes (view s) d)"
  shows "dir_blocks_ok (bio_read s) (inodes (view s) d)"
    and "\<And>b. b \<in> set (direct_ptr (inodes (view s) d)) \<Longrightarrow> b \<noteq> 0 \<Longrightarrow> bio_read s b = rd (view s) b"
    and "\<And>b. b \<in> set (direct_ptr (inodes (view s) d)) \<Longrightarrow> b \<noteq> 0 \<Longrightarrow> block_ents L (rd (view s) b)"
proof -
  have r: "bio_read s b = rd (view s) b" and e: "block_ents L (rd (view s) b)"
    if "b \<in> set (direct_ptr (inodes (view s) d))" "b \<noteq> 0" for b
  proof -
    have o: "unat b \<in> owned (inodes (view s) d)" using that by (rule owned_ptr)
    then show "bio_read s b = rd (view s) b" using coreD(4) [OF c(1) a(1)] view_rd [OF c(1)] by blast
    show "block_ents L (rd (view s) b)" using c(2) a o by (auto simp: dirs_def rd_def)
  qed
  then show "\<And>b. b \<in> set (direct_ptr (inodes (view s) d)) \<Longrightarrow> b \<noteq> 0 \<Longrightarrow> bio_read s b = rd (view s) b"
    "\<And>b. b \<in> set (direct_ptr (inodes (view s) d)) \<Longrightarrow> b \<noteq> 0 \<Longrightarrow> block_ents L (rd (view s) b)" by blast+
  show "dir_blocks_ok (bio_read s) (inodes (view s) d)"
    using coreD(1) [OF c(1), of d] r e by (simp add: dir_blocks_ok_def inode_shape_def block_ents_def)
qed

text \<open>\<open>dir_find\<close> applies the map.\<close>

lemma dir_find_dmap:
  assumes ok: "disk_ok s" and c: "core (view s)" "dirs L (view s)"
    and a: "alive (view s) (unat i)" "is_dir (inodes (view s) (unat i))" and nm: "0 \<notin> set nm"
  obtains (absent) "dir_find s i nm = Some (-ENOENT, None)" "dmap (view s) (unat i) nm = None"
  | (present) d where "dir_find s i nm = Some (0, Some d)" "dmap (view s) (unat i) nm = Some (d_ino d)"
      "unat (d_ino d) \<in> L"
proof -
  let ?n = "inodes (view s) (unat i)"
  note dv = dir_view [OF c a]
  have probes: "map (probe (bio_read s) nm) (direct_ptr ?n) = map (probe (rd (view s)) nm) (direct_ptr ?n)"
    using dv(2) by (rule probe_cong_set)
  have find: "dir_find s i nm =
      (case first_some (map (probe (rd (view s)) nm) (direct_ptr ?n)) of
         Some d \<Rightarrow> Some (0, Some d) | None \<Rightarrow> Some (-ENOENT, None))"
  proof -
    have "find_in s ?n nm 0 = Some (first_some (map (probe (rd (view s)) nm) (direct_ptr ?n)))"
      using find_in_probes [OF dv(1) nm, of 0] by (simp only: drop_0 probes)
    then show ?thesis
      using view_readi [OF ok, of i] a(1) by (simp add: dir_find_def alive_def split: option.split)
  qed
  show ?thesis
  proof (cases "first_some (map (probe (rd (view s)) nm) (direct_ptr ?n))")
    case None
    then show ?thesis using find by (intro absent) (simp_all add: dmap_def)
  next
    case (Some d)
    then obtain b where b: "b \<in> set (direct_ptr ?n)" "probe (rd (view s)) nm b = Some d"
      using first_some_in by fastforce
    then obtain k where "k < DIRENTS_PER_BLOCK" "b \<noteq> 0" "d = ent_at (rd (view s) b) k" "ent_is (rd (view s) b) nm k"
      using probe_Some by metis
    then have "unat (d_ino d) \<in> L" using dv(3) [OF b(1)] by (auto simp: block_ents_def ent_is_def)
    then show ?thesis using Some find by (intro present) (simp_all add: dmap_def)
  qed
qed

end
