(* ===== verification/FsEntries.thy ===== *)
theory FsEntries
  imports FsInv
begin

text \<open>
  The names in a directory as a list, in the order in which they lie on the disk: what the map of the
  directory does not see is a name that stands twice.
\<close>

section \<open>The names in a block\<close>

definition name_of :: "block \<Rightarrow> nat \<Rightarrow> u8 list" where
  "name_of buf k = chunk (DIRENT_SIZE * k + 4) (unat (ent_len buf k)) buf"

definition block_names :: "block \<Rightarrow> u8 list list" where
  "block_names buf = map (name_of buf) (filter (\<lambda>k. ent_valid buf k \<noteq> 0) [0..<DIRENTS_PER_BLOCK])"

definition entry_names :: "store \<Rightarrow> nat \<Rightarrow> u8 list list" where
  "entry_names v i = concat (map (\<lambda>b. if b = 0 then [] else block_names (rd v b)) (direct_ptr (inodes v i)))"

lemma name_of_is: "lens_ok buf \<Longrightarrow> k < DIRENTS_PER_BLOCK \<Longrightarrow> ent_valid buf k \<noteq> 0 \<Longrightarrow> ent_is buf nm k \<longleftrightarrow> nm = name_of buf k"
proof -
  assume ok: "lens_ok buf" and k: "k < DIRENTS_PER_BLOCK" and v: "ent_valid buf k \<noteq> 0"
  have "length (name_of buf k) = unat (ent_len buf k)"
    using lens_ok_len [OF ok k v] slot_end [OF k] ok by (simp add: name_of_def lens_ok_def fs_consts)
  then show ?thesis using v by (auto simp: ent_is_def name_of_def)
qed

lemma name_of_bytes:
  assumes "lens_ok buf" "k < DIRENTS_PER_BLOCK" "ent_valid buf k \<noteq> 0" "ent_bytes buf' k = ent_bytes buf k"
  shows "name_of buf' k = name_of buf k"
proof -
  have n: "unat (ent_len buf k) \<le> NAME_SIZE" by (rule lens_ok_len [OF assms(1-3)])
  have "ent_len buf' k = ent_len buf k" using assms(4) by (simp add: ent_fields(3))
  moreover have "chunk (DIRENT_SIZE * k + 4) m c = chunk 4 m (ent_bytes c k)" if "m \<le> NAME_SIZE" for m c
    using that by (simp add: ent_bytes_def chunk_chunk fs_consts)
  ultimately show ?thesis using n assms(4) by (simp add: name_of_def)
qed

lemma mset_block_names: "mset (block_names buf) =
    image_mset (name_of buf) (mset_set {k. k < DIRENTS_PER_BLOCK \<and> ent_valid buf k \<noteq> 0})"
proof -
  have "mset (filter P [0..<n]) = mset_set {k. k < n \<and> P k}" for P :: "nat \<Rightarrow> bool" and n
  proof -
    have "mset (filter P [0..<n]) = mset_set (set (filter P [0..<n]))" by (rule mset_set_set [symmetric]) simp
    also have "set (filter P [0..<n]) = {k. k < n \<and> P k}" by auto
    finally show ?thesis .
  qed
  then show ?thesis by (simp add: block_names_def)
qed

lemma block_names_fill:
  assumes old: "lens_ok old" and buf: "lens_ok buf" "holds buf k f nm" and k: "k < DIRENTS_PER_BLOCK" "ent_valid old k = 0"
    and others: "\<forall>k'<DIRENTS_PER_BLOCK. k' \<noteq> k \<longrightarrow> ent_bytes buf k' = ent_bytes old k'"
  shows "mset (block_names buf) = add_mset nm (mset (block_names old))"
proof -
  let ?S = "{k. k < DIRENTS_PER_BLOCK \<and> ent_valid old k \<noteq> 0}"
  have v: "ent_valid buf k \<noteq> 0" "ent_is buf nm k" using buf(2) by (auto simp: holds_def ent_is_def)
  then have nm: "name_of buf k = nm" using name_of_is [OF buf(1) k(1) v(1)] by simp
  have "{k. k < DIRENTS_PER_BLOCK \<and> ent_valid buf k \<noteq> 0} = insert k ?S"
    using k v others by (auto simp: ent_fields(1))
  moreover have "image_mset (name_of buf) (mset_set ?S) = image_mset (name_of old) (mset_set ?S)"
    using k others by (intro image_mset_cong name_of_bytes [OF old]) auto
  ultimately show ?thesis using k nm by (simp add: mset_block_names)
qed

lemma block_names_one:
  assumes "lens_ok buf" "holds buf 0 f nm" "\<forall>k'<DIRENTS_PER_BLOCK. k' \<noteq> 0 \<longrightarrow> ent_valid buf k' = 0"
  shows "block_names buf = [nm]"
proof -
  have "ent_valid buf 0 \<noteq> 0" "ent_is buf nm 0" using assms(2) by (auto simp: holds_def ent_is_def)
  moreover have "[0..<DIRENTS_PER_BLOCK] = 0 # [1..<DIRENTS_PER_BLOCK]" by (simp add: dirents_19 upt_rec)
  moreover have "filter (\<lambda>k. ent_valid buf k \<noteq> 0) [1..<DIRENTS_PER_BLOCK] = []"
    using assms(3) by (auto simp: filter_empty_conv)
  ultimately show ?thesis
    using name_of_is [OF assms(1) _ \<open>ent_valid buf 0 \<noteq> 0\<close>, of nm] by (simp add: block_names_def dirents_19)
qed

section \<open>The names in a directory\<close>

lemma concat_one_changed:
  assumes "distinct (filter P bs)" "b \<in> set bs" "P b" "mset (g' b) = add_mset x (mset (g b))" "\<forall>c. c \<noteq> b \<longrightarrow> g' c = g c"
  shows "mset (concat (map g' bs)) = add_mset x (mset (concat (map g bs)))"
  using assms
proof (induction bs)
  case (Cons c bs)
  show ?case
  proof (cases "c = b")
    case True
    then have "b \<notin> set bs" using Cons.prems(1,3) by auto
    then have e: "map g' bs = map g bs" using Cons.prems(5) by (intro map_cong) auto
    show ?thesis unfolding list.map concat.simps e using True Cons.prems(4) by simp
  next
    case False
    then have "distinct (filter P bs)" "b \<in> set bs" using Cons.prems(1,2) by (auto split: if_splits)
    then show ?thesis using Cons False by simp
  qed
qed simp

lemma concat_one_new:
  assumes "p < length bs" "g (bs ! p) = []" "\<forall>c \<in> set bs. g' c = g c"
  shows "mset (concat (map g' (bs[p := b]))) = mset (g' b) + mset (concat (map g bs))"
proof -
  have s: "bs = take p bs @ bs ! p # drop (Suc p) bs" using assms(1) by (rule id_take_nth_drop)
  have "concat (map g bs) = concat (map g (take p bs)) @ concat (map g (drop (Suc p) bs))"
    by (subst s) (simp add: assms(2))
  moreover have e: "map g' (take p bs) = map g (take p bs)" "map g' (drop (Suc p) bs) = map g (drop (Suc p) bs)"
    using assms(3) by (auto dest: in_set_takeD in_set_dropD)
  have "concat (map g' (bs[p := b])) = concat (map g (take p bs)) @ g' b @ concat (map g (drop (Suc p) bs))"
    using assms(1) by (simp only: upd_conv_take_nth_drop map_append list.map concat_append concat.simps e)
  ultimately show ?thesis by simp
qed

lemma entry_names_cong:
  assumes "direct_ptr (inodes v' i) = direct_ptr (inodes v i)" "\<forall>b \<in> owned (inodes v i). data v' b = data v b"
  shows "entry_names v' i = entry_names v i"
proof -
  have "map (\<lambda>b. if b = 0 then [] else block_names (rd v' b)) (direct_ptr (inodes v i)) =
      map (\<lambda>b. if b = 0 then [] else block_names (rd v b)) (direct_ptr (inodes v i))"
    using assms(2) owned_ptr by (auto simp: rd_def)
  then show ?thesis by (simp only: entry_names_def assms(1))
qed

lemma dom_dmap: "dom (dmap v i) =
    {nm. \<exists>b \<in> set (direct_ptr (inodes v i)). b \<noteq> 0 \<and> (\<exists>k<DIRENTS_PER_BLOCK. ent_is (rd v b) nm k)}"
proof -
  have "dmap v i nm = None \<longleftrightarrow> (\<forall>b \<in> set (direct_ptr (inodes v i)). probe (rd v) nm b = None)" for nm
    by (simp add: dmap_def first_some_None)
  then show ?thesis unfolding dom_def probe_None by auto
qed

text \<open>As a set the names are those the map binds.\<close>

lemma set_entry_names:
  assumes "dirs L v" "alive v i" "is_dir (inodes v i)"
  shows "set (entry_names v i) = dom (dmap v i)"
proof -
  have "set (block_names (rd v b)) = {nm. \<exists>k<DIRENTS_PER_BLOCK. ent_is (rd v b) nm k}"
    if "b \<in> set (direct_ptr (inodes v i))" "b \<noteq> 0" for b
  proof -
    have "lens_ok (rd v b)" using dirsD [OF assms owned_ptr [OF that]] by (simp add: block_ents_def rd_def)
    note n = name_of_is [OF this]
    show ?thesis
    proof (intro set_eqI iffI)
      fix nm assume "nm \<in> set (block_names (rd v b))"
      then obtain k where "k < DIRENTS_PER_BLOCK" "ent_valid (rd v b) k \<noteq> 0" "nm = name_of (rd v b) k"
        by (auto simp: block_names_def)
      then show "nm \<in> {nm. \<exists>k<DIRENTS_PER_BLOCK. ent_is (rd v b) nm k}" using n by blast
    next
      fix nm assume "nm \<in> {nm. \<exists>k<DIRENTS_PER_BLOCK. ent_is (rd v b) nm k}"
      then obtain k where k: "k < DIRENTS_PER_BLOCK" "ent_is (rd v b) nm k" by blast
      then have "ent_valid (rd v b) k \<noteq> 0" by (simp add: ent_is_def)
      moreover from this have "nm = name_of (rd v b) k" using n k by blast
      ultimately show "nm \<in> set (block_names (rd v b))" using k(1) by (auto simp: block_names_def)
    qed
  qed
  then have "(\<Union>b \<in> set (direct_ptr (inodes v i)). set (if b = 0 then [] else block_names (rd v b))) =
      (\<Union>b \<in> set (direct_ptr (inodes v i)). {nm. b \<noteq> 0 \<and> (\<exists>k<DIRENTS_PER_BLOCK. ent_is (rd v b) nm k)})"
    by (intro SUP_cong) simp_all
  also have "\<dots> = dom (dmap v i)" unfolding dom_dmap by blast
  finally show ?thesis by (simp only: entry_names_def set_concat set_map image_image)
qed

definition names_once :: "store \<Rightarrow> bool" where
  "names_once v \<longleftrightarrow> (\<forall>i. alive v i \<and> is_dir (inodes v i) \<longrightarrow> distinct (entry_names v i))"

lemma distinct_added:
  assumes "distinct xs" "x \<notin> set xs" "mset ys = add_mset x (mset xs)"
  shows "distinct ys"
proof -
  have "mset ys = mset (x # xs)" using assms(3) by simp
  then have "distinct ys = distinct (x # xs)" by (rule mset_eq_imp_distinct_iff)
  then show ?thesis using assms(1,2) by simp
qed

end
