(* ===== verification/FsDirAdd.thy ===== *)
theory FsDirAdd
  imports FsEntries
begin

text \<open>
  \<open>dir_add\<close> updates the map of the directory and nothing else: the case where a block of the
  directory has a free entry, and the case where a new block is taken.
\<close>

section \<open>Where the entry goes\<close>

text \<open>The first entry not in use in the blocks of a list of pointers.\<close>

fun free_slot :: "(u32 \<Rightarrow> block) \<Rightarrow> u32 list \<Rightarrow> (u32 \<times> nat) option" where
  "free_slot r [] = None"
| "free_slot r (b # bs) =
     (if b = 0 then free_slot r bs
      else case first_clear (\<lambda>k. ent_valid (r b) k \<noteq> 0) 0 DIRENTS_PER_BLOCK of
        None \<Rightarrow> free_slot r bs
      | Some k \<Rightarrow> Some (b, k))"

lemma free_slot_Some: "free_slot r bs = Some (b, k) \<Longrightarrow>
    b \<in> set bs \<and> b \<noteq> 0 \<and> k < DIRENTS_PER_BLOCK \<and> ent_valid (r b) k = 0"
  by (induction bs) (auto simp: first_clear_Some split: if_splits option.splits)

lemma free_slot_None: "free_slot r bs = None \<Longrightarrow> b \<in> set bs \<Longrightarrow> b \<noteq> 0 \<Longrightarrow> k < DIRENTS_PER_BLOCK \<Longrightarrow>
    ent_valid (r b) k \<noteq> 0"
  by (induction bs) (auto simp: first_clear_None split: if_splits option.splits)

lemma add_in_slot:
  assumes "length (direct_ptr dir) = 16"
  shows "add_in s dir f nm p =
    (case free_slot (bio_read s) (drop p (direct_ptr dir)) of
       None \<Rightarrow> Some None
     | Some (b, k) \<Rightarrow> do {
         buf \<leftarrow> fill_ent (bio_read s b) k f nm;
         Some (Some (snd (writei (ino dir) (grow_dir dir) (bio_write b buf s))))
       })"
  using assms
proof (induction s dir f nm p rule: add_in.induct)
  case (1 s dir f nm p)
  let ?b = "direct_ptr dir ! p"
  let ?free = "first_clear (\<lambda>i. ent_valid (bio_read s ?b) i \<noteq> 0) 0 DIRENTS_PER_BLOCK"
  show ?case
  proof (cases "p < 16")
    case False
    then show ?thesis using 1(3) by (simp add: add_in.simps [of s dir f nm p])
  next
    case p: True
    have d: "drop p (direct_ptr dir) = ?b # drop (Suc p) (direct_ptr dir)"
      using 1(3) p by (simp add: Cons_nth_drop_Suc)
    show ?thesis
    proof (cases "?b = 0")
      case True
      then show ?thesis using p "1.IH"(1) [OF p refl True 1(3)] by (simp add: add_in.simps [of s dir f nm p] d)
    next
      case b: False
      show ?thesis
      proof (cases ?free)
        case None
        then show ?thesis
          using p b "1.IH"(2) [OF p refl b refl None 1(3)] by (simp add: add_in.simps [of s dir f nm p] d)
      next
        case (Some k)
        then show ?thesis
          using p b by (simp add: add_in.simps [of s dir f nm p] d case_prod_beta Let_def)
      qed
    qed
  qed
qed

section \<open>The map after an insertion\<close>

text \<open>A list of pointers whose answers change for one name only.\<close>

lemma lookup_insert:
  assumes others: "\<And>nm'. nm' \<noteq> nm \<Longrightarrow> map (probe r' nm') bs' = map (probe r nm') bs"
    and only: "\<And>b'. b' \<in> set bs' \<Longrightarrow> b' \<noteq> b \<Longrightarrow> probe r' nm b' = None"
    and here: "b \<in> set bs'" "probe r' nm b = Some d"
  shows "map_option d_ino (first_some (map (probe r' nm') bs')) =
    (if nm' = nm then Some (d_ino d) else map_option d_ino (first_some (map (probe r nm') bs)))"
proof (cases "nm' = nm")
  case True
  have "first_some (map (probe r' nm) bs') \<noteq> None"
    using here by (auto simp: first_some_None intro!: bexI [of _ b])
  then obtain x where x: "first_some (map (probe r' nm) bs') = Some x" by blast
  then obtain b' where "b' \<in> set bs'" "probe r' nm b' = Some x" using first_some_in by fastforce
  then have "x = d" using only here by (cases "b' = b") auto
  then show ?thesis using x True by simp
next
  case False
  then show ?thesis using others by simp
qed

lemma lookup_none: "map_option d_ino (first_some (map (probe r nm) bs)) = None \<longleftrightarrow> (\<forall>b \<in> set bs. probe r nm b = None)"
  by (auto simp: first_some_None)

text \<open>A name put into a free entry of a block the directory has.\<close>

lemma lookup_fill_slot:
  assumes lens: "\<And>c. c \<in> set bs \<Longrightarrow> c \<noteq> 0 \<Longrightarrow> lens_ok (r c)" and b: "b \<in> set bs" "b \<noteq> 0"
    and k: "k < DIRENTS_PER_BLOCK" "ent_valid (r b) k = 0"
    and buf: "lens_ok buf" "holds buf k f nm"
      "\<forall>k'<DIRENTS_PER_BLOCK. k' \<noteq> k \<longrightarrow> ent_bytes buf k' = ent_bytes (r b) k'"
    and absent: "map_option d_ino (first_some (map (probe r nm) bs)) = None"
  shows "map_option d_ino (first_some (map (probe (r(b := buf)) nm') bs)) =
    (if nm' = nm then Some f else map_option d_ino (first_some (map (probe r nm') bs)))"
proof -
  let ?r = "r(b := buf)"
  note none = absent [unfolded lookup_none]
  have up: "nm'' \<noteq> nm \<Longrightarrow> probe ?r nm'' b = probe r nm'' b"
    "probe r nm b = None \<Longrightarrow> \<exists>d. probe ?r nm b = Some d \<and> d_ino d = f" for nm''
    using probe_update [of r b ?r k f nm] lens [OF b] b(2) k buf by simp_all
  have off: "probe ?r nm'' c = probe r nm'' c" if "c \<noteq> b" for nm'' c
    using that by (intro probe_cong) simp
  obtain d where d: "probe ?r nm b = Some d" "d_ino d = f" using up(2) [OF bspec [OF none b(1)]] by blast
  have "map (probe ?r nm'') bs = map (probe r nm'') bs" if "nm'' \<noteq> nm" for nm''
  proof (rule map_cong [OF refl])
    show "probe ?r nm'' c = probe r nm'' c" for c
      using up(1) [OF that] off [of c nm''] by (cases "c = b") simp_all
  qed
  then show ?thesis
    using lookup_insert [of nm ?r bs r bs b d nm'] off none b(1) d by simp
qed

text \<open>A name put into the first entry of an empty block that takes the place of a null pointer.\<close>

lemma lookup_fill_new:
  assumes p: "p < length bs" "bs ! p = 0" and b: "b \<noteq> 0" "b \<notin> set bs"
    and buf: "holds buf 0 f nm" "\<forall>k'<DIRENTS_PER_BLOCK. k' \<noteq> 0 \<longrightarrow> ent_valid buf k' = 0"
    and absent: "map_option d_ino (first_some (map (probe r nm) bs)) = None"
  shows "map_option d_ino (first_some (map (probe (r(b := buf)) nm') (bs[p := b]))) =
    (if nm' = nm then Some f else map_option d_ino (first_some (map (probe r nm') bs)))"
proof -
  let ?r = "r(b := buf)"
  note none = absent [unfolded lookup_none]
  have off: "probe ?r nm'' c = probe r nm'' c" if "c \<noteq> b" for nm'' c
    using that by (intro probe_cong) simp
  have is0: "ent_is buf nm'' k \<longleftrightarrow> k = 0 \<and> nm'' = nm" if "k < DIRENTS_PER_BLOCK" for k nm''
    using buf that by (cases "k = 0") (auto simp: holds_def ent_is_def)
  have "first_clear (\<lambda>k. \<not> ent_is buf nm k) 0 DIRENTS_PER_BLOCK = Some 0"
    using is0 by (simp add: first_clear_Some dirents_19)
  then have d: "probe ?r nm b = Some (ent_at buf 0)" "d_ino (ent_at buf 0) = f"
    using b(1) buf(1) by (simp_all add: probe_def holds_def)
  have "map (probe ?r nm'') (bs[p := b]) = map (probe r nm'') bs" if "nm'' \<noteq> nm" for nm''
  proof (rule nth_equalityI)
    fix i assume i: "i < length (map (probe ?r nm'') (bs[p := b]))"
    show "map (probe ?r nm'') (bs[p := b]) ! i = map (probe r nm'') bs ! i"
    proof (cases "i = p")
      case True
      have "probe ?r nm'' b = None" using is0 that by (auto simp: probe_None)
      then show ?thesis using True p by (simp add: probe_def)
    next
      case False
      then have "bs ! i \<noteq> b" using i b(2) by (metis length_list_update length_map nth_mem)
      then show ?thesis using False i off by simp
    qed
  qed simp
  moreover have "probe ?r nm c = None" if "c \<in> set (bs[p := b])" "c \<noteq> b" for c
    using that off none set_update_subset_insert [of bs p b] by fastforce
  ultimately show ?thesis
    using lookup_insert [of nm ?r "bs[p := b]" r bs b "ent_at buf 0" nm'] d p(1)
    by (simp add: set_update_memI)
qed

section \<open>dir_add\<close>

text \<open>
  What adding the entry \<open>nm\<close> for inode \<open>f\<close> makes of the abstract state: directory \<open>d\<close> maps \<open>nm\<close> to
  \<open>f\<close>, its list of names has \<open>nm\<close> once more, its inode records one entry more and possibly one block more,
  and no other block in use changes.
\<close>

definition entry_added :: "store \<Rightarrow> nat \<Rightarrow> u8 list \<Rightarrow> u16 \<Rightarrow> store \<Rightarrow> bool" where
  "entry_added v d nm f v' \<longleftrightarrow>
     (\<exists>n'. inodes v' = (inodes v)(d := n') \<and>
        ino n' = ino (inodes v d) \<and> ivalid n' = ivalid (inodes v d) \<and> itype n' = itype (inodes v d) \<and>
        link n' = link (inodes v d) \<and> vstat n' = vstat (inodes v d) \<and>
        isize n' = isize (inodes v d) + of_nat DIRENT_SIZE \<and>
        owned (inodes v d) \<subseteq> owned n' \<and> owned n' \<inter> bused v \<subseteq> owned (inodes v d)) \<and>
     iused v' = iused v \<and> bused v \<subseteq> bused v' \<and> (\<exists>b. bused v' \<subseteq> insert b (bused v)) \<and>
     (\<forall>nm'. dmap v' d nm' = (if nm' = nm then Some f else dmap v d nm')) \<and>
     mset (entry_names v' d) = add_mset nm (mset (entry_names v d)) \<and>
     (\<forall>b \<in> bused v. b \<notin> owned (inodes v d) \<longrightarrow> data v' b = data v b)"

lemma dmap_rd: "dmap v i nm = map_option d_ino (first_some (map (probe (rd v) nm) (direct_ptr (inodes v i))))"
  by (simp add: dmap_def)

lemma block_ents_mono: "block_ents L buf \<Longrightarrow> L \<subseteq> L' \<Longrightarrow> block_ents L' buf"
  by (auto simp: block_ents_def)

lemma block_ents_fill:
  assumes "block_ents L old" "lens_ok buf" "holds buf k f nm"
    and "\<forall>k'<DIRENTS_PER_BLOCK. k' \<noteq> k \<longrightarrow> ent_bytes buf k' = ent_bytes old k'"
  shows "block_ents (insert (unat f) L) buf"
  unfolding block_ents_def
proof (intro conjI allI impI)
  fix j assume j: "j < DIRENTS_PER_BLOCK" "ent_valid buf j \<noteq> 0"
  show "unat (ent_ino buf j) \<in> insert (unat f) L"
  proof (cases "j = k")
    case True
    then show ?thesis using assms(3) by (simp add: holds_def)
  next
    case False
    then show ?thesis using assms(1,4) j by (simp add: block_ents_def ent_fields)
  qed
qed (rule assms(2))

lemma grow_dir_fields [simp]:
  "ino (grow_dir n) = ino n" "ivalid (grow_dir n) = ivalid n" "itype (grow_dir n) = itype n"
  "link (grow_dir n) = link n" "vstat (grow_dir n) = vstat n" "direct_ptr (grow_dir n) = direct_ptr n"
  "isize (grow_dir n) = isize n + of_nat DIRENT_SIZE" "inode_shape (grow_dir n) = inode_shape n"
  "owned (grow_dir n) = owned n"
  by (simp_all add: grow_dir_def inode_shape_def owned_def)

text \<open>The last steps of both cases: write the block, then the inode of the directory.\<close>

lemma dir_write_back:
  assumes ok: "disk_ok s" and c: "core (view s)" and d: "d = unat (ino n)" "d < 1024"
    and b: "data_blk (unat b)" and buf: "length buf = BLOCK_SIZE" and n: "inode_shape n"
  obtains s' where "writei (ino n) n (bio_write b buf s) = (0, s')" "disk_ok s'"
    "view s' = (view s)\<lparr>data := (data (view s))(unat b := buf), inodes := (inodes (view s))(d := n)\<rparr>"
proof -
  note w = view_write [OF ok b buf]
  obtain s' where "writei (ino n) n (bio_write b buf s) = (0, s')" "disk_ok s'"
    "view s' = (view (bio_write b buf s))\<lparr>inodes := (inodes (view (bio_write b buf s)))(unat (ino n) := n)\<rparr>"
    using view_writei [OF w(1) _ n, of "ino n"] d by auto
  then show ?thesis by (intro that) (simp_all add: w(2) d(1))
qed

lemma dir_add_in_slot:
  assumes ok: "disk_ok s" and c: "core (view s)" "dirs L (view s)"
    and a: "alive (view s) d" "is_dir (inodes (view s) d)" and nm: "name_ok nm" "dmap (view s) d nm = None"
    and slot: "free_slot (bio_read s) (direct_ptr (inodes (view s) d)) = Some (b, k)"
  obtains s' where "add_in s (inodes (view s) d) f nm 0 = Some (Some s')" "disk_ok s'" "core (view s')"
    "dirs (insert (unat f) L) (view s')" "entry_added (view s) d nm f (view s')"
proof -
  let ?v = "view s" and ?n = "inodes (view s) d"
  let ?m = "grow_dir ?n"
  note dv = dir_view [OF c a]
  note sl = free_slot_Some [OF slot]
  have bin: "b \<in> set (direct_ptr ?n)" "b \<noteq> 0" and k: "k < DIRENTS_PER_BLOCK" "ent_valid (rd ?v b) k = 0"
    using sl dv(2) by auto
  have ents: "block_ents L (rd ?v b)" by (rule dv(3) [OF bin])
  then have "lens_ok (bio_read s b)" using dv(2) [OF bin] by (simp add: block_ents_def)
  then obtain buf where fill: "fill_ent (bio_read s b) k f nm = Some buf" "lens_ok buf" "holds buf k f nm"
    "\<forall>k'<DIRENTS_PER_BLOCK. k' \<noteq> k \<longrightarrow> ent_bytes buf k' = ent_bytes (rd ?v b) k'"
    using fill_ent_ok [OF _ k(1) nm(1), of "bio_read s b" f] dv(2) [OF bin] by auto
  have o: "unat b \<in> owned ?n" using bin by (rule owned_ptr)
  then have db: "data_blk (unat b)" using coreD(4) [OF c(1) a(1)] coreD(6) [OF c(1)] by blast
  have len: "length buf = BLOCK_SIZE" using fill(2) by (simp add: lens_ok_def)
  have d: "d = unat (ino ?m)" "d < 1024" using coreD(3) [OF c(1) a(1)] a(1) by (simp_all add: alive_def)
  obtain s' where s': "writei (ino ?m) ?m (bio_write b buf s) = (0, s')" "disk_ok s'"
    "view s' = ?v\<lparr>data := (data ?v)(unat b := buf), inodes := (inodes ?v)(d := ?m)\<rparr>"
    using dir_write_back [OF ok c(1) d db len] coreD(1) [OF c(1), of d] by auto
  let ?w = "?v\<lparr>data := (data ?v)(unat b := buf)\<rparr>"
  have run: "add_in s ?n f nm 0 = Some (Some s')"
    using add_in_slot [of ?n s f nm 0] coreD(1) [OF c(1), of d] slot fill(1) s'(1)
    by (simp add: inode_shape_def)
  have ents': "block_ents (insert (unat f) L) buf" by (rule block_ents_fill [OF ents fill(2-4)])
  have dw: "dirs (insert (unat f) L) ?w" using dirs_mono [OF c(2)] ents' by (intro dirs_data) auto
  have vw: "view s' = ?w\<lparr>inodes := (inodes ?w)(d := ?m)\<rparr>" by (simp add: s'(3))
  have "core (view s')"
    unfolding vw using coreD(1) [OF c(1), of d] a(1) by (intro core_touch [OF core_data [OF c(1) len]]) simp_all
  moreover have "dirs (insert (unat f) L) (view s')"
    unfolding vw using dirsD [OF dw, of d] a by (intro dirs_set_inode [OF dw]) simp
  moreover have "entry_added ?v d nm f (view s')"
  proof -
    have r: "rd (view s') = (rd ?v)(b := buf)" "direct_ptr (inodes (view s') d) = direct_ptr ?n"
      by (auto simp: rd_def s'(3) fun_eq_iff word_unat_eq_iff)
    have lens: "lens_ok (rd ?v c')" if "c' \<in> set (direct_ptr ?n)" "c' \<noteq> 0" for c'
      using dv(3) [OF that] by (simp add: block_ents_def)
    have "dmap (view s') d nm' = (if nm' = nm then Some f else dmap ?v d nm')" for nm'
      unfolding dmap_rd r by (rule lookup_fill_slot [OF lens bin k fill(2-4) nm(2) [unfolded dmap_rd]])
    moreover have "mset (entry_names (view s') d) = add_mset nm (mset (entry_names ?v d))"
      unfolding entry_names_def r
    proof (rule concat_one_changed)
      show "distinct (filter (\<lambda>b. b \<noteq> 0) (direct_ptr ?n))" using coreD(5) [OF c(1) a(1)] by (simp add: ptrs_distinct_def)
      show "mset (if b = 0 then [] else block_names (((rd ?v)(b := buf)) b)) =
          add_mset nm (mset (if b = 0 then [] else block_names (rd ?v b)))"
        using block_names_fill [OF lens [OF bin] fill(2,3) k fill(4)] bin(2) by simp
    qed (use bin in simp_all)
    ultimately show ?thesis using o by (auto simp: entry_added_def s'(3))
  qed
  ultimately show ?thesis by (intro that [OF run s'(2)])
qed

text \<open>A null pointer replaced by a fresh block.\<close>

definition set_ptr :: "nat \<Rightarrow> u32 \<Rightarrow> inode \<Rightarrow> inode" where
  "set_ptr p b n = n\<lparr>direct_ptr := (direct_ptr n)[p := b]\<rparr>"

lemma set_ptr_fields [simp]:
  "ino (set_ptr p b n) = ino n" "ivalid (set_ptr p b n) = ivalid n" "itype (set_ptr p b n) = itype n"
  "link (set_ptr p b n) = link n" "vstat (set_ptr p b n) = vstat n" "isize (set_ptr p b n) = isize n"
  "direct_ptr (set_ptr p b n) = (direct_ptr n)[p := b]" "inode_shape (set_ptr p b n) = inode_shape n"
  by (simp_all add: set_ptr_def inode_shape_def)

lemma owned_set_ptr:
  assumes "p < length (direct_ptr n)" "direct_ptr n ! p = 0" "b \<noteq> 0"
  shows "owned (set_ptr p b n) = insert (unat b) (owned n)"
proof -
  have split: "direct_ptr n = take p (direct_ptr n) @ 0 # drop (Suc p) (direct_ptr n)"
    using assms(1,2) id_take_nth_drop [of p "direct_ptr n"] by simp
  have "set ((direct_ptr n)[p := b]) = insert b (set (take p (direct_ptr n)) \<union> set (drop (Suc p) (direct_ptr n)))"
    using assms(1) by (simp add: upd_conv_take_nth_drop)
  moreover have "set (direct_ptr n) = insert 0 (set (take p (direct_ptr n)) \<union> set (drop (Suc p) (direct_ptr n)))"
    by (subst split) auto
  ultimately show ?thesis using assms(3) by (auto simp: owned_def)
qed

lemma ptrs_distinct_set_ptr:
  assumes "ptrs_distinct n" "p < length (direct_ptr n)" "direct_ptr n ! p = 0" "b \<notin> set (direct_ptr n)"
  shows "ptrs_distinct (set_ptr p b n)"
proof -
  have split: "direct_ptr n = take p (direct_ptr n) @ 0 # drop (Suc p) (direct_ptr n)"
    using assms(2,3) id_take_nth_drop [of p "direct_ptr n"] by simp
  have "distinct (filter (\<lambda>b. b \<noteq> 0) (take p (direct_ptr n)) @ filter (\<lambda>b. b \<noteq> 0) (drop (Suc p) (direct_ptr n)))"
    using assms(1) unfolding ptrs_distinct_def by (subst (asm) split) simp
  then show ?thesis
    using assms(2,4) by (auto simp: ptrs_distinct_def upd_conv_take_nth_drop dest: in_set_takeD in_set_dropD)
qed

text \<open>The inode an allocation gives a fresh block keeps the invariant.\<close>

lemma core_give_block:
  assumes c: "core v" and a: "alive v d" and b: "data_blk (unat b)" "unat b \<notin> bused v" "b \<noteq> 0"
    and p: "p < 16" "direct_ptr (inodes v d) ! p = 0"
    and n: "direct_ptr n = (direct_ptr (inodes v d))[p := b]" "ino n = ino (inodes v d)" "inode_shape n"
  shows "core (v\<lparr>bused := insert (unat b) (bused v), inodes := (inodes v)(d := n)\<rparr>)"
    "owned n = insert (unat b) (owned (inodes v d))"
proof -
  let ?n = "inodes v d" and ?v = "v\<lparr>bused := insert (unat b) (bused v)\<rparr>"
  have len: "p < length (direct_ptr ?n)" using coreD(1) [OF c, of d] p by (simp add: inode_shape_def)
  have notin: "b \<notin> set (direct_ptr ?n)"
    using owned_ptr [of b ?n] coreD(4) [OF c a] b(2,3) by auto
  show o: "owned n = insert (unat b) (owned ?n)"
    using owned_set_ptr [OF len p(2) b(3)] n(1) owned_cong [of n "set_ptr p b ?n"] by simp
  have dist: "ptrs_distinct n"
    using ptrs_distinct_set_ptr [OF coreD(5) [OF c a] len p(2) notin] n(1) by (simp add: ptrs_distinct_def)
  have "core (?v\<lparr>inodes := (inodes ?v)(d := n)\<rparr>)"
  proof (rule core_set_inode [OF core_use_blk [OF c b(1)]])
    show "d < 1024" using a by (simp add: alive_def)
    show "inode_shape n" by (rule n(3))
    show "d \<in> iused ?v" using coreD(2) [OF c a] by simp
    show "unat (ino n) = d" using coreD(3) [OF c a] n(2) by simp
    show "owned n \<subseteq> bused ?v" using coreD(4) [OF c a] by (auto simp: o)
    show "ptrs_distinct n" by (rule dist)
    show "b' \<notin> owned (inodes ?v j)" if "alive ?v j" "j \<noteq> d" "b' \<in> owned n" for j b'
      using that coreD(8) [OF c a, of j b'] coreD(4) [OF c, of j] b(2) by (auto simp: o)
  qed
  then show "core (v\<lparr>bused := insert (unat b) (bused v), inodes := (inodes v)(d := n)\<rparr>)" by simp
qed

section \<open>The zero block\<close>

lemma le_dec_zeros: "le_dec (replicate n 0) = 0"
  by (induction n) simp_all

lemma zero_entry: "ent_valid (replicate BLOCK_SIZE 0) k = 0"
  by (simp add: ent_valid_def u16_at_def chunk_def le_dec_zeros)

lemma zero_lens_ok: "lens_ok (replicate BLOCK_SIZE 0)"
  by (simp add: lens_ok_def zero_entry)

lemma zero_block_view:
  assumes "disk_ok s" "data_blk (unat b)"
  shows "disk_ok (zero_block b s)" "bio_read (zero_block b s) b = replicate BLOCK_SIZE 0"
    "view (zero_block b s) = (view s)\<lparr>data := (data (view s))(unat b := replicate BLOCK_SIZE 0)\<rparr>"
proof -
  note w = view_write [OF assms, of "replicate BLOCK_SIZE 0"]
  show "disk_ok (zero_block b s)"
    "view (zero_block b s) = (view s)\<lparr>data := (data (view s))(unat b := replicate BLOCK_SIZE 0)\<rparr>"
    using w by (simp_all add: zero_block_def)
  then show "bio_read (zero_block b s) b = replicate BLOCK_SIZE 0"
    using view_read [OF assms(2)] by simp
qed

section \<open>The cases of dir_add\<close>

text \<open>The last part of \<open>dir_add\<close>, once the fresh block \<open>b\<close> is marked.\<close>

lemma dir_add_in_new:
  assumes ok: "disk_ok s" and c: "core (view s)" "dirs L (view s)"
    and a: "alive (view s) d" "is_dir (inodes (view s) d)" and nm: "name_ok nm" "dmap (view s) d nm = None"
    and b: "data_blk (unat b)" "unat b \<notin> bused (view s)" "b \<noteq> 0"
    and p: "p < 16" "direct_ptr (inodes (view s) d) ! p = 0"
    and s1: "disk_ok s1" "view s1 = (view s)\<lparr>bused := insert (unat b) (bused (view s))\<rparr>"
  obtains buf s' where "fill_ent (bio_read (init_dir_block_empty b s1) b) 0 f nm = Some buf"
    "writei (ino (inodes (view s) d)) (grow_dir (set_ptr p b (inodes (view s) d)))
       (bio_write b buf (init_dir_block_empty b s1)) = (0, s')"
    "disk_ok s'" "core (view s')" "dirs (insert (unat f) L) (view s')" "entry_added (view s) d nm f (view s')"
proof -
  let ?v = "view s" and ?n = "inodes (view s) d"
  let ?m = "grow_dir (set_ptr p b ?n)"
  let ?s2 = "zero_block b s1"
  note z = zero_block_view [OF s1(1) b(1)]
  have D0: "0 < DIRENTS_PER_BLOCK" by (simp add: dirents_19)
  obtain buf where fill: "fill_ent (replicate BLOCK_SIZE 0) 0 f nm = Some buf" "lens_ok buf" "holds buf 0 f nm"
    "\<forall>k<DIRENTS_PER_BLOCK. k \<noteq> 0 \<longrightarrow> ent_bytes buf k = ent_bytes (replicate BLOCK_SIZE 0) k"
    by (rule fill_ent_ok [OF zero_lens_ok D0 nm(1)])
  have empty: "\<forall>k<DIRENTS_PER_BLOCK. k \<noteq> 0 \<longrightarrow> ent_valid buf k = 0"
    using fill(4) zero_entry by (simp add: ent_fields)
  have len: "length buf = BLOCK_SIZE" using fill(2) by (simp add: lens_ok_def)
  have shape: "inode_shape ?n" using coreD(1) [OF c(1)] .
  have d: "d = unat (ino ?m)" "d < 1024" using coreD(3) [OF c(1) a(1)] a(1) by (simp_all add: alive_def)
  let ?w = "?v\<lparr>bused := insert (unat b) (bused ?v), inodes := (inodes ?v)(d := ?m)\<rparr>"
  note give = core_give_block [OF c(1) a(1) b p, of ?m]
  have cw: "core ?w" and o: "owned (set_ptr p b ?n) = insert (unat b) (owned ?n)"
    using give shape by simp_all
  have cz: "core (view ?s2)" unfolding z(3) s1(2) using core_use_blk [OF c(1) b(1)] by (intro core_data) simp_all
  obtain s' where s': "writei (ino ?m) ?m (bio_write b buf ?s2) = (0, s')" "disk_ok s'"
    "view s' = (view ?s2)\<lparr>data := (data (view ?s2))(unat b := buf), inodes := (inodes (view ?s2))(d := ?m)\<rparr>"
    using dir_write_back [OF z(1) cz d b(1) len] shape by auto
  have vw: "view s' = ?w\<lparr>data := (data ?w)(unat b := buf)\<rparr>" by (simp add: s'(3) z(3) s1(2))
  have other: "unat b \<notin> owned (inodes ?v j)" if "alive ?v j" for j
    using coreD(4) [OF c(1) that] b(2) by blast
  have "core (view s')" unfolding vw by (rule core_data [OF cw len])
  moreover have "dirs (insert (unat f) L) (view s')"
    unfolding dirs_def
  proof (intro allI impI ballI)
    fix j b' assume j: "alive (view s') j \<and> is_dir (inodes (view s') j)" and b': "b' \<in> owned (inodes (view s') j)"
    have aj: "alive ?v j" using j a(1) by (cases "j = d") (auto simp: vw alive_def)
    show "block_ents (insert (unat f) L) (data (view s') b')"
    proof (cases "b' = unat b")
      case True
      then show ?thesis using fill(2,3) empty by (auto simp: vw block_ents_def holds_def)
    next
      case False
      then have "b' \<in> owned (inodes ?v j)" using b' by (cases "j = d") (auto simp: vw o)
      moreover have "is_dir (inodes ?v j)" using j a(2) by (cases "j = d") (auto simp: vw)
      ultimately have "block_ents L (data ?v b')" using dirsD [OF c(2) aj] by blast
      moreover have "data (view s') b' = data ?v b'" using False by (simp add: vw)
      ultimately show ?thesis using block_ents_mono [OF _ subset_insertI] by simp
    qed
  qed
  moreover have "entry_added ?v d nm f (view s')"
  proof -
    have r: "rd (view s') = (rd ?v)(b := buf)" "direct_ptr (inodes (view s') d) = (direct_ptr ?n)[p := b]"
      by (auto simp: rd_def vw fun_eq_iff word_unat_eq_iff)
    have bs: "p < length (direct_ptr ?n)" "b \<notin> set (direct_ptr ?n)"
      using shape p(1) owned_ptr [of b ?n] other [OF a(1)] b(3) by (auto simp: inode_shape_def)
    have "dmap (view s') d nm' = (if nm' = nm then Some f else dmap ?v d nm')" for nm'
      unfolding dmap_rd r by (rule lookup_fill_new [OF bs(1) p(2) b(3) bs(2) fill(3) empty nm(2) [unfolded dmap_rd]])
    moreover have "mset (entry_names (view s') d) = add_mset nm (mset (entry_names ?v d))"
    proof -
      have "block_names buf = [nm]" by (rule block_names_one [OF fill(2,3) empty])
      then show ?thesis unfolding entry_names_def r
        using concat_one_new [of p "direct_ptr ?n" "\<lambda>b. if b = 0 then [] else block_names (rd ?v b)"
            "\<lambda>c. if c = 0 then [] else block_names (((rd ?v)(b := buf)) c)" b] bs p(2) b(3) by auto
    qed
    ultimately show ?thesis using b(2) by (auto simp: entry_added_def vw o)
  qed
  moreover have "fill_ent (bio_read (init_dir_block_empty b s1) b) 0 f nm = Some buf"
    using fill(1) z(2) by (simp add: init_dir_block_empty_def)
  ultimately show ?thesis
    using s'(1,2) by (intro that [of buf s']) (simp_all add: init_dir_block_empty_def)
qed

text \<open>A directory with no free entry and no room, or no block, for a further one.\<close>

definition dir_full :: "store \<Rightarrow> nat \<Rightarrow> bool" where
  "dir_full v d \<longleftrightarrow>
     (\<forall>b \<in> owned (inodes v d). \<forall>k<DIRENTS_PER_BLOCK. ent_valid (data v b) k \<noteq> 0) \<and>
     (0 \<notin> set (direct_ptr (inodes v d)) \<or> bused v = {b. data_blk b})"

lemma no_slot_full:
  assumes c: "core (view s)" "dirs L (view s)" and a: "alive (view s) d" "is_dir (inodes (view s) d)"
    and none: "free_slot (bio_read s) (direct_ptr (inodes (view s) d)) = None"
    and room: "0 \<notin> set (direct_ptr (inodes (view s) d)) \<or> bused (view s) = {b. data_blk b}"
  shows "dir_full (view s) d"
  unfolding dir_full_def
proof (intro conjI ballI allI impI room)
  fix b k assume "b \<in> owned (inodes (view s) d)" and k: "k < DIRENTS_PER_BLOCK"
  then obtain p where p: "p \<in> set (direct_ptr (inodes (view s) d))" "p \<noteq> 0" "b = unat p" by (auto simp: owned_def)
  then show "ent_valid (data (view s) b) k \<noteq> 0"
    using free_slot_None [OF none p(1,2) k] dir_view(2) [OF c a p(1,2)] by (simp add: rd_def)
qed

theorem dir_add_cases:
  assumes ok: "disk_ok s" and c: "core (view s)" "dirs L (view s)"
    and a: "alive (view s) d" "is_dir (inodes (view s) d)" and nm: "name_ok nm"
  obtains (exists) i where "dir_add (inodes (view s) d) f nm s = Some (-EEXIST, s)" "dmap (view s) d nm = Some i"
  | (full) s' where "dir_add (inodes (view s) d) f nm s = Some (-ENOSPC, s')" "dmap (view s) d nm = None"
      "disk_ok s'" "\<exists>u. u \<subseteq> {b. data_blk b} \<and> bused (view s) \<subseteq> u \<and> view s' = (view s)\<lparr>bused := u\<rparr>"
      "dir_full (view s) d"
  | (added) s' where "dir_add (inodes (view s) d) f nm s = Some (0, s')" "dmap (view s) d nm = None" "disk_ok s'"
      "core (view s')" "dirs (insert (unat f) L) (view s')" "entry_added (view s) d nm f (view s')"
proof -
  let ?v = "view s" and ?n = "inodes (view s) d"
  have un: "unat (ino ?n) = d" by (rule coreD(3) [OF c(1) a(1)])
  have a': "alive ?v (unat (ino ?n))" "is_dir (inodes ?v (unat (ino ?n)))" using a un by simp_all
  have nul: "0 \<notin> set nm" using nm by (simp add: name_ok_def)
  show ?thesis
  proof (cases rule: dir_find_dmap [OF ok c a' nul])
    case (2 e)
    then show ?thesis using un by (intro exists) (simp_all add: dir_add_def)
  next
    case 1
    then have absent: "dmap ?v d nm = None" and find: "dir_find s (ino ?n) nm = Some (-ENOENT, None)"
      using un by simp_all
    show ?thesis
    proof (cases "free_slot (bio_read s) (direct_ptr ?n)")
      case (Some bk)
      then obtain b k where "free_slot (bio_read s) (direct_ptr ?n) = Some (b, k)" by (cases bk) auto
      from dir_add_in_slot [OF ok c a nm absent this, of f]
      obtain s' where "add_in s ?n f nm 0 = Some (Some s')" "disk_ok s'" "core (view s')"
        "dirs (insert (unat f) L) (view s')" "entry_added ?v d nm f (view s')" by blast
      then show ?thesis using find absent by (intro added [of s']) (simp_all add: dir_add_def ENOENT_def)
    next
      case None
      then have none: "add_in s ?n f nm 0 = Some None"
        using add_in_slot [of ?n s f nm 0] coreD(1) [OF c(1), of d] by (simp add: inode_shape_def)
      show ?thesis
      proof (cases rule: view_get_avail_blkno [OF ok])
        case 1
        then show ?thesis
          using find absent none ok coreD(6) [OF c(1)] no_slot_full [OF c a None]
          by (intro full [of s]) (auto simp: dir_add_def ENOENT_def intro!: exI [of _ "bused ?v"])
      next
        case (2 m s1)
        let ?b = "of_int (int m) :: u32"
        have b: "data_blk (unat ?b)" "unat ?b \<notin> bused ?v" "?b \<noteq> 0"
          using 2(2,3) data_blk_word [OF 2(2)] by simp_all
        have s1: "view s1 = ?v\<lparr>bused := insert (unat ?b) (bused ?v)\<rparr>" using 2(5) data_blk_word [OF 2(2)] by simp
        show ?thesis
        proof (cases "first_clear (\<lambda>p. direct_ptr ?n ! p \<noteq> 0) 0 16")
          case no: None
          have no_zero: "0 \<notin> set (direct_ptr ?n)"
            using no coreD(1) [OF c(1), of d] by (force simp: first_clear_None in_set_conv_nth inode_shape_def)
          have "dir_add ?n f nm s = Some (-ENOSPC, s1)"
            using no find none 2(1) by (simp add: dir_add_def ENOENT_def)
          then show ?thesis
            using absent 2 coreD(6) [OF c(1)] no_slot_full [OF c a None disjI1 [OF no_zero]]
            by (intro full [of s1]) (auto intro!: exI [of _ "insert m (bused ?v)"])
        next
          case (Some p)
          then have p: "p < 16" "direct_ptr ?n ! p = 0" by (auto simp: first_clear_Some)
          from dir_add_in_new [OF ok c a nm absent b p 2(4) s1, of f]
          obtain buf s' where new: "fill_ent (bio_read (init_dir_block_empty ?b s1) ?b) 0 f nm = Some buf"
            "writei (ino ?n) (grow_dir (set_ptr p ?b ?n)) (bio_write ?b buf (init_dir_block_empty ?b s1)) = (0, s')"
            "disk_ok s'" "core (view s')" "dirs (insert (unat f) L) (view s')" "entry_added ?v d nm f (view s')" .
          have "dir_add ?n f nm s = Some (0, s')"
            using find none 2(1) Some new(1,2)
            by (simp add: dir_add_def ENOENT_def Let_def set_ptr_def)
          then show ?thesis using absent new by (intro added [of s'])
        qed
      qed
    qed
  qed
qed

end
