(* ===== verification/FsPath.thy ===== *)
theory FsPath
  imports FsDirAdd
begin

text \<open>
  Paths: how a path splits into components, what \<open>get_node_by_path\<close> finds on a file system that
  keeps the invariant, and that it walks the directory maps.
\<close>

section \<open>Components of a path\<close>

text \<open>The absolute path with the components \<open>ts\<close>.\<close>

definition abs_path :: "u8 list list \<Rightarrow> u8 list" where
  "abs_path ts = (if ts = [] then [SLASH] else concat (map (\<lambda>t. SLASH # t) ts))"

definition component :: "u8 list \<Rightarrow> bool" where
  "component t \<longleftrightarrow> t \<noteq> [] \<and> SLASH \<notin> set t \<and> 0 \<notin> set t"

lemma component_head: "component t \<Longrightarrow> \<exists>c cs. t = c # cs \<and> c \<noteq> SLASH \<and> SLASH \<notin> set cs"
  by (cases t) (auto simp: component_def)

lemma tokens_slash: "tokens (SLASH # p) = tokens p"
  by (subst (1 2) tokens.simps) simp

lemma take_component: "SLASH \<notin> set t \<Longrightarrow> takeWhile (\<lambda>c. c \<noteq> SLASH) (t @ SLASH # p) = t \<and>
    dropWhile (\<lambda>c. c \<noteq> SLASH) (t @ SLASH # p) = SLASH # p \<and>
    takeWhile (\<lambda>c. c \<noteq> SLASH) t = t \<and> dropWhile (\<lambda>c. c \<noteq> SLASH) t = []"
  by (induction t) auto

lemma tokens_component:
  assumes "component t"
  shows "tokens t = [t]" "tokens (t @ SLASH # p) = t # tokens p"
proof -
  obtain c cs where t: "t = c # cs" "c \<noteq> SLASH" "SLASH \<notin> set cs" using component_head [OF assms] by blast
  note cs = take_component [OF t(3)]
  have "tokens [] = []" by (subst tokens.simps) simp
  then have d: "tokens (dropWhile (\<lambda>c. c \<noteq> SLASH) cs) = []" using cs by (metis (no_types, lifting))
  have "takeWhile (\<lambda>c. c \<noteq> SLASH) cs = cs" using cs by (metis (no_types, lifting))
  then show "tokens t = [t]" using t(2) by (subst tokens.simps) (simp add: t(1) d)
  show "tokens (t @ SLASH # p) = t # tokens p" using t cs by (subst tokens.simps) (simp add: tokens_slash)
qed

lemma tokens_abs_path: "\<forall>t \<in> set ts. component t \<Longrightarrow> tokens (abs_path ts) = ts"
proof -
  assume ts: "\<forall>t \<in> set ts. component t"
  have nil: "tokens [] = []" by (subst tokens.simps) simp
  have "tokens (concat (map (\<lambda>t. SLASH # t) ts)) = ts"
    using ts
  proof (induction ts)
    case Nil
    then show ?case by (simp add: nil)
  next
    case (Cons t ts)
    show ?case
    proof (cases ts)
      case Nil
      then show ?thesis using Cons.prems tokens_component(1) by (simp add: tokens_slash)
    next
      case (Cons u us)
      have "tokens (t @ concat (map (\<lambda>t. SLASH # t) ts)) = t # tokens (u @ concat (map (\<lambda>t. SLASH # t) us))"
        using Cons.prems tokens_component(2) [of t] Cons by simp
      also have "tokens (u @ concat (map (\<lambda>t. SLASH # t) us)) = tokens (concat (map (\<lambda>t. SLASH # t) ts))"
        using Cons by (simp add: tokens_slash)
      finally show ?thesis using Cons.IH Cons.prems by (simp add: tokens_slash)
    qed
  qed
  then show ?thesis by (simp add: abs_path_def tokens_slash nil)
qed

lemma rev_strip:
  assumes "component t"
  shows "strip_slash (p @ SLASH # t) = p @ SLASH # t"
    "takeWhile (\<lambda>c. c \<noteq> SLASH) (rev (p @ SLASH # t)) = rev t"
    "dropWhile (\<lambda>c. c \<noteq> SLASH) (rev (p @ SLASH # t)) = SLASH # rev p"
proof -
  have r: "SLASH \<notin> set (rev t)" "rev t \<noteq> []" using assms by (simp_all add: component_def)
  then obtain c cs where "rev t = c # cs" "c \<noteq> SLASH" by (cases "rev t") auto
  then show "strip_slash (p @ SLASH # t) = p @ SLASH # t"
    using rev_swap [of t "c # cs"] by (simp add: strip_slash_def)
  show "takeWhile (\<lambda>c. c \<noteq> SLASH) (rev (p @ SLASH # t)) = rev t"
    "dropWhile (\<lambda>c. c \<noteq> SLASH) (rev (p @ SLASH # t)) = SLASH # rev p"
    using take_component [OF r(1), of "rev p"] by simp_all
qed

lemma abs_path_snoc:
  "abs_path (ts @ [t]) = (if ts = [] then [] else abs_path ts) @ SLASH # t"
  by (simp add: abs_path_def)

lemma basename_abs_path: "component t \<Longrightarrow> basename (abs_path (ts @ [t])) = t"
  using rev_strip [of t] by (simp add: basename_def abs_path_snoc Let_def)

lemma strip_abs_path: "\<forall>u \<in> set ts. component u \<Longrightarrow> ts \<noteq> [] \<Longrightarrow> strip_slash (abs_path ts) = abs_path ts"
  using rev_strip(1) [of "last ts"] abs_path_snoc [of "butlast ts" "last ts"] by simp

lemma dirname_abs_path:
  assumes "component t" "\<forall>u \<in> set ts. component u"
  shows "dirname (abs_path (ts @ [t])) = abs_path ts"
proof -
  let ?p = "if ts = [] then [] else abs_path ts"
  have d: "rev (dropWhile (\<lambda>c. c \<noteq> SLASH) (rev (strip_slash (abs_path (ts @ [t]))))) = ?p @ [SLASH]"
    using rev_strip [OF assms(1), of ?p] by (simp only: abs_path_snoc) simp
  have s: "strip_slash (abs_path (ts @ [t])) \<noteq> []" "abs_path (ts @ [t]) \<noteq> []"
    using rev_strip(1) [OF assms(1), of ?p] by (simp_all only: abs_path_snoc) simp_all
  have "strip_slash (?p @ [SLASH]) = strip_slash ?p" by (simp add: strip_slash_def)
  also have "\<dots> = ?p" using strip_abs_path [OF assms(2)] by (simp add: strip_slash_def)
  finally have "dirname (abs_path (ts @ [t])) = (if ?p = [] then [SLASH] else ?p)"
    using d s by (simp add: dirname_def Let_def)
  moreover have "abs_path ts \<noteq> []" by (simp add: abs_path_def)
  ultimately show ?thesis by (simp add: abs_path_def)
qed

section \<open>Walking\<close>

text \<open>
  Whatever the path, \<open>get_node_by_path\<close> gives an inode in use or -ENOENT: every number on the way
  is looked up in the inode table and checked to be valid.
\<close>

lemma readi_alive:
  assumes "disk_ok s"
  obtains (dead) "snd (readi i s) = None \<or> (\<exists>n. snd (readi i s) = Some n \<and> ivalid n = 0)" "\<not> alive (view s) (unat i)"
  | (live) "readi i s = (0, Some (inodes (view s) (unat i)))" "alive (view s) (unat i)"
  using view_readi [OF assms, of i] by (cases "alive (view s) (unat i)") (auto simp: alive_def split: if_splits)

lemma walk_alive:
  assumes ok: "disk_ok s"
  shows "walk s i (inodes (view s) (unat i)) ts = Some (r, n) \<Longrightarrow> alive (view s) (unat i) \<Longrightarrow>
    (r = -ENOENT \<and> n = None) \<or> (r = 0 \<and> (\<exists>j. alive (view s) j \<and> n = Some (inodes (view s) j)))"
proof (induction ts arbitrary: i)
  case Nil
  then show ?case by auto
next
  case (Cons t ts)
  obtain rc de where f: "dir_find s i t = Some (rc, de)"
    using Cons.prems(1) by (auto simp: bind_eq_Some_conv)
  show ?case
  proof (cases de)
    case None
    then show ?thesis using Cons.prems(1) f by simp
  next
    case (Some d)
    show ?thesis
    proof (cases rule: readi_alive [OF ok, of "d_ino d"])
      case 1
      then show ?thesis using Cons.prems(1) f Some
        by (cases "readi (d_ino d) s"; cases "snd (readi (d_ino d) s)") auto
    next
      case 2
      then show ?thesis using Cons.IH [of "d_ino d"] Cons.prems(1) f Some by (simp add: alive_def)
    qed
  qed
qed

lemma get_node_alive:
  assumes ok: "disk_ok s" and a: "alive (view s) 0" and g: "get_node_by_path s path 0 = Some (r, n)"
  shows "(r = -ENOENT \<and> n = None) \<or> (r = 0 \<and> (\<exists>j. alive (view s) j \<and> n = Some (inodes (view s) j)))"
proof (cases rule: readi_alive [OF ok, of 0])
  case 1
  then show ?thesis using a by simp
next
  case 2
  show ?thesis
  proof (cases "path = [SLASH]")
    case True
    then show ?thesis using g 2 a by (auto simp: get_node_by_path_def)
  next
    case False
    then have "walk s 0 (inodes (view s) (unat (0 :: u16))) (tokens (take (PATH_MAX - 1) path)) = Some (r, n)"
      using g 2 a by (simp add: get_node_by_path_def alive_def)
    from walk_alive [OF ok this] show ?thesis using a by simp
  qed
qed

lemma node_at_alive:
  assumes "disk_ok s" "alive (view s) 0" "node_at s path = Some (Some n)"
  obtains i where "alive (view s) i" "n = inodes (view s) i"
  using assms get_node_alive [OF assms(1,2)]
  by (fastforce simp: node_at_def bind_eq_Some_conv split: option.splits if_splits)

text \<open>The walk as steps through the directory maps, and the paths that only pass through directories.\<close>

fun vwalk :: "store \<Rightarrow> nat \<Rightarrow> u8 list list \<Rightarrow> nat option" where
  "vwalk v i [] = Some i"
| "vwalk v i (t # ts) = (case dmap v i t of None \<Rightarrow> None | Some j \<Rightarrow> vwalk v (unat j) ts)"

fun through_dirs :: "store \<Rightarrow> nat \<Rightarrow> u8 list list \<Rightarrow> bool" where
  "through_dirs v i [] = True"
| "through_dirs v i (t # ts) =
     (is_dir (inodes v i) \<and> (case dmap v i t of None \<Rightarrow> True | Some j \<Rightarrow> through_dirs v (unat j) ts))"

lemma walk_vwalk:
  assumes ok: "disk_ok s" and c: "core (view s)" "dirs {i. alive (view s) i} (view s)"
  shows "alive (view s) (unat i) \<Longrightarrow> through_dirs (view s) (unat i) ts \<Longrightarrow> \<forall>t \<in> set ts. 0 \<notin> set t \<Longrightarrow>
    walk s i (inodes (view s) (unat i)) ts =
      Some (case vwalk (view s) (unat i) ts of None \<Rightarrow> (-ENOENT, None) | Some j \<Rightarrow> (0, Some (inodes (view s) j)))"
proof (induction ts arbitrary: i)
  case Nil
  then show ?case by simp
next
  case (Cons t ts)
  have "is_dir (inodes (view s) (unat i))" "0 \<notin> set t" using Cons.prems(2,3) by auto
  note this = dir_find_dmap [OF ok c Cons.prems(1) this]
  then show ?case
  proof cases
    case 1
    then show ?thesis by simp
  next
    case (2 d)
    then have a: "alive (view s) (unat (d_ino d))" by simp
    then have r: "readi (d_ino d) s = (0, Some (inodes (view s) (unat (d_ino d))))" "ivalid (inodes (view s) (unat (d_ino d))) \<noteq> 0"
      using readi_alive [OF ok, of "d_ino d"] by (auto simp: alive_def)
    have "through_dirs (view s) (unat (d_ino d)) ts" "\<forall>t \<in> set ts. 0 \<notin> set t" using Cons.prems(2,3) 2 by simp_all
    then show ?thesis using Cons.IH [OF a] 2 r by simp
  qed
qed

lemma dmap_target:
  assumes "dirs L v" "alive v i" "is_dir (inodes v i)" "dmap v i t = Some k"
  shows "unat k \<in> L"
proof -
  obtain d where d: "first_some (map (probe (rd v) t) (direct_ptr (inodes v i))) = Some d" "d_ino d = k"
    using assms(4) by (auto simp: dmap_def)
  have "Some d \<in> set (map (probe (rd v) t) (direct_ptr (inodes v i)))" by (rule first_some_in [OF d(1)])
  then obtain b where b: "b \<in> set (direct_ptr (inodes v i))" "probe (rd v) t b = Some d" by auto
  obtain e where "e < DIRENTS_PER_BLOCK" "b \<noteq> 0" "d = ent_at (rd v b) e" "ent_is (rd v b) t e"
    using probe_Some [OF b(2)] by blast
  moreover from this have "block_ents L (rd v b)"
    using dirsD [OF assms(1-3) owned_ptr [OF b(1)]] by (simp add: rd_def)
  ultimately show ?thesis using d(2) by (auto simp: block_ents_def ent_is_def)
qed

lemma vwalk_alive: "dirs {i. alive v i} v \<Longrightarrow> through_dirs v i ts \<Longrightarrow> alive v i \<Longrightarrow> vwalk v i ts = Some j \<Longrightarrow> alive v j"
proof (induction ts arbitrary: i)
  case (Cons t ts)
  obtain k where k: "dmap v i t = Some k" using Cons.prems(4) by (auto split: option.splits)
  then have "alive v (unat k)" using dmap_target [OF Cons.prems(1,3) _ k] Cons.prems(2) by simp
  then show ?case using Cons.IH [of "unat k"] Cons.prems k by simp
qed simp

text \<open>On a mounted file system a path leads where the directory maps lead.\<close>

theorem get_node_walks:
  assumes inv: "fs_inv s" and ts: "\<forall>t \<in> set ts. component t" "length (abs_path ts) < PATH_MAX"
    and thr: "through_dirs (view s) 0 ts"
  shows "get_node_by_path s (abs_path ts) 0 =
    Some (case vwalk (view s) 0 ts of None \<Rightarrow> (-ENOENT, None) | Some j \<Rightarrow> (0, Some (inodes (view s) j)))"
proof -
  have ok: "disk_ok s" and c: "core (view s)" "dirs {i. alive (view s) i} (view s)" and a: "alive (view s) 0"
    using inv by (simp_all add: fs_inv_def store_inv_def)
  have r: "readi 0 s = (0, Some (inodes (view s) 0))" "ivalid (inodes (view s) 0) \<noteq> 0"
    using readi_alive [OF ok, of 0] a by (auto simp: alive_def)
  show ?thesis
  proof (cases "abs_path ts = [SLASH]")
    case True
    have "ts = []"
    proof (rule ccontr)
      assume "ts \<noteq> []"
      then obtain t us where "ts = t # us" by (cases ts) auto
      then show False using True ts(1) by (simp add: abs_path_def component_def)
    qed
    then show ?thesis using True r by (simp add: get_node_by_path_def)
  next
    case False
    have t: "take (PATH_MAX - Suc 0) (abs_path ts) = abs_path ts" using ts(2) by simp
    have "walk s 0 (inodes (view s) 0) ts =
        Some (case vwalk (view s) 0 ts of None \<Rightarrow> (-ENOENT, None) | Some j \<Rightarrow> (0, Some (inodes (view s) j)))"
      using walk_vwalk [OF ok c, of 0 ts] a thr ts(1) by (simp add: component_def)
    then show ?thesis
      using False r tokens_abs_path [OF ts(1)] by (simp add: get_node_by_path_def t Let_def)
  qed
qed

end
