(* ===== verification/FsTree.thy ===== *)
theory FsTree
  imports FsPath
begin

text \<open>
  \<open>rufs_create\<close> and \<open>rufs_mkdir\<close>: they keep the invariant, and a success adds one inode under one
  name to one directory. An error may leave an inode or a block marked that nothing refers to.
\<close>

section \<open>What an error leaves and what a success makes\<close>

definition leaked :: "store \<Rightarrow> store \<Rightarrow> bool" where
  "leaked v v' \<longleftrightarrow> inodes v' = inodes v \<and> iused v \<subseteq> iused v' \<and> bused v \<subseteq> bused v' \<and> core v' \<and>
     (\<forall>b \<in> bused v. data v' b = data v b)"

lemma leaked_refl: "core v \<Longrightarrow> leaked v v"
  by (simp add: leaked_def)

lemma dmap_cong:
  assumes "direct_ptr (inodes v' i) = direct_ptr (inodes v i)" "\<forall>b \<in> owned (inodes v i). data v' b = data v b"
  shows "dmap v' i = dmap v i"
proof
  fix nm
  have "map (probe (rd v') nm) (direct_ptr (inodes v i)) = map (probe (rd v) nm) (direct_ptr (inodes v i))"
    using assms(2) owned_ptr by (intro probe_cong_set) (auto simp: rd_def)
  then show "dmap v' i nm = dmap v i nm" by (simp only: dmap_rd assms(1))
qed

lemma leaked_dmap: "core v \<Longrightarrow> leaked v v' \<Longrightarrow> alive v i \<Longrightarrow> dmap v' i = dmap v i"
  using coreD(4) [of v i] by (intro dmap_cong) (auto simp: leaked_def)

lemma leaked_entry_names: "core v \<Longrightarrow> leaked v v' \<Longrightarrow> alive v i \<Longrightarrow> entry_names v' i = entry_names v i"
  using coreD(4) [of v i] by (intro entry_names_cong) (auto simp: leaked_def)

lemma leaked_alive: "leaked v v' \<Longrightarrow> alive v' = alive v"
  by (auto simp: leaked_def alive_def fun_eq_iff)

lemma leaked_dirs:
  assumes "core v" "leaked v v'" "dirs L v"
  shows "dirs L v'"
  unfolding dirs_def
proof (intro allI impI ballI)
  fix i b assume i: "alive v' i \<and> is_dir (inodes v' i)" and b: "b \<in> owned (inodes v' i)"
  have e: "inodes v' = inodes v" "alive v' = alive v" using assms(2) leaked_alive by (auto simp: leaked_def)
  then have "data v' b = data v b" using i b assms(2) coreD(4) [OF assms(1), of i] by (auto simp: leaked_def)
  then show "block_ents L (data v' b)" using dirsD [OF assms(3), of i b] i b e by simp
qed

lemma leaked_inv: "store_inv v \<Longrightarrow> leaked v v' \<Longrightarrow> store_inv v'"
  using leaked_dirs [of v v'] leaked_alive [of v v'] by (auto simp: store_inv_def leaked_def)

lemma leaked_trans: "leaked u v \<Longrightarrow> leaked v w \<Longrightarrow> leaked u w"
  by (auto simp: leaked_def)

text \<open>Inode \<open>i\<close> made with contents \<open>node\<close>, and known as \<open>nm\<close> in directory \<open>d\<close>.\<close>

definition node_made :: "store \<Rightarrow> nat \<Rightarrow> u8 list \<Rightarrow> nat \<Rightarrow> inode \<Rightarrow> store \<Rightarrow> bool" where
  "node_made v d nm i node v' \<longleftrightarrow>
     alive v d \<and> is_dir (inodes v d) \<and> dmap v d nm = None \<and> \<not> alive v i \<and> i < 1024 \<and> i \<noteq> d \<and>
     inodes v' i = node \<and> (\<forall>j. j \<noteq> i \<and> j \<noteq> d \<longrightarrow> inodes v' j = inodes v j) \<and>
     ivalid (inodes v' d) = ivalid (inodes v d) \<and> itype (inodes v' d) = itype (inodes v d) \<and>
     link (inodes v' d) = link (inodes v d) \<and> isize (inodes v' d) = isize (inodes v d) + of_nat DIRENT_SIZE \<and>
     dmap v' d = (dmap v d)(nm \<mapsto> of_nat i) \<and> mset (entry_names v' d) = add_mset nm (mset (entry_names v d)) \<and>
     (\<forall>j. alive v j \<and> j \<noteq> d \<longrightarrow> (\<forall>b \<in> owned (inodes v j). data v' b = data v b))"

lemma node_made_alive: "node_made v d nm i node v' \<Longrightarrow> alive v' j \<longleftrightarrow> (if j = i then ivalid node \<noteq> 0 else alive v j)"
  by (auto simp: node_made_def alive_def)

lemma node_made_dmap: "node_made v d nm i node v' \<Longrightarrow> alive v j \<Longrightarrow> j \<noteq> d \<Longrightarrow> dmap v' j = dmap v j"
  by (rule dmap_cong) (auto simp: node_made_def)

section \<open>The parent\<close>

lemma new_entry_parent_cases:
  assumes inv: "fs_inv s" and nm: "0 \<notin> set (basename (take (PATH_MAX - 1) path))"
    and run: "new_entry_parent s path = Some x"
  obtains (error) e where "x = Inl e" "e < 0"
  | (parent) d where "x = Inr (inodes (view s) d)" "alive (view s) d" "is_dir (inodes (view s) d)"
      "dmap (view s) d (basename (take (PATH_MAX - 1) path)) = None"
proof -
  let ?v = "view s"
  have ok: "disk_ok s" and c: "core ?v" "dirs {i. alive ?v i} ?v" and a0: "alive ?v 0"
    using inv by (simp_all add: fs_inv_def store_inv_def)
  obtain r n where g: "get_node_by_path s (dirname (take (PATH_MAX - 1) path)) 0 = Some (r, n)"
    using run by (auto simp: new_entry_parent_def bind_eq_Some_conv)
  from get_node_alive [OF ok a0 g] show ?thesis
  proof (elim disjE conjE exE)
    assume "n = None"
    then show ?thesis using run g by (intro error [of "-ENOENT"]) (simp_all add: new_entry_parent_def ENOENT_def)
  next
    fix d assume r: "r = 0" and a: "alive ?v d" and n: "n = Some (inodes ?v d)"
    show ?thesis
    proof (cases "is_dir (inodes ?v d)")
      case False
      then show ?thesis using run g n r
        by (intro error [of "-ENOTDIR"]) (simp_all add: new_entry_parent_def ENOTDIR_def is_dir_def)
    next
      case True
      have u: "unat (ino (inodes ?v d)) = d" by (rule coreD(3) [OF c(1) a])
      then have a': "alive ?v (unat (ino (inodes ?v d)))" "is_dir (inodes ?v (unat (ino (inodes ?v d))))"
        using a True by simp_all
      show ?thesis
      proof (cases rule: dir_find_dmap [OF ok c a' nm])
        case 1
        then show ?thesis using run g n r True u a
          by (intro parent [of d]) (simp_all add: new_entry_parent_def is_dir_def ENOENT_def)
      next
        case (2 e)
        then show ?thesis using run g n r True
          by (intro error [of "-EEXIST"]) (simp_all add: new_entry_parent_def is_dir_def EEXIST_def)
      qed
    qed
  qed
qed

section \<open>Making a node\<close>

lemma make_node:
  assumes inv: "store_inv v" and lk: "leaked v v1" and i: "i < 1024" "i \<notin> iused v" "i \<in> iused v1"
    and d: "alive v d" "is_dir (inodes v d)" "dmap v d nm = None"
    and v2: "core v2" "dirs (insert i {j. alive v j}) v2" "entry_added v1 d nm (of_nat i) v2"
    and node: "inode_shape node" "ivalid node \<noteq> 0" "unat (ino node) = i" "ptrs_distinct node"
      "owned node \<subseteq> bused v1" "owned node \<inter> bused v = {}"
      "is_dir node \<Longrightarrow> \<forall>b \<in> owned node. block_ents (insert i {j. alive v j}) (data v1 b)"
  shows "store_inv (v2\<lparr>inodes := (inodes v2)(i := node)\<rparr>)"
    and "node_made v d nm i node (v2\<lparr>inodes := (inodes v2)(i := node)\<rparr>)"
proof -
  let ?v' = "v2\<lparr>inodes := (inodes v2)(i := node)\<rparr>"
  have c: "core v" "alive v 0" "is_dir (inodes v 0)" using inv by (simp_all add: store_inv_def)
  have dead: "\<not> alive v i" using coreD(2) [OF c(1)] i(2) by blast
  then have id: "i \<noteq> d" "i \<noteq> 0" using d(1) c(2) by (metis, metis)
  have v1: "inodes v1 = inodes v" "bused v \<subseteq> bused v1" "\<And>b. b \<in> bused v \<Longrightarrow> data v1 b = data v b"
    using lk by (auto simp: leaked_def)
  obtain n' where n': "inodes v2 = (inodes v)(d := n')" "ino n' = ino (inodes v d)" "ivalid n' = ivalid (inodes v d)"
    "itype n' = itype (inodes v d)" "link n' = link (inodes v d)" "isize n' = isize (inodes v d) + of_nat DIRENT_SIZE"
    "owned n' \<inter> bused v1 \<subseteq> owned (inodes v d)"
    using v2(3) v1(1) by (auto simp: entry_added_def)
  have e: "iused v2 = iused v1" "bused v1 \<subseteq> bused v2" "\<And>nm'. dmap v2 d nm' = (if nm' = nm then Some (of_nat i) else dmap v1 d nm')"
    "\<And>b. b \<in> bused v1 \<Longrightarrow> b \<notin> owned (inodes v d) \<Longrightarrow> data v2 b = data v1 b"
    using v2(3) v1(1) by (auto simp: entry_added_def)
  have od: "owned (inodes v j) \<subseteq> bused v" if "alive v j" for j using coreD(4) [OF c(1) that] .
  have alive2: "alive v2 j = alive v j" for j using n'(1,3) by (auto simp: alive_def)
  have alive': "alive ?v' j \<longleftrightarrow> j = i \<or> alive v j" for j using alive2 node(2) i(1) by (auto simp: alive_set)
  have core': "core ?v'"
  proof (rule core_set_inode [OF v2(1) i(1) node(1) _ node(3) _ node(4)])
    show "i \<in> iused v2" using i(3) e(1) by simp
    show "owned node \<subseteq> bused v2" using node(5) e(2) by blast
    show "b \<notin> owned (inodes v2 j)" if "alive v2 j" "j \<noteq> i" "b \<in> owned node" for j b
      using that od [of j] od [OF d(1)] node(5,6) n'(1,7) by (cases "j = d") (auto simp: alive2)
  qed
  have ents: "\<forall>b \<in> owned node. block_ents (insert i {j. alive v j}) (data v2 b)" if "is_dir node"
    using node(5,6,7) that e(4) od [OF d(1)] by (metis disjoint_iff subsetD)
  have L: "{j. alive ?v' j} = insert i {j. alive v j}" using alive' by auto
  have dirs': "dirs {j. alive ?v' j} ?v'"
    unfolding L using ents by (intro dirs_set_inode [OF v2(2)])
  have "is_dir (inodes ?v' 0)" using c(3) id n'(1,4) by (cases "d = 0") (auto simp: is_dir_def)
  then show "store_inv ?v'" using core' dirs' alive' c(2) by (simp add: store_inv_def)
  have "dmap ?v' d = dmap v2 d" using id by (intro dmap_cong) simp_all
  then have "dmap ?v' d = (dmap v d)(nm \<mapsto> of_nat i)"
    using e(3) leaked_dmap [OF c(1) lk d(1)] by (auto simp: fun_eq_iff)
  moreover have "entry_names ?v' d = entry_names v2 d" using id by (intro entry_names_cong) simp_all
  then have "mset (entry_names ?v' d) = add_mset nm (mset (entry_names v d))"
    using v2(3) leaked_entry_names [OF c(1) lk d(1)] by (simp add: entry_added_def)
  moreover have "data ?v' b = data v b" if "alive v j" "j \<noteq> d" "b \<in> owned (inodes v j)" for j b
  proof -
    have b: "b \<in> bused v" "b \<in> bused v1" using od [OF that(1)] that(3) v1(2) by blast+
    have "b \<notin> owned (inodes v d)" by (rule coreD(8) [OF c(1) that(1) d(1) that(2,3)])
    then show ?thesis using e(4) b v1(3) by simp
  qed
  ultimately show "node_made v d nm i node ?v'"
    using d dead i(1) id n' by (auto simp: node_made_def)
qed

section \<open>rufs_create\<close>

lemma new_file_inode_fields [simp]:
  "ino (new_file_inode i m a) = i" "ivalid (new_file_inode i m a) = 1" "itype (new_file_inode i m a) = S_IFREG"
  "link (new_file_inode i m a) = 1" "isize (new_file_inode i m a) = 0"
  "direct_ptr (new_file_inode i m a) = replicate 16 0" "inode_shape (new_file_inode i m a)"
  by (simp_all add: new_file_inode_def zero_inode_def inode_shape_def set_mode_def set_atime_def set_mtime_def
      fs_consts Let_def)

lemma set_time_fields [simp]:
  "ino (set_mtime t n) = ino n" "ivalid (set_mtime t n) = ivalid n" "itype (set_mtime t n) = itype n"
  "link (set_mtime t n) = link n" "isize (set_mtime t n) = isize n" "direct_ptr (set_mtime t n) = direct_ptr n"
  "ino (set_atime t n) = ino n" "ivalid (set_atime t n) = ivalid n" "itype (set_atime t n) = itype n"
  "link (set_atime t n) = link n" "isize (set_atime t n) = isize n" "direct_ptr (set_atime t n) = direct_ptr n"
  by (simp_all add: set_mtime_def set_atime_def)

lemma set_time_shape [simp]:
  "inode_shape n \<Longrightarrow> inode_shape (set_mtime t n)" "inode_shape n \<Longrightarrow> inode_shape (set_atime t n)"
  by (simp_all add: inode_shape_def set_mtime_def set_atime_def fs_consts)

lemma IFREG_not_dir: "S_IFREG \<noteq> S_IFDIR"
  by (simp add: S_IFREG_def S_IFDIR_def)

text \<open>With the parent found, \<open>rufs_create\<close> returns: no space, or the node made.\<close>

lemma create_at:
  assumes inv: "fs_inv s" and nm: "name_ok (basename (take (PATH_MAX - 1) path))"
    and x: "new_entry_parent s path = Some (Inr (inodes (view s) d))"
    and d: "alive (view s) d" "is_dir (inodes (view s) d)"
      "dmap (view s) d (basename (take (PATH_MAX - 1) path)) = None"
  obtains (error) s' where "rufs_create m a path s = Some (-ENOSPC, s')" "disk_ok s'" "leaked (view s) (view s')"
      "{..<1024} \<subseteq> iused (view s) \<or> dir_full (view s) d"
  | (made) i s' where "rufs_create m a path s = Some (0, s')" "fs_inv s'"
      "node_made (view s) d (basename (take (PATH_MAX - 1) path)) i (new_file_inode (of_nat i) m a) (view s')"
      "\<exists>b. bused (view s') \<subseteq> insert b (bused (view s))"
proof -
  let ?v = "view s" and ?nm = "basename (take (PATH_MAX - 1) path)"
  have ok: "disk_ok s" and st: "store_inv ?v" using inv by (simp_all add: fs_inv_def)
  then have c: "core ?v" "dirs {j. alive ?v j} ?v" by (simp_all add: store_inv_def)
  show ?thesis
  proof (cases rule: view_get_avail_ino [OF ok])
    case 1
    then show ?thesis using x ok leaked_refl [OF c(1)] by (intro error) (simp_all add: rufs_create_def)
  next
    case ino: (2 i s1)
    let ?node = "new_file_inode (of_nat i) m a"
    have ui: "unat (of_nat i :: u16) = i" using ino(2) by (rule unat_u16)
    have lk: "leaked ?v (view s1)" using core_use_ino [OF c(1), of i] by (auto simp: leaked_def ino(5))
    have c1: "core (view s1)" "dirs {j. alive ?v j} (view s1)" using lk c by (simp_all add: leaked_def ino(5))
    have d1: "alive (view s1) d" "is_dir (inodes (view s1) d)" using d by (simp_all add: ino(5))
    have pn: "inodes ?v d = inodes (view s1) d" by (simp add: ino(5))
    have to_add: "rufs_create m a path s = do {(r, t) \<leftarrow> dir_add (inodes (view s1) d) (of_nat i) ?nm s1;
        if r < 0 then Some (-ENOSPC, t) else Some (0, snd (writei (of_nat i) ?node t))}"
      using x ino(1) pn by (simp add: rufs_create_def Let_def cong: if_cong)
    show ?thesis
    proof (cases rule: dir_add_cases [OF ino(4) c1 d1 nm, of "of_nat i"])
      case (1 k)
      moreover have "dmap (view s1) d = dmap ?v d" by (rule leaked_dmap [OF c(1) lk d(1)])
      ultimately show ?thesis using d(3) by simp
    next
      case full: (2 s2)
      then obtain u where u: "u \<subseteq> {b. data_blk b}" "bused (view s1) \<subseteq> u" "view s2 = (view s1)\<lparr>bused := u\<rparr>" by blast
      have "core (view s2)" using c1(1) u by (auto simp: core_def inode_ok_def)
      then have "leaked ?v (view s2)" using lk u by (auto simp: leaked_def)
      moreover have "dir_full ?v d" using full(5) by (simp add: dir_full_def ino(5))
      ultimately show ?thesis using to_add full by (intro error) (simp_all add: ENOSPC_def)
    next
      case (3 s2)
      obtain s3 where s3: "writei (of_nat i) ?node s2 = (0, s3)" "disk_ok s3"
        "view s3 = (view s2)\<lparr>inodes := (inodes (view s2))(i := ?node)\<rparr>"
        using view_writei [OF 3(3), of "of_nat i" ?node] ui ino(2) by auto
      have run: "rufs_create m a path s = Some (0, s3)" using to_add 3(1) s3(1) by simp
      have none: "owned ?node = {}" "ptrs_distinct ?node" by (auto simp: owned_def ptrs_distinct_def)
      have iu: "i \<in> iused (view s1)" by (simp add: ino(5))
      have d2: "dirs (insert i {j. alive ?v j}) (view s2)" using 3(5) ui by simp
      have "store_inv (view s3)" "node_made ?v d ?nm i ?node (view s3)"
        using make_node [OF st lk ino(2,3) iu d 3(4) d2 3(6), of ?node] none ui
        by (simp_all add: s3(3) is_dir_def IFREG_not_dir)
      moreover have "\<exists>b. bused (view s3) \<subseteq> insert b (bused ?v)" using 3(6) by (simp add: s3(3) entry_added_def ino(5))
      ultimately show ?thesis using run s3(2) by (intro made) (simp_all add: fs_inv_def)
    qed
  qed
qed

lemma create_cases:
  assumes inv: "fs_inv s" and nm: "name_ok (basename (take (PATH_MAX - 1) path))"
    and run: "rufs_create m a path s = Some (r, s')"
  obtains (error) "r < 0" "disk_ok s'" "leaked (view s) (view s')"
  | (made) d i where "r = 0" "fs_inv s'"
      "node_made (view s) d (basename (take (PATH_MAX - 1) path)) i (new_file_inode (of_nat i) m a) (view s')"
proof -
  obtain x where x: "new_entry_parent s path = Some x" using run by (auto simp: rufs_create_def bind_eq_Some_conv)
  have nul: "0 \<notin> set (basename (take (PATH_MAX - 1) path))" using nm by (simp add: name_ok_def)
  show ?thesis
  proof (cases rule: new_entry_parent_cases [OF inv nul x])
    case (1 e)
    then show ?thesis using run x inv leaked_refl
      by (intro error) (simp_all add: rufs_create_def fs_inv_def store_inv_def)
  next
    case (2 d)
    show ?thesis
      by (rule create_at [OF inv nm x [unfolded 2(1)] 2(2-4), of m a])
        (use run in \<open>auto simp: ENOSPC_def intro: error made\<close>)
  qed
qed

section \<open>The first block of a directory\<close>

abbreviation zeros :: block where "zeros \<equiv> replicate BLOCK_SIZE 0"

lemma dots_entries:
  shows "lens_ok (put_dots self par zeros)" "holds (put_dots self par zeros) 0 self [DOT]"
    "holds (put_dots self par zeros) 1 par [DOT, DOT]"
    "k < DIRENTS_PER_BLOCK \<Longrightarrow> 2 \<le> k \<Longrightarrow> ent_valid (put_dots self par zeros) k = 0"
proof -
  have D: "0 < DIRENTS_PER_BLOCK" "1 < DIRENTS_PER_BLOCK" by (simp_all add: dirents_19)
  have n: "length [DOT] < NAME_SIZE" "length [DOT, DOT] < NAME_SIZE" "0 \<notin> set [DOT]" "0 \<notin> set [DOT, DOT]"
    by (simp_all add: fs_consts DOT_def)
  let ?a = "put_ent 0 self [DOT] zeros"
  note a = put_ent_ok [OF zero_lens_ok D(1) n(1,3), where f = self]
  note b = put_ent_ok [OF a(1) D(2) n(2,4), where f = par]
  have e0: "ent_bytes (put_dots self par zeros) 0 = ent_bytes ?a 0" using b(3) [OF D(1)] by (simp add: put_dots_def)
  show l: "lens_ok (put_dots self par zeros)" and "holds (put_dots self par zeros) 1 par [DOT, DOT]"
    using b by (simp_all add: put_dots_def)
  show "holds (put_dots self par zeros) 0 self [DOT]"
    using a(2) e0 ent_is_cong [OF a(1) l D(1) e0] by (simp add: holds_def ent_fields)
  show "ent_valid (put_dots self par zeros) k = 0" if "k < DIRENTS_PER_BLOCK" "2 \<le> k"
    using a(3) [OF that(1)] b(3) [OF that(1)] that(2) zero_entry [of k] by (simp add: put_dots_def ent_fields)
qed

lemma small_index: "(k :: nat) < 2 \<longleftrightarrow> k = 0 \<or> k = 1"
  by auto

lemma dots_ents: "unat self \<in> L \<Longrightarrow> unat par \<in> L \<Longrightarrow> block_ents L (put_dots self par zeros)"
  unfolding block_ents_def
proof (intro conjI allI impI)
  fix k assume L: "unat self \<in> L" "unat par \<in> L" and k: "k < DIRENTS_PER_BLOCK" "ent_valid (put_dots self par zeros) k \<noteq> 0"
  then have "k = 0 \<or> k = 1" using dots_entries(4) small_index by (metis not_less)
  then show "unat (ent_ino (put_dots self par zeros) k) \<in> L"
    using L dots_entries(2,3) [of self par] by (auto simp: holds_def)
qed (rule dots_entries(1))

lemma dots_lookup:
  assumes "b \<noteq> 0" "r b = put_dots self par zeros"
  shows "map_option d_ino (first_some (map (probe r nm) (b # replicate n 0))) =
    [[DOT] \<mapsto> self, [DOT, DOT] \<mapsto> par] nm"
proof -
  let ?B = "put_dots self par zeros"
  have named: "ent_is ?B nm k \<longleftrightarrow> k = 0 \<and> nm = [DOT] \<or> k = 1 \<and> nm = [DOT, DOT]" if k: "k < DIRENTS_PER_BLOCK" for k
  proof (cases "k < 2")
    case True
    then show ?thesis using dots_entries(2,3) [of self par] by (auto simp: holds_def small_index)
  next
    case False
    then show ?thesis using dots_entries(4) [OF k] by (auto simp: ent_is_def)
  qed
  have rest: "first_some (map (probe r nm) (replicate n 0)) = None" by (simp add: first_some_None probe_def)
  consider "nm = [DOT]" | "nm = [DOT, DOT]" | "nm \<noteq> [DOT]" "nm \<noteq> [DOT, DOT]" by blast
  then show ?thesis
  proof cases
    case 1
    then have "first_clear (\<lambda>k. \<not> ent_is ?B nm k) 0 DIRENTS_PER_BLOCK = Some 0"
      using named by (simp add: first_clear_Some dirents_19)
    then show ?thesis using 1 assms dots_entries(2) [of self par] by (simp add: probe_def holds_def)
  next
    case 2
    then have "first_clear (\<lambda>k. \<not> ent_is ?B nm k) 0 DIRENTS_PER_BLOCK = Some 1"
      using named by (simp add: first_clear_Some dirents_19)
    then show ?thesis using 2 assms dots_entries(3) [of self par] by (simp add: probe_def holds_def)
  next
    case 3
    then have "probe r nm b = None" using named assms by (auto simp: probe_None)
    then show ?thesis using 3 rest by simp
  qed
qed

section \<open>rufs_mkdir\<close>

lemma replicate_16: "replicate 16 x = x # replicate 15 x"
  using replicate_Suc [of 15 x] by simp

lemma new_dir_inode_fields [simp]:
  "ino (new_dir_inode i b m a) = i" "ivalid (new_dir_inode i b m a) = 1" "itype (new_dir_inode i b m a) = S_IFDIR"
  "link (new_dir_inode i b m a) = 2" "isize (new_dir_inode i b m a) = of_nat (2 * DIRENT_SIZE)"
  "direct_ptr (new_dir_inode i b m a) = b # replicate 15 0" "inode_shape (new_dir_inode i b m a)"
  by (simp_all add: new_dir_inode_def zero_inode_def inode_shape_def set_mode_def set_atime_def set_mtime_def
      fs_consts Let_def replicate_16)

text \<open>The block of the new directory: marked, cleared, its first entries written.\<close>

lemma fresh_dir_block:
  assumes ok: "disk_ok s" and b: "data_blk (unat b)"
  obtains s' where "bio_write b (put_dots self par (bio_read (init_dir_block_empty b s) b)) (init_dir_block_empty b s) = s'"
    "disk_ok s'" "view s' = (view s)\<lparr>data := (data (view s))(unat b := put_dots self par zeros)\<rparr>"
    "\<forall>c<2 ^ 19. c \<noteq> unat b \<longrightarrow> blk s' c = blk s c"
proof -
  note z = zero_block_view [OF ok b]
  have len: "length (put_dots self par zeros) = BLOCK_SIZE" using dots_entries(1) by (simp add: lens_ok_def)
  have b19: "unat b < 2 ^ 19" by (rule data_blk_small [OF b])
  have "blk (bio_write b (put_dots self par zeros) (zero_block b s)) c = blk s c" if "c < 2 ^ 19" "c \<noteq> unat b" for c
    using write_blk(2) [OF z(1) b19 len that(1)] write_blk(2) [OF ok b19 length_replicate that(1), of 0] that(2)
    by (simp add: zero_block_def)
  then have "\<forall>c<2 ^ 19. c \<noteq> unat b \<longrightarrow> blk (bio_write b (put_dots self par zeros) (zero_block b s)) c = blk s c"
    by blast
  then show ?thesis using view_write [OF z(1) b len]
    by (intro that) (simp_all add: init_dir_block_empty_def z(2,3))
qed

lemma owned_new_dir: "b \<noteq> 0 \<Longrightarrow> owned (new_dir_inode i b m a) = {unat b}"
  by (auto simp: owned_def)

lemma ptrs_distinct_new_dir: "ptrs_distinct (new_dir_inode i b m a)"
  by (simp add: ptrs_distinct_def)

lemma is_dir_new_dir: "is_dir (new_dir_inode i b m a)"
  by (simp add: is_dir_def)

lemma dmap_new_dir:
  assumes "inodes v i = new_dir_inode (of_nat i) b m a" "b \<noteq> 0" "data v (unat b) = put_dots self par zeros"
  shows "dmap v i = [[DOT] \<mapsto> self, [DOT, DOT] \<mapsto> par]"
proof
  fix nm
  show "dmap v i nm = [[DOT] \<mapsto> self, [DOT, DOT] \<mapsto> par] nm"
    using dots_lookup [of b "rd v" self par nm 15] assms by (simp add: dmap_rd rd_def)
qed

lemma entry_names_dots:
  assumes "direct_ptr (inodes v i) = b # replicate n 0" "b \<noteq> 0" "data v (unat b) = put_dots self par zeros"
  shows "entry_names v i = [[DOT], [DOT, DOT]]"
proof -
  let ?B = "put_dots self par zeros"
  have v: "ent_valid ?B 0 \<noteq> 0" "ent_valid ?B 1 \<noteq> 0" using dots_entries(2,3) [of self par] by (simp_all add: holds_def)
  have "[0..<DIRENTS_PER_BLOCK] = 0 # 1 # [2..<DIRENTS_PER_BLOCK]" by (simp add: dirents_19 upt_rec)
  moreover have "filter (\<lambda>k. ent_valid ?B k \<noteq> 0) [2..<DIRENTS_PER_BLOCK] = []"
    using dots_entries(4) by (auto simp: filter_empty_conv)
  moreover have "name_of ?B 0 = [DOT]" "name_of ?B 1 = [DOT, DOT]"
    using dots_entries(2,3) [of self par] name_of_is [OF dots_entries(1)] v by (auto simp: holds_def dirents_19)
  ultimately have "block_names ?B = [[DOT], [DOT, DOT]]" using v by (simp add: block_names_def)
  then show ?thesis using assms by (simp add: entry_names_def rd_def)
qed

lemma mkdir_at:
  assumes inv: "fs_inv s" and nm: "name_ok (basename (take (PATH_MAX - 1) path))"
    and x: "new_entry_parent s path = Some (Inr (inodes (view s) d))"
    and d: "alive (view s) d" "is_dir (inodes (view s) d)"
      "dmap (view s) d (basename (take (PATH_MAX - 1) path)) = None"
  obtains (error) s' where "rufs_mkdir m a path s = Some (-ENOSPC, s')" "disk_ok s'" "leaked (view s) (view s')"
      "{..<1024} \<subseteq> iused (view s) \<or> bused (view s) = {b. data_blk b} \<or>
       (\<exists>n. dir_full ((view s)\<lparr>bused := insert n (bused (view s))\<rparr>) d)"
  | (made) i b s' where "rufs_mkdir m a path s = Some (0, s')" "fs_inv s'" "b \<noteq> 0"
      "node_made (view s) d (basename (take (PATH_MAX - 1) path)) i (new_dir_inode (of_nat i) b m a) (view s')"
      "dmap (view s') i = [[DOT] \<mapsto> of_nat i, [DOT, DOT] \<mapsto> of_nat d]" "entry_names (view s') i = [[DOT], [DOT, DOT]]"
proof -
  let ?v = "view s" and ?nm = "basename (take (PATH_MAX - 1) path)"
  have ok: "disk_ok s" and st: "store_inv ?v" using inv by (simp_all add: fs_inv_def)
  then have c: "core ?v" "dirs {j. alive ?v j} ?v" by (simp_all add: store_inv_def)
    show ?thesis
    proof (cases rule: view_get_avail_ino [OF ok])
      case 1
      then show ?thesis
        using x ok leaked_refl [OF c(1)] by (intro error) (simp_all add: rufs_mkdir_def)
    next
      case ino: (2 i s1)
      have ui: "unat (of_nat i :: u16) = i" using ino(2) by (rule unat_u16)
      have lk1: "leaked ?v (view s1)" using core_use_ino [OF c(1), of i] by (auto simp: leaked_def ino(5))
      show ?thesis
      proof (cases rule: view_get_avail_blkno [OF ino(4)])
        case 1
        moreover have "bused ?v = {b. data_blk b}" using 1(2) by (simp add: ino(5))
        ultimately show ?thesis
          using x ino(1,4) lk1 by (intro error) (simp_all add: rufs_mkdir_def)
      next
        case bl: (2 n s2)
        let ?b = "of_int (int n) :: u32"
        let ?node = "new_dir_inode (of_nat i) ?b m a"
        let ?dots = "put_dots (of_nat i) (ino (inodes ?v d)) zeros"
        note b = data_blk_word [OF bl(2)]
        have db: "data_blk (unat ?b)" using b(1) bl(2) by simp
        obtain s3 where s3: "bio_write ?b (put_dots (of_nat i) (ino (inodes ?v d))
            (bio_read (init_dir_block_empty ?b s2) ?b)) (init_dir_block_empty ?b s2) = s3"
          "disk_ok s3" "view s3 = (view s2)\<lparr>data := (data (view s2))(unat ?b := ?dots)\<rparr>"
          "\<forall>c<2 ^ 19. c \<noteq> unat ?b \<longrightarrow> blk s3 c = blk s2 c"
          by (rule fresh_dir_block [OF bl(4) db])
        have v3: "view s3 = ?v\<lparr>iused := insert i (iused ?v), bused := insert n (bused ?v), data := (data ?v)(n := ?dots)\<rparr>"
          using s3(3) bl(5) ino(5) b(1) by simp
        have fresh: "n \<notin> bused ?v" using bl(3) ino(5) by simp
        have dlen: "length ?dots = BLOCK_SIZE" using dots_entries(1) by (simp add: lens_ok_def)
        have "core (view s3)"
          using core_data [OF core_use_blk [OF core_use_ino [OF c(1), of i] bl(2)] dlen, of n] by (simp add: v3)
        then have lk: "leaked ?v (view s3)" using fresh by (auto simp: leaked_def v3)
        have c3: "core (view s3)" "dirs {j. alive ?v j} (view s3)" using lk leaked_dirs [OF c(1) lk c(2)] by (auto simp: leaked_def)
        have d3: "alive (view s3) d" "is_dir (inodes (view s3) d)" using d by (simp_all add: v3)
        have pn: "inodes ?v d = inodes (view s3) d" by (simp add: v3)
        have to_add: "rufs_mkdir m a path s = do {(r, t) \<leftarrow> dir_add (inodes (view s3) d) (of_nat i) ?nm s3;
            if r < 0 then Some (-ENOSPC, t) else Some (0, snd (writei (of_nat i) ?node t))}"
          using x ino(1) bl(1) s3(1) pn by (simp add: rufs_mkdir_def Let_def cong: if_cong)
        show ?thesis
        proof (cases rule: dir_add_cases [OF s3(2) c3 d3 nm, of "of_nat i"])
          case (1 k)
          moreover have "dmap (view s3) d = dmap ?v d" by (rule leaked_dmap [OF c(1) lk d(1)])
          ultimately show ?thesis using d(3) by simp
        next
          case full: (2 s4)
          then obtain u where u: "u \<subseteq> {b. data_blk b}" "bused (view s3) \<subseteq> u" "view s4 = (view s3)\<lparr>bused := u\<rparr>" by blast
          have "core (view s4)" using c3(1) u by (auto simp: core_def inode_ok_def)
          then have "leaked ?v (view s4)" using lk u by (auto simp: leaked_def)
          moreover have "dir_full (?v\<lparr>bused := insert n (bused ?v)\<rparr>) d"
          proof -
            have "data (view s3) b = data ?v b" if "b \<in> owned (inodes ?v d)" for b
              using that fresh coreD(4) [OF c(1) d(1)] by (auto simp: v3)
            then show ?thesis using full(5) by (simp add: dir_full_def v3)
          qed
          ultimately show ?thesis using to_add full by (intro error) (auto simp: ENOSPC_def)
        next
          case (3 s4)
          obtain s5 where s5: "writei (of_nat i) ?node s4 = (0, s5)" "disk_ok s5"
            "view s5 = (view s4)\<lparr>inodes := (inodes (view s4))(i := ?node)\<rparr>"
            using view_writei [OF 3(3), of "of_nat i" ?node] ui ino(2) by auto
          have run: "rufs_mkdir m a path s = Some (0, s5)" using to_add 3(1) s5(1) by simp
          have d4: "dirs (insert i {j. alive ?v j}) (view s4)" using 3(5) ui by simp
          have iu: "i \<in> iused (view s3)" by (simp add: v3)
          have on: "owned ?node = {n}" using owned_new_dir [OF b(2)] b(1) by simp
          have "(of_nat (unat (ino (inodes ?v d))) :: u16) = ino (inodes ?v d)" by simp
          then have ud: "ino (inodes ?v d) = of_nat d" using coreD(3) [OF c(1) d(1)] by simp
          have "block_ents (insert i {j. alive ?v j}) ?dots"
            using d(1) ui coreD(3) [OF c(1) d(1)] by (intro dots_ents) simp_all
          then have ents: "\<forall>b \<in> owned ?node. block_ents (insert i {j. alive ?v j}) (data (view s3) b)"
            using on by (simp add: v3)
          have mk: "store_inv (view s5)" "node_made ?v d ?nm i ?node (view s5)"
            using make_node [OF st lk ino(2,3) iu d 3(4) d4 3(6), of ?node] ui on fresh ents ptrs_distinct_new_dir
            by (simp_all add: v3 s5(3))
          have "n \<notin> owned (inodes (view s3) d)" using coreD(4) [OF c(1) d(1)] fresh by (auto simp: v3)
          then have "data (view s5) n = ?dots" using 3(6) s5(3) by (simp add: entry_added_def v3)
          then have "dmap (view s5) i = [[DOT] \<mapsto> of_nat i, [DOT, DOT] \<mapsto> of_nat d]"
            "entry_names (view s5) i = [[DOT], [DOT, DOT]]"
            using b s5(3) ud by (intro dmap_new_dir [of _ i ?b m a] entry_names_dots [of _ i ?b 15], simp_all)+
          then show ?thesis using run mk s5(2) b(2) by (intro made) (simp_all add: fs_inv_def)
        qed
      qed
    qed
qed

lemma mkdir_cases:
  assumes inv: "fs_inv s" and nm: "name_ok (basename (take (PATH_MAX - 1) path))"
    and run: "rufs_mkdir m a path s = Some (r, s')"
  obtains (error) "r < 0" "disk_ok s'" "leaked (view s) (view s')"
  | (made) d i b where "r = 0" "fs_inv s'"
      "node_made (view s) d (basename (take (PATH_MAX - 1) path)) i (new_dir_inode (of_nat i) b m a) (view s')"
      "entry_names (view s') i = [[DOT], [DOT, DOT]]"
proof -
  obtain x where x: "new_entry_parent s path = Some x" using run by (auto simp: rufs_mkdir_def bind_eq_Some_conv)
  have nul: "0 \<notin> set (basename (take (PATH_MAX - 1) path))" using nm by (simp add: name_ok_def)
  show ?thesis
  proof (cases rule: new_entry_parent_cases [OF inv nul x])
    case (1 e)
    then show ?thesis using run x inv leaked_refl
      by (intro error) (simp_all add: rufs_mkdir_def fs_inv_def store_inv_def)
  next
    case (2 d)
    show ?thesis
      by (rule mkdir_at [OF inv nm x [unfolded 2(1)] 2(2-4), of m a])
        (use run in \<open>auto simp: ENOSPC_def intro: error made\<close>)
  qed
qed

end
