(* ===== verification/FsMkfs.thy ===== *)
theory FsMkfs
  imports FsTree
begin

text \<open>
  \<open>rufs_mkfs\<close> and \<open>rufs_init\<close>: formatting makes a file system that keeps the invariant and holds the
  root directory only; mounting what was formatted finds it again.
\<close>

section \<open>The tables\<close>

lemma mkfs_sb_formatted: "mkfs_sb = formatted_sb"
  by (simp add: mkfs_sb_def formatted_sb_def total_disk_blocks_def fs_consts MAX_INUM_def MAX_DNUM_def MAGIC_NUM_def)

lemma formatted_fields:
  "max_dnum formatted_sb = 8125" "i_bitmap_blk formatted_sb = 1" "d_bitmap_blk formatted_sb = 2"
  "i_start_blk formatted_sb = 3" "d_start_blk formatted_sb = 67" "magic_num formatted_sb = MAGIC_NUM"
  by (simp_all add: formatted_sb_def MAGIC_NUM_def)

lemma blk_zero_block:
  assumes "disk_ok s" "b < 2 ^ 19"
  shows "disk_ok (zero_block (of_nat b) s)"
    and "c < 2 ^ 19 \<Longrightarrow> blk (zero_block (of_nat b) s) c = (if c = b then zeros else blk s c)"
  using write_blk [OF assms, of zeros] by (simp_all add: zero_block_def)

lemma zero_inode_blocks:
  assumes "disk_ok s" "n \<le> 64"
  shows "disk_ok (fold (\<lambda>b. zero_block (3 + of_nat b)) [0..<n] s) \<and>
    (\<forall>c<2 ^ 19. blk (fold (\<lambda>b. zero_block (3 + of_nat b)) [0..<n] s) c = (if 3 \<le> c \<and> c < 3 + n then zeros else blk s c))"
  using assms(2)
proof (induction n)
  case 0
  then show ?case using assms(1) by auto
next
  case (Suc n)
  let ?s = "fold (\<lambda>b. zero_block (3 + of_nat b)) [0..<n] s"
  have ok: "disk_ok ?s" and b: "\<forall>c<2 ^ 19. blk ?s c = (if 3 \<le> c \<and> c < 3 + n then zeros else blk s c)"
    using Suc by simp_all
  have n: "3 + n < 2 ^ 19" using Suc.prems by simp
  have e: "fold (\<lambda>b. zero_block (3 + of_nat b)) [0..<Suc n] s = zero_block (of_nat (3 + n)) ?s" by simp
  show ?case unfolding e using blk_zero_block [OF ok n] b by auto
qed

text \<open>What \<open>rufs_mkfs\<close> leaves in the blocks before the root directory's.\<close>

lemma mkfs_tables_blk:
  assumes ok: "disk_ok s"
  obtains s' where "mkfs_tables s = s'" "disk_ok s'"
    "blk s' 0 = splice_at zeros 0 (enc_superblock formatted_sb)"
    "blk s' 1 = set_bitmap zeros 0" "blk s' 2 = set_bitmap zeros 0"
    "\<forall>c. 3 \<le> c \<and> c < 67 \<longrightarrow> blk s' c = zeros"
proof -
  let ?sup = "splice_at zeros 0 (enc_superblock formatted_sb)"
  have sup: "length ?sup = BLOCK_SIZE" by (simp add: enc_superblock_def fs_consts)
  have z: "(0 :: nat) < 2 ^ 19" "(1 :: nat) < 2 ^ 19" "(2 :: nat) < 2 ^ 19" by simp_all
  define s1 where "s1 = bio_write (of_nat 0) ?sup s"
  note w1 = write_blk [OF ok z(1) sup, folded s1_def]
  define s2 where "s2 = zero_block (of_nat 1) s1"
  note w2 = blk_zero_block [OF w1(1) z(2), folded s2_def]
  define s3 where "s3 = zero_block (of_nat 2) s2"
  note w3 = blk_zero_block [OF w2(1) z(3), folded s3_def]
  define s4 where "s4 = fold (\<lambda>b. zero_block (3 + of_nat b)) [0..<64] s3"
  have w4: "disk_ok s4" "\<And>c. c < 2 ^ 19 \<Longrightarrow> blk s4 c = (if 3 \<le> c \<and> c < 67 then zeros else blk s3 c)"
    using zero_inode_blocks [OF w3(1), of 64] by (auto simp: s4_def)
  define s5 where "s5 = bio_write (of_nat 1) (set_bitmap (blk s4 1) 0) s4"
  have l5: "length (set_bitmap (blk s4 1) 0) = BLOCK_SIZE" using w4(1) z by simp
  note w5 = write_blk [OF w4(1) z(2) l5, folded s5_def]
  define s6 where "s6 = bio_write (of_nat 2) (set_bitmap (blk s5 2) 0) s5"
  have l6: "length (set_bitmap (blk s5 2) 0) = BLOCK_SIZE" using w5(1) z by simp
  note w6 = write_blk [OF w5(1) z(3) l6, folded s6_def]
  have sb: "sb s = formatted_sb" "sb s4 = formatted_sb" using ok w4(1) by (simp_all add: disk_ok_def)
  have run: "mkfs_tables s = s6"
    by (simp add: mkfs_tables_def sb(1) formatted_fields MAX_INUM_def fs_consts Let_def
        s6_def s5_def s4_def s3_def s2_def s1_def blk_def)
  show ?thesis
    by (rule that [OF run w6(1)]) (simp_all add: w6(2) w5(2) w4(2) w3(2) w2(2) w1(2))
qed

section \<open>The root directory\<close>

text \<open>The inode of the root.\<close>

definition root_inode :: "u64 \<Rightarrow> u64 \<Rightarrow> inode" where
  "root_inode m a = (set_mode DIR_MODE (set_atime a (set_mtime m
     (zero_inode\<lparr>ivalid := 1, itype := S_IFDIR, link := 2, direct_ptr := 67 # replicate 15 0\<rparr>))))
     \<lparr>isize := of_nat (2 * DIRENT_SIZE)\<rparr>"

lemma root_inode_fields [simp]:
  "ino (root_inode m a) = 0" "ivalid (root_inode m a) = 1" "itype (root_inode m a) = S_IFDIR"
  "link (root_inode m a) = 2" "isize (root_inode m a) = 428" "direct_ptr (root_inode m a) = 67 # replicate 15 0"
  "inode_shape (root_inode m a)"
  by (simp_all add: root_inode_def zero_inode_def inode_shape_def set_mode_def set_atime_def set_mtime_def fs_consts)

lemma dec_zero_inode: "dec_inode (replicate INODE_SIZE 0) = zero_inode"
  by (simp add: dec_inode_def zero_inode_def u16_at_def u32_at_def chunk_def le_dec_zeros fs_consts map_replicate_const)

lemma inode_of_zeros: "i < 1024 \<Longrightarrow> blk s (3 + i div 16) = zeros \<Longrightarrow> inode_of s i = zero_inode"
proof -
  assume "blk s (3 + i div 16) = zeros"
  moreover have "chunk (i mod 16 * INODE_SIZE) INODE_SIZE zeros = replicate INODE_SIZE 0"
    by (simp add: chunk_def fs_consts)
  ultimately show ?thesis by (simp add: inode_of_blk dec_zero_inode)
qed

lemma bit_set_zeros: "j < 8 * BLOCK_SIZE \<Longrightarrow> bit_at (set_bitmap zeros 0) j \<longleftrightarrow> j = 0"
proof -
  assume j: "j < 8 * BLOCK_SIZE"
  have "bit_at (set_bitmap zeros 0) j \<longleftrightarrow> j = 0 \<or> bit_at zeros j" using j by (simp add: bit_at_set)
  moreover have "\<not> bit_at zeros j" using j by (simp add: bit_at_def)
  ultimately show ?thesis by simp
qed

lemma set_nth_0: "(replicate 16 x)[0 := y] = y # replicate 15 x"
  by (simp add: replicate_16)

lemma mkfs_root_run:
  assumes ok: "disk_ok s"
  obtains s' where "mkfs_root m a s = s'" "disk_ok s'"
    "view s' = (view s)\<lparr>data := (data (view s))(67 := put_dots 0 0 zeros), inodes := (inodes (view s))(0 := root_inode m a)\<rparr>"
    "blk s' 0 = blk s 0"
proof -
  have db: "data_blk (unat (67 :: u32))" by (simp add: data_blk_def)
  obtain s1 where s1: "bio_write 67 (put_dots 0 0 (bio_read (init_dir_block_empty 67 s) 67)) (init_dir_block_empty 67 s) = s1"
    "disk_ok s1" "view s1 = (view s)\<lparr>data := (data (view s))(unat (67 :: u32) := put_dots 0 0 zeros)\<rparr>"
    "\<forall>c<2 ^ 19. c \<noteq> unat (67 :: u32) \<longrightarrow> blk s1 c = blk s c"
    by (rule fresh_dir_block [OF ok db])
  have root: "(set_mode DIR_MODE (set_atime a (set_mtime m (zero_inode\<lparr>ino := 0, ivalid := 1, itype := S_IFDIR,
        link := 2, isize := 0, direct_ptr := 67 # replicate 15 0\<rparr>))))\<lparr>isize := of_nat (2 * DIRENT_SIZE)\<rparr> = root_inode m a"
    by (simp add: root_inode_def zero_inode_def set_mode_def set_atime_def set_mtime_def)
  have d16: "direct_ptr zero_inode = replicate 16 0" by (simp add: zero_inode_def)
  have "mkfs_root m a s = snd (writei 0 (root_inode m a) s1)"
    using ok root s1(1) by (simp add: mkfs_root_def disk_ok_def formatted_fields Let_def d16 set_nth_0)
  moreover obtain s2 where s2: "writei (of_nat 0) (root_inode m a) s1 = (0, s2)" "disk_ok s2"
    "\<And>j. j < 1024 \<Longrightarrow> inode_of s2 j = (if j = 0 then root_inode m a else inode_of s1 j)"
    "\<And>b. b < 2 ^ 19 \<Longrightarrow> b < 3 \<or> 67 \<le> b \<Longrightarrow> blk s2 b = blk s1 b"
    using writei_ok [OF s1(2), of 0 "root_inode m a"] by (metis root_inode_fields(7) zero_less_numeral)
  moreover have "view s2 = (view s1)\<lparr>inodes := (inodes (view s1))(0 := root_inode m a)\<rparr>"
    using view_writei [OF s1(2), of 0 "root_inode m a"] s2(1) by auto
  moreover have "blk s2 0 = blk s 0"
    using s1(4) s2(4) [of 0] by simp
  ultimately show ?thesis using s1(3) by (intro that [of s2]) simp_all
qed

section \<open>Formatting and mounting\<close>

text \<open>The abstract state of a disk just formatted.\<close>

definition formatted :: "u64 \<Rightarrow> u64 \<Rightarrow> store \<Rightarrow> bool" where
  "formatted m a v \<longleftrightarrow> super v = formatted_sb \<and> inodes v = (\<lambda>_. zero_inode)(0 := root_inode m a) \<and> iused v = {0} \<and> bused v = {67} \<and>
     dmap v 0 = [[DOT] \<mapsto> 0, [DOT, DOT] \<mapsto> 0] \<and> entry_names v 0 = [[DOT], [DOT, DOT]]"

lemma owned_zero: "owned zero_inode = {}"
  by (auto simp: owned_def zero_inode_def)

lemma owned_root: "owned (root_inode m a) = {67}"
  by (auto simp: owned_def intro!: exI [of _ 67])

lemma formatted_inv:
  assumes f: "formatted m a v" and d: "data v 67 = put_dots 0 0 zeros"
    and len: "\<And>b. data_blk b \<Longrightarrow> length (data v b) = BLOCK_SIZE"
  shows "store_inv v"
proof -
  have n: "inodes v = (\<lambda>_. zero_inode)(0 := root_inode m a)" "iused v = {0}" "bused v = {67}"
    using f by (simp_all add: formatted_def)
  have z: "ivalid zero_inode = 0" by (simp add: zero_inode_def)
  have alive: "alive v i \<longleftrightarrow> i = 0" for i by (simp add: alive_def n(1) z)
  have "core v" unfolding core_def
  proof (intro conjI allI impI)
    show "super v = formatted_sb" using f by (simp add: formatted_def)
    show "inode_ok v i" for i
      by (cases "i = 0") (simp_all add: inode_ok_def alive n owned_root ptrs_distinct_def)
    show "bused v \<subseteq> {b. data_blk b}" by (simp add: n(3) data_blk_def)
  qed (simp_all add: len alive)
  moreover have "dirs {i. alive v i} v"
    using dots_ents [of 0 "{0}" 0] by (auto simp: dirs_def alive n(1) owned_root d)
  ultimately show ?thesis by (simp add: store_inv_def alive n(1) is_dir_def)
qed

text \<open>A device whose file is open, or can be opened.\<close>

definition openable :: "int \<Rightarrow> fs \<Rightarrow> bool" where
  "openable fd s \<longleftrightarrow> (\<forall>b. length (disk s b) = BLOCK_SIZE) \<and> (if 0 \<le> diskfile s then fd_open s else 0 \<le> fd)"

lemma dev_opens:
  assumes "openable fd s"
  obtains s' where "dev_init fd s = Some s'" "snd (dev_open fd s') = s'" "dev_ok s'"
  using assms
  by (cases "0 \<le> diskfile s") (auto simp: openable_def dev_init_def dev_open_def dev_ok_def Let_def)

lemma mkfs_formats:
  assumes op: "openable fd s"
  obtains s' where "rufs_mkfs fd m a s = Some (0, s')" "fs_inv s'" "formatted m a (view s')"
proof -
  obtain s1 where s1: "dev_init fd s = Some s1" "snd (dev_open fd s1) = s1" "dev_ok s1" by (rule dev_opens [OF op])
  let ?s2 = "s1\<lparr>sb := mkfs_sb\<rparr>"
  have ok2: "disk_ok ?s2" using s1(3) by (simp add: disk_ok_def dev_ok_def mkfs_sb_formatted)
  obtain s3 where s3: "mkfs_tables ?s2 = s3" "disk_ok s3" "blk s3 0 = splice_at zeros 0 (enc_superblock formatted_sb)"
    "blk s3 1 = set_bitmap zeros 0" "blk s3 2 = set_bitmap zeros 0" "\<forall>c. 3 \<le> c \<and> c < 67 \<longrightarrow> blk s3 c = zeros"
    by (rule mkfs_tables_blk [OF ok2])
  obtain s4 where s4: "mkfs_root m a s3 = s4" "disk_ok s4" "view s4 = (view s3)\<lparr>data := (data (view s3))(67 := put_dots 0 0 zeros),
      inodes := (inodes (view s3))(0 := root_inode m a)\<rparr>" "blk s4 0 = blk s3 0"
    by (rule mkfs_root_run [OF s3(2)])
  have run: "rufs_mkfs fd m a s = Some (0, s4)"
    using s1(1,2) s3(1) s4(1) by (cases "dev_open fd s1") (simp add: rufs_mkfs_def)
  have "inodes (view s3) = (\<lambda>_. zero_inode)"
    using s3(6) inode_of_zeros by (auto simp: view_def fun_eq_iff)
  moreover have "iused (view s3) = {0}"
    using s3(4) bit_set_zeros by (auto simp: view_def ino_used_def fs_consts)
  moreover have "bused (view s3) = {67}"
    using s3(5) bit_set_zeros by (auto simp: view_def blk_used_def data_blk_def fs_consts)
  moreover have d67: "data (view s4) 67 = put_dots 0 0 zeros" by (simp add: s4(3))
  moreover have "inodes (view s4) 0 = root_inode m a" by (simp add: s4(3))
  then have "dmap (view s4) 0 = [[DOT] \<mapsto> 0, [DOT, DOT] \<mapsto> 0]"
    using dots_lookup [of 67 "rd (view s4)" 0 0 _ 15] d67 by (auto simp: dmap_rd rd_def fun_eq_iff)
  moreover have "entry_names (view s4) 0 = [[DOT], [DOT, DOT]]"
    using \<open>inodes (view s4) 0 = root_inode m a\<close> d67 by (intro entry_names_dots [of _ 0 67 15]) simp_all
  moreover have "super (view s4) = formatted_sb"
    using s4(4) s3(3) by (simp add: view_def splice_at_def dec_enc_superblock_rest)
  ultimately have f: "formatted m a (view s4)" by (simp add: formatted_def s4(3))
  have "store_inv (view s4)" by (rule formatted_inv [OF f d67 view_data_len [OF s4(2)]])
  then have "fs_inv s4" using s4(2) by (simp add: fs_inv_def)
  then show ?thesis using run f by (intro that)
qed

end
