(* ===== verification/FsFile.thy ===== *)
theory FsFile
  imports FsTree
begin

text \<open>
  File contents. A file is the function from positions to bytes its block pointers give, zeros
  where it has no block; the loops of \<open>rufs_write\<close> and \<open>rufs_read\<close> update and read that function.
\<close>

section \<open>The bytes of a file\<close>

definition fbyte :: "store \<Rightarrow> inode \<Rightarrow> nat \<Rightarrow> u8" where
  "fbyte v n p =
     (let b = direct_ptr n ! (p div BLOCK_SIZE)
      in if b = 0 then 0 else data v (unat b) ! (p mod BLOCK_SIZE))"

text \<open>The inode table with \<open>m\<close> as inode \<open>i\<close>: what it will be once \<open>m\<close> is written back.\<close>

abbreviation with_inode :: "store \<Rightarrow> nat \<Rightarrow> inode \<Rightarrow> store" where
  "with_inode v i m \<equiv> v\<lparr>inodes := (inodes v)(i := m)\<rparr>"

lemma with_inode_id: "with_inode v i (inodes v i) = v"
  by simp

lemma distinct_ptrs:
  assumes "ptrs_distinct n" "p < length (direct_ptr n)" "q < length (direct_ptr n)" "p \<noteq> q" "direct_ptr n ! p \<noteq> 0"
  shows "direct_ptr n ! q \<noteq> direct_ptr n ! p"
proof -
  have "distinct (filter (\<lambda>b. b \<noteq> 0) xs) \<Longrightarrow> p < length xs \<Longrightarrow> q < length xs \<Longrightarrow> p < q \<Longrightarrow> xs ! p \<noteq> 0 \<Longrightarrow>
      xs ! q \<noteq> xs ! p" for xs :: "u32 list" and p q
  proof -
    assume d: "distinct (filter (\<lambda>b. b \<noteq> 0) xs)" and pq: "p < length xs" "q < length xs" "p < q" "xs ! p \<noteq> 0"
    have "xs = take (Suc p) xs @ drop (Suc p) xs" by simp
    then have "distinct (filter (\<lambda>b. b \<noteq> 0) (take (Suc p) xs) @ filter (\<lambda>b. b \<noteq> 0) (drop (Suc p) xs))"
      using d by (metis filter_append)
    moreover have "xs ! p \<in> set (take (Suc p) xs)" using pq by (simp add: take_Suc_conv_app_nth)
    moreover have "xs ! q \<in> set (drop (Suc p) xs)"
      using pq nth_mem [of "q - Suc p" "drop (Suc p) xs"] by simp
    ultimately show "xs ! q \<noteq> xs ! p" using pq(4) by auto
  qed
  then show ?thesis using assms unfolding ptrs_distinct_def by (metis nat_neq_iff)
qed

section \<open>States that differ in one file\<close>

text \<open>
  The table on the disk is unchanged, and so are the blocks in use that are not those of inode \<open>i\<close>.
\<close>

definition touched :: "store \<Rightarrow> nat \<Rightarrow> store \<Rightarrow> bool" where
  "touched v i v' \<longleftrightarrow> inodes v' = inodes v \<and> iused v' = iused v \<and> bused v \<subseteq> bused v' \<and>
     card (bused v' - bused v) \<le> 16 \<and> core v' \<and>
     (\<forall>b \<in> bused v. b \<notin> owned (inodes v i) \<longrightarrow> data v' b = data v b)"

lemma touched_dmap:
  assumes "core v" "touched v i v'" "alive v i" "alive v j" "j \<noteq> i"
  shows "dmap v' j = dmap v j"
proof (rule dmap_cong)
  show "direct_ptr (inodes v' j) = direct_ptr (inodes v j)" using assms(2) by (simp add: touched_def)
  show "\<forall>b \<in> owned (inodes v j). data v' b = data v b"
    using assms(2) coreD(4) [OF assms(1,4)] coreD(8) [OF assms(1,4,3,5)] by (auto simp: touched_def)
qed

lemma touched_inv:
  assumes inv: "store_inv v" and t: "touched v i v'" and i: "alive v i" "\<not> is_dir (inodes v i)"
  shows "store_inv v'"
proof -
  have c: "core v" "dirs {j. alive v j} v" using inv by (simp_all add: store_inv_def)
  have e: "inodes v' = inodes v" "core v'" using t by (simp_all add: touched_def)
  then have al: "alive v' = alive v" by (auto simp: alive_def fun_eq_iff)
  have "dirs {j. alive v' j} v'"
    unfolding dirs_def al
  proof (intro allI impI ballI)
    fix j b assume j: "alive v j \<and> is_dir (inodes v' j)" and b: "b \<in> owned (inodes v' j)"
    then have "j \<noteq> i" using i(2) e(1) by auto
    then have "data v' b = data v b"
      using t j b e(1) coreD(4) [OF c(1), of j] coreD(8) [OF c(1), of j i b] i(1) by (auto simp: touched_def)
    then show "block_ents {j. alive v j} (data v' b)" using dirsD [OF c(2), of j b] j b e(1) by simp
  qed
  then show ?thesis using inv e al by (simp add: store_inv_def)
qed

section \<open>One round of the write loop\<close>

text \<open>
  What the rounds keep: the inode \<open>m\<close> in memory is inode \<open>i\<close> with possibly more blocks, and the
  table with it in place would be consistent.
\<close>

definition writing :: "store \<Rightarrow> nat \<Rightarrow> inode \<Rightarrow> fs \<Rightarrow> bool" where
  "writing v i m s \<longleftrightarrow> disk_ok s \<and> touched v i (view s) \<and> core (with_inode (view s) i m) \<and>
     (\<exists>ptrs. m = (inodes v i)\<lparr>direct_ptr := ptrs\<rparr>) \<and> owned m \<inter> bused v \<subseteq> owned (inodes v i) \<and>
     bused (view s) \<subseteq> bused v \<union> owned m"

lemma writing_start: "disk_ok s \<Longrightarrow> core (view s) \<Longrightarrow> writing (view s) i (inodes (view s) i) s"
  by (auto simp: writing_def touched_def intro!: exI [of _ "direct_ptr (inodes (view s) i)"])

lemma writing_ptr:
  assumes w: "writing v i m s" and a: "alive v i" and idx: "idx < 16" "direct_ptr m ! idx \<noteq> 0"
  shows "unat (direct_ptr m ! idx) \<in> owned m" "data_blk (unat (direct_ptr m ! idx))"
    "unat (direct_ptr m ! idx) \<in> bused (view s)"
proof -
  have c: "core (with_inode (view s) i m)" and al: "alive (with_inode (view s) i m) i"
    using w a by (auto simp: writing_def alive_def)
  have "inode_shape m" using coreD(1) [OF c, of i] by simp
  then have "direct_ptr m ! idx \<in> set (direct_ptr m)" using idx(1) by (simp add: inode_shape_def)
  then show o: "unat (direct_ptr m ! idx) \<in> owned m" using idx(2) by (rule owned_ptr)
  then show u: "unat (direct_ptr m ! idx) \<in> bused (view s)" using coreD(4) [OF c al] by auto
  then show "data_blk (unat (direct_ptr m ! idx))" using coreD(6) [OF c] by simp
qed

lemma card_owned:
  assumes "inode_shape n"
  shows "finite (owned n)" "card (owned n) \<le> 16"
proof -
  have o: "owned n = unat ` (set (direct_ptr n) - {0})" by (auto simp: owned_def)
  then show "finite (owned n)" by simp
  have "card (owned n) \<le> card (set (direct_ptr n) - {0})" unfolding o by (rule card_image_le) simp
  also have "\<dots> \<le> card (set (direct_ptr n))" by (intro card_mono) auto
  also have "\<dots> \<le> length (direct_ptr n)" by (rule card_length)
  finally show "card (owned n) \<le> 16" using assms by (simp add: inode_shape_def)
qed

text \<open>The positions of one round lie in one block.\<close>

lemma same_block:
  assumes "pos \<le> p" "p < pos + n" "pos mod BLOCK_SIZE + n \<le> BLOCK_SIZE"
  shows "p div BLOCK_SIZE = pos div BLOCK_SIZE"
proof (rule div_nat_eqI)
  show "BLOCK_SIZE * (pos div BLOCK_SIZE) \<le> p" using assms(1) by (metis div_times_less_eq_dividend le_trans mult.commute)
  show "p < BLOCK_SIZE * Suc (pos div BLOCK_SIZE)"
    using assms(2,3) mult_div_mod_eq [of BLOCK_SIZE pos] unfolding mult_Suc_right by linarith
qed

text \<open>The block of the round: there already, or a fresh one of zeros, or none left.\<close>

lemma file_block_cases:
  assumes w: "writing v i m s" and a: "alive v i" and idx: "idx < 16"
  obtains (full) "file_block m idx s = Some (None, s)" "bused (view s) = {b. data_blk b}"
  | (block) m' s' where "file_block m idx s = Some (Some m', s')" "writing v i m' s'" "direct_ptr m' ! idx \<noteq> 0"
      "\<forall>p < 16 * BLOCK_SIZE. fbyte (view s') m' p = fbyte (view s) m p"
      "\<forall>q < 16. direct_ptr m ! q \<noteq> 0 \<longrightarrow> direct_ptr m' ! q = direct_ptr m ! q"
proof (cases "direct_ptr m ! idx = 0")
  case False
  then show ?thesis using w by (intro block [of m s]) (simp_all add: file_block_def)
next
  case True
  have ok: "disk_ok s" and c: "core (view s)" "core (with_inode (view s) i m)"
    and t: "touched v i (view s)" and ow: "owned m \<inter> bused v \<subseteq> owned (inodes v i)"
    using w by (auto simp: writing_def touched_def)
  have al: "alive (with_inode (view s) i m) i" using w a by (auto simp: writing_def alive_def)
  have shape: "inode_shape m" using coreD(1) [OF c(2), of i] by simp
  show ?thesis
  proof (cases rule: view_get_avail_blkno [OF ok])
    case 1
    then show ?thesis using True by (intro full) (simp_all add: file_block_def)
  next
    case (2 n s1)
    define b where "b = (of_int (int n) :: u32)"
    let ?m = "m\<lparr>direct_ptr := (direct_ptr m)[idx := b]\<rparr>"
    let ?s = "zero_block b s1"
    note b = data_blk_word [OF 2(2), folded b_def]
    have db: "data_blk (unat b)" using b(1) 2(2) by simp
    note z = zero_block_view [OF 2(4) db]
    have v1: "view ?s = (view s)\<lparr>bused := insert n (bused (view s)), data := (data (view s))(n := zeros)\<rparr>"
      using z(3) 2(5) b(1) by simp
    have run: "file_block m idx s = Some (Some ?m, ?s)" using True 2(1) by (simp add: file_block_def b_def)
    have fresh: "unat b \<notin> bused (with_inode (view s) i m)" using 2(3) b(1) by simp
    have mi: "inodes (with_inode (view s) i m) i = m" by simp
    note give = core_give_block [OF c(2) al db fresh b(2) idx, unfolded mi, OF True, of ?m]
    have g: "core (with_inode (view s\<lparr>bused := insert n (bused (view s))\<rparr>) i ?m)" "owned ?m = insert n (owned m)"
      using give shape b(1) by (simp_all add: inode_shape_def)
    have zl: "length zeros = BLOCK_SIZE" by simp
    have cs: "core (view ?s)" unfolding v1 using core_data [OF core_use_blk [OF c(1) 2(2)] zl, of n] by simp
    have nv: "n \<notin> bused v" using 2(3) t by (auto simp: touched_def)
    have bu: "bused (view ?s) \<subseteq> bused v \<union> owned ?m" using w by (auto simp: writing_def v1 g(2))
    have "inode_shape ?m" using shape by (simp add: inode_shape_def)
    note co = card_owned [OF this]
    have "card (bused (view ?s) - bused v) \<le> card (owned ?m)" using bu by (intro card_mono co(1)) auto
    then have few: "card (bused (view ?s) - bused v) \<le> 16" using co(2) by simp
    have "writing v i ?m ?s"
      unfolding writing_def
    proof (intro conjI)
      show "disk_ok ?s" by (rule z(1))
      show "touched v i (view ?s)" unfolding touched_def
        using t cs nv few by (intro conjI) (auto simp: touched_def v1)
      show "core (with_inode (view ?s) i ?m)" using core_data [OF g(1) zl, of n] by (simp add: v1 store_commute)
      obtain ptrs where "m = (inodes v i)\<lparr>direct_ptr := ptrs\<rparr>" using w by (auto simp: writing_def)
      then show "\<exists>ptrs. ?m = (inodes v i)\<lparr>direct_ptr := ptrs\<rparr>" by auto
      show "owned ?m \<inter> bused v \<subseteq> owned (inodes v i)" using ow nv by (auto simp: g(2))
      show "bused (view ?s) \<subseteq> bused v \<union> owned ?m" by (rule bu)
    qed
    moreover have "direct_ptr ?m ! idx \<noteq> 0" using b(2) idx shape by (simp add: inode_shape_def)
    moreover have "\<forall>p < 16 * BLOCK_SIZE. fbyte (view ?s) ?m p = fbyte (view s) m p"
    proof (intro allI impI)
      fix p assume p: "p < 16 * BLOCK_SIZE"
      have q: "p div BLOCK_SIZE < 16" "p mod BLOCK_SIZE < BLOCK_SIZE" using p by (simp_all add: fs_consts)
      show "fbyte (view ?s) ?m p = fbyte (view s) m p"
      proof (cases "p div BLOCK_SIZE = idx")
        case here: True
        then show ?thesis using q b True shape by (simp add: fbyte_def v1 inode_shape_def Let_def)
      next
        case False
        let ?c = "direct_ptr m ! (p div BLOCK_SIZE)"
        have "?c \<noteq> 0 \<Longrightarrow> unat ?c \<in> bused (view s)" using writing_ptr(3) [OF w a q(1)] .
        then have "?c \<noteq> 0 \<Longrightarrow> unat ?c \<noteq> n" using 2(3) by blast
        then show ?thesis using False by (simp add: fbyte_def v1 Let_def)
      qed
    qed
    moreover have "\<forall>q < 16. direct_ptr m ! q \<noteq> 0 \<longrightarrow> direct_ptr ?m ! q = direct_ptr m ! q"
    proof (intro allI impI)
      fix q assume "direct_ptr m ! q \<noteq> 0"
      then show "direct_ptr ?m ! q = direct_ptr m ! q" using True by (cases "q = idx") simp_all
    qed
    ultimately show ?thesis using run by (intro block [of ?m ?s])
  qed
qed

text \<open>The bytes the round stores.\<close>

lemma block_store:
  assumes w: "writing v i m s" and a: "alive v i" and idx: "idx < 16" and b: "direct_ptr m ! idx \<noteq> 0"
    and x: "off + length x \<le> BLOCK_SIZE"
  obtains s' where "bio_write (direct_ptr m ! idx) (splice_at (bio_read s (direct_ptr m ! idx)) off x) s = s'"
    "writing v i m s'"
    "\<forall>p < 16 * BLOCK_SIZE. fbyte (view s') m p =
       (if idx * BLOCK_SIZE + off \<le> p \<and> p < idx * BLOCK_SIZE + off + length x
        then x ! (p - (idx * BLOCK_SIZE + off)) else fbyte (view s) m p)"
proof -
  let ?b = "direct_ptr m ! idx"
  let ?buf = "splice_at (bio_read s ?b) off x"
  note ptr = writing_ptr [OF w a idx b]
  have ok: "disk_ok s" and c: "core (view s)" "core (with_inode (view s) i m)" and t: "touched v i (view s)"
    using w by (auto simp: writing_def touched_def)
  have al: "alive (with_inode (view s) i m) i" using w a by (auto simp: writing_def alive_def)
  have shape: "inode_shape m" and dist: "ptrs_distinct m"
    using coreD(1) [OF c(2), of i] coreD(5) [OF c(2) al] by simp_all
  have old: "bio_read s ?b = data (view s) (unat ?b)" using ptr(2) by (rule view_read)
  have len: "length (data (view s) (unat ?b)) = BLOCK_SIZE" by (rule view_data_len [OF ok ptr(2)])
  then have blen: "length ?buf = BLOCK_SIZE" using x by (simp add: old)
  note wr = view_write [OF ok ptr(2) blen]
  have own: "unat ?b \<in> bused v \<Longrightarrow> unat ?b \<in> owned (inodes v i)" using w ptr(1) by (auto simp: writing_def)
  let ?s = "bio_write ?b ?buf s"
  have "writing v i m ?s"
    unfolding writing_def
  proof (intro conjI)
    show "touched v i (view ?s)" using t core_data [OF c(1) blen] own by (auto simp: touched_def wr(2))
    show "core (with_inode (view ?s) i m)" using core_data [OF c(2) blen] by (simp add: wr(2) store_commute)
    have "bused (view ?s) = bused (view s)" by (simp add: wr(2))
    then show "bused (view ?s) \<subseteq> bused v \<union> owned m" using w by (simp add: writing_def)
  qed (use w wr(1) in \<open>simp_all add: writing_def\<close>)
  moreover have "fbyte (view ?s) m p = (if idx * BLOCK_SIZE + off \<le> p \<and> p < idx * BLOCK_SIZE + off + length x
        then x ! (p - (idx * BLOCK_SIZE + off)) else fbyte (view s) m p)" if p: "p < 16 * BLOCK_SIZE" for p
  proof (cases "p div BLOCK_SIZE = idx")
    case True
    then have e: "p = idx * BLOCK_SIZE + p mod BLOCK_SIZE" by (metis div_mult_mod_eq)
    have m: "p mod BLOCK_SIZE < BLOCK_SIZE" by (simp add: fs_consts)
    have "fbyte (view ?s) m p = ?buf ! (p mod BLOCK_SIZE)" using True b by (simp add: fbyte_def wr(2))
    also have "\<dots> = (if off \<le> p mod BLOCK_SIZE \<and> p mod BLOCK_SIZE < off + length x then x ! (p mod BLOCK_SIZE - off)
        else data (view s) (unat ?b) ! (p mod BLOCK_SIZE))"
      using x len m by (simp add: old nth_splice_at)
    also have "\<dots> = (if idx * BLOCK_SIZE + off \<le> p \<and> p < idx * BLOCK_SIZE + off + length x
        then x ! (p - (idx * BLOCK_SIZE + off)) else fbyte (view s) m p)"
    proof -
      have "fbyte (view s) m p = data (view s) (unat ?b) ! (p mod BLOCK_SIZE)"
        using True b by (simp add: fbyte_def)
      moreover have "idx * BLOCK_SIZE + off \<le> p \<longleftrightarrow> off \<le> p mod BLOCK_SIZE"
        "p < idx * BLOCK_SIZE + off + length x \<longleftrightarrow> p mod BLOCK_SIZE < off + length x"
        "p - (idx * BLOCK_SIZE + off) = p mod BLOCK_SIZE - off" using e by linarith+
      ultimately show ?thesis by simp
    qed
    finally show ?thesis .
  next
    case False
    have q: "p div BLOCK_SIZE < 16" using p by (simp add: fs_consts)
    have "direct_ptr m ! (p div BLOCK_SIZE) \<noteq> ?b"
      using distinct_ptrs [OF dist _ _ _ b] False q idx shape by (simp add: inode_shape_def)
    then have "fbyte (view ?s) m p = fbyte (view s) m p"
      by (simp add: fbyte_def wr(2) Let_def word_unat_eq_iff)
    moreover have "\<not> (idx * BLOCK_SIZE + off \<le> p \<and> p < idx * BLOCK_SIZE + off + length x)"
    proof
      assume "idx * BLOCK_SIZE + off \<le> p \<and> p < idx * BLOCK_SIZE + off + length x"
      then have "idx * BLOCK_SIZE \<le> p" "p < Suc idx * BLOCK_SIZE" using x by simp_all
      then have "p div BLOCK_SIZE = idx" by (intro div_nat_eqI) (simp_all add: mult.commute)
      then show False using False by simp
    qed
    ultimately show ?thesis by auto
  qed
  ultimately show ?thesis by (intro that [of ?s]) simp_all
qed

section \<open>The write loop\<close>

text \<open>Positions below \<open>2^43\<close> are where the index of the block is not cut.\<close>

lemma position:
  assumes "unat offset + unat did < 2 ^ 43"
  shows "unat (offset + did) = unat offset + unat did"
    "file_blk_idx (offset + did) = int ((unat offset + unat did) div BLOCK_SIZE)"
proof -
  show u: "unat (offset + did) = unat offset + unat did" using assms by (intro unat_add_lem [THEN iffD1]) simp
  have "(unat offset + unat did) div BLOCK_SIZE < 2 ^ 31"
    using assms by (intro less_mult_imp_div_less) (simp add: fs_consts)
  then show "file_blk_idx (offset + did) = int ((unat offset + unat did) div BLOCK_SIZE)"
    unfolding file_blk_idx_def u by (rule sint_of_nat_u32)
qed

lemma sint_done: "unat (did :: u64) < 2 ^ 31 \<Longrightarrow> sint (ucast did :: u32) = int (unat did)"
proof -
  assume a: "unat did < 2 ^ 31"
  have "(ucast did :: u32) = of_nat (unat did)" by simp
  then show ?thesis using sint_of_nat_u32 [OF a] by metis
qed

text \<open>The next position after a round, and that it stays within the block.\<close>

lemma round_step:
  assumes lt: "did < (sz :: u64)" and fit: "unat offset + unat sz < 2 ^ 43"
  defines "n \<equiv> round_len (offset + did) (sz - did)"
  shows "unat (did + of_nat n) = unat did + n" "unat did + n \<le> unat sz" "blk_off (offset + did) + n \<le> BLOCK_SIZE"
    "0 < n" "blk_off (offset + did) = (unat offset + unat did) mod BLOCK_SIZE"
proof -
  have l: "unat (sz - did) = unat sz - unat did" "unat did < unat sz"
    using lt by (simp_all add: unat_sub word_le_nat_alt word_less_nat_alt)
  have ne: "sz - did \<noteq> 0" using lt by auto
  show n: "0 < n" unfolding n_def by (rule round_len_bounds(1) [OF ne])
  show le: "unat did + n \<le> unat sz" using round_len_bounds(2) [of "offset + did" "sz - did"] l by (simp add: n_def)
  have "n < 2 ^ 64" using le fit by simp
  then have u: "unat (of_nat n :: u64) = n" by (intro unat_of_nat_small) simp
  show "unat (did + of_nat n) = unat did + n" using le fit u unat_add_lem [of did "of_nat n"] by simp
  show "blk_off (offset + did) + n \<le> BLOCK_SIZE"
    using round_len_bounds(3) [of "offset + did" "sz - did"] round_len_bounds(4) [of "offset + did"]
    unfolding n_def by linarith
  show "blk_off (offset + did) = (unat offset + unat did) mod BLOCK_SIZE"
    using position(1) [of offset did] l fit by (simp add: blk_off_def)
qed

text \<open>The contents once \<open>k\<close> bytes of \<open>dat\<close> are stored from \<open>off\<close> on.\<close>

definition stored :: "store \<Rightarrow> nat \<Rightarrow> nat \<Rightarrow> u8 list \<Rightarrow> nat \<Rightarrow> inode \<Rightarrow> store \<Rightarrow> bool" where
  "stored v i off dat k m w \<longleftrightarrow> (\<forall>p < 16 * BLOCK_SIZE. fbyte w m p =
     (if off \<le> p \<and> p < off + k then dat ! (p - off) else fbyte v (inodes v i) p) \<and>
     (off \<le> p \<and> p < off + k \<longrightarrow> direct_ptr m ! (p div BLOCK_SIZE) \<noteq> 0) \<and>
     (direct_ptr (inodes v i) ! (p div BLOCK_SIZE) \<noteq> 0 \<longrightarrow>
        direct_ptr m ! (p div BLOCK_SIZE) = direct_ptr (inodes v i) ! (p div BLOCK_SIZE)))"

text \<open>The same, seen through the inode as it was: its blocks hold what was written to them.\<close>

definition partly :: "store \<Rightarrow> nat \<Rightarrow> nat \<Rightarrow> u8 list \<Rightarrow> int \<Rightarrow> store \<Rightarrow> bool" where
  "partly v i off dat r w \<longleftrightarrow> (\<forall>p < 16 * BLOCK_SIZE. direct_ptr (inodes v i) ! (p div BLOCK_SIZE) \<noteq> 0 \<longrightarrow>
     fbyte w (inodes v i) p = (if off \<le> p \<and> p < off + nat r then dat ! (p - off) else fbyte v (inodes v i) p))"

lemma stored_partly: "stored v i off dat (nat r) m w \<Longrightarrow> partly v i off dat r w"
  unfolding partly_def
proof (intro allI impI)
  fix p assume s: "stored v i off dat (nat r) m w" and p: "p < 16 * BLOCK_SIZE" "direct_ptr (inodes v i) ! (p div BLOCK_SIZE) \<noteq> 0"
  then have "fbyte w (inodes v i) p = fbyte w m p" by (simp add: stored_def fbyte_def)
  then show "fbyte w (inodes v i) p = (if off \<le> p \<and> p < off + nat r then dat ! (p - off) else fbyte v (inodes v i) p)"
    using s p(1) by (simp add: stored_def)
qed

text \<open>
  The result of a write that stops early: the bytes written up to the last block of the file or to
  the last free block of the disk, or why none was.
\<close>

definition cut_short :: "store \<Rightarrow> nat \<Rightarrow> nat \<Rightarrow> int \<Rightarrow> bool" where
  "cut_short v off len r \<longleftrightarrow>
     0 < r \<and> nat r < len \<and> (off + nat r = 16 * BLOCK_SIZE \<or> off + nat r \<le> 16 * BLOCK_SIZE \<and> bused v = {b. data_blk b}) \<or>
     r = -EFBIG \<and> 16 * BLOCK_SIZE \<le> off \<and> 0 < len \<or>
     r = -ENOSPC \<and> bused v = {b. data_blk b}"

lemma cut_short_int: "0 < k \<Longrightarrow> k < len \<Longrightarrow> off + k \<le> 16 * BLOCK_SIZE \<Longrightarrow>
    off + k = 16 * BLOCK_SIZE \<or> bused v = {b. data_blk b} \<Longrightarrow> cut_short v off len (int k)"
  by (auto simp: cut_short_def)

lemma cut_short_why: "cut_short v off len r \<Longrightarrow> 16 * BLOCK_SIZE < off + len \<or> bused v = {b. data_blk b}"
  by (auto simp: cut_short_def)

definition write_result ::
    "store \<Rightarrow> nat \<Rightarrow> u64 \<Rightarrow> u64 \<Rightarrow> u8 list \<Rightarrow> ((int \<times> fs) + (inode \<times> u64 \<times> fs)) option \<Rightarrow> bool" where
  "write_result v i offset sz dat res \<longleftrightarrow>
     (case res of
        None \<Rightarrow> False
      | Some (Inl (r, s)) \<Rightarrow> disk_ok s \<and> touched v i (view s) \<and>
          cut_short (view s) (unat offset) (unat sz) r \<and> partly v i (unat offset) dat r (view s)
      | Some (Inr (m, k, s)) \<Rightarrow> k = sz \<and> writing v i m s \<and> stored v i (unat offset) dat (unat sz) m (view s) \<and>
          (sz = 0 \<or> unat offset + unat sz \<le> 16 * BLOCK_SIZE))"

lemma write_loop_result:
  assumes a: "alive v i" and fit: "unat offset + unat sz < 2 ^ 43" and len: "unat sz \<le> length dat"
  shows "writing v i m s \<Longrightarrow> unat did \<le> unat sz \<Longrightarrow> stored v i (unat offset) dat (unat did) m (view s) \<Longrightarrow>
    did = 0 \<or> unat offset + unat did \<le> 16 * BLOCK_SIZE \<Longrightarrow>
    write_result v i offset sz dat (write_loop m offset sz dat did s)"
  using fit len
proof (induction m offset sz dat did s rule: write_loop.induct)
  case (1 m offset sz dat did s)
  show ?case
  proof (cases "did < sz")
    case False
    then have "did = sz" using 1(3) by (simp add: word_le_nat_alt [symmetric] not_less)
    then show ?thesis using 1(2,4,5) by (simp add: write_loop.simps [of m] write_result_def)
  next
    case lt: True
    let ?pos = "unat offset + unat did" and ?n = "round_len (offset + did) (sz - did)"
    let ?idx = "?pos div BLOCK_SIZE"
    have pf: "unat offset + unat did < 2 ^ 43" using lt 1(6) by (simp add: word_less_nat_alt)
    note pos = position [OF pf] and rs = round_step [OF lt 1(6)]
    have small: "unat did < 2 ^ 31 \<and> unat offset + unat did \<le> 16 * BLOCK_SIZE" if "0 < did"
      using that 1(5) by (auto simp: fs_consts)
    have stop: "write_result v i offset sz dat (Some (Inl (if 0 < did then sint (ucast did :: u32) else e, s)))"
      if e: "e = -EFBIG \<and> 16 * BLOCK_SIZE \<le> ?pos \<or> e = -ENOSPC \<and> bused (view s) = {b. data_blk b}" for e
    proof -
      let ?r = "if 0 < did then sint (ucast did :: u32) else e"
      have "cut_short (view s) (unat offset) (unat sz) ?r \<and> nat ?r = unat did"
      proof (cases "0 < did")
        case True
        then have d: "sint (ucast did :: u32) = int (unat did)" "0 < unat did" "unat did < unat sz"
          using small sint_done [of did] lt by (simp_all add: word_less_nat_alt)
        then have "cut_short (view s) (unat offset) (unat sz) (int (unat did))" using True e small by (intro cut_short_int) auto
        then show ?thesis using True by (simp only: d(1) if_True nat_int)
      next
        case False
        then have "unat did = 0" by (simp add: word_less_nat_alt)
        then show ?thesis using False e lt by (auto simp: cut_short_def word_less_nat_alt EFBIG_def ENOSPC_def)
      qed
      moreover from this have "partly v i (unat offset) dat ?r (view s)" using 1(4) by (intro stored_partly [of _ _ _ _ _ m]) (simp only:)
      ultimately show ?thesis using 1(2) by (simp add: write_result_def writing_def)
    qed
    show ?thesis
    proof (cases "?idx < 16")
      case False
      then have "write_loop m offset sz dat did s =
          Some (Inl (if 0 < did then sint (ucast did :: u32) else -EFBIG, s))"
        using lt by (simp add: write_loop.simps [of m] pos(2))
      moreover have "16 * BLOCK_SIZE \<le> ?pos"
        using False by (simp add: not_less fs_consts)
      ultimately show ?thesis using stop by simp
    next
      case idx: True
      show ?thesis
      proof (cases rule: file_block_cases [OF 1(2) a idx])
        case full: 1
        then have "write_loop m offset sz dat did s =
            Some (Inl (if 0 < did then sint (ucast did :: u32) else -ENOSPC, s))"
          using lt idx by (simp add: write_loop.simps [of m] pos(2))
        then show ?thesis using stop full(2) by simp
      next
        case blk: (2 m' s1)
        let ?x = "chunk (unat did) ?n dat"
        have xl: "length ?x = ?n" using rs(2) 1(7) by simp
        have fits: "blk_off (offset + did) + length ?x \<le> BLOCK_SIZE" using rs(3) xl by simp
        obtain s2 where s2: "bio_write (direct_ptr m' ! ?idx)
            (splice_at (bio_read s1 (direct_ptr m' ! ?idx)) (blk_off (offset + did)) ?x) s1 = s2"
          "writing v i m' s2" "\<forall>p < 16 * BLOCK_SIZE. fbyte (view s2) m' p =
            (if ?idx * BLOCK_SIZE + blk_off (offset + did) \<le> p \<and> p < ?idx * BLOCK_SIZE + blk_off (offset + did) + length ?x
             then ?x ! (p - (?idx * BLOCK_SIZE + blk_off (offset + did))) else fbyte (view s1) m' p)"
          by (rule block_store [OF blk(2) a idx blk(3) fits])
        have run: "write_loop m offset sz dat did s = write_loop m' offset sz dat (did + of_nat ?n) s2"
          using lt idx blk(1) s2(1) rs(2) 1(7)
          by (simp add: write_loop.simps [of m] pos(2) Let_def)
        have at: "?idx * BLOCK_SIZE + blk_off (offset + did) = ?pos" by (simp add: rs(5))
        have st: "stored v i (unat offset) dat (unat (did + of_nat ?n)) m' (view s2)"
          unfolding stored_def
        proof (intro allI impI)
          fix p assume p: "p < 16 * BLOCK_SIZE"
          have old: "fbyte (view s1) m' p = (if unat offset \<le> p \<and> p < ?pos then dat ! (p - unat offset)
              else fbyte v (inodes v i) p)"
            using blk(4) 1(4) p by (simp add: stored_def)
          have q: "p div BLOCK_SIZE < 16" using p by (simp add: fs_consts)
          have new: "?x ! (p - ?pos) = dat ! (p - unat offset)" if "?pos \<le> p" "p < ?pos + ?n"
            using that rs(2) 1(7) by (simp add: chunk_def)
          have here: "p div BLOCK_SIZE = ?idx" if "?pos \<le> p" "p < ?pos + ?n"
            by (rule same_block [OF that rs(3) [unfolded rs(5)]])
          have ptr: "direct_ptr m' ! (p div BLOCK_SIZE) \<noteq> 0" if "unat offset \<le> p" "p < ?pos + ?n"
          proof (cases "?pos \<le> p")
            case True
            then show ?thesis using here that(2) blk(3) by simp
          next
            case False
            then have "direct_ptr m ! (p div BLOCK_SIZE) \<noteq> 0" using 1(4) p that(1) by (simp add: stored_def)
            then show ?thesis using blk(5) q by simp
          qed
          have "fbyte (view s2) m' p = (if unat offset \<le> p \<and> p < unat offset + unat (did + of_nat ?n)
              then dat ! (p - unat offset) else fbyte v (inodes v i) p)"
            using s2(3) p old new xl unfolding at rs(1) by auto
          moreover have "direct_ptr m' ! (p div BLOCK_SIZE) = direct_ptr (inodes v i) ! (p div BLOCK_SIZE)"
            if "direct_ptr (inodes v i) ! (p div BLOCK_SIZE) \<noteq> 0"
          proof -
            have "direct_ptr m ! (p div BLOCK_SIZE) = direct_ptr (inodes v i) ! (p div BLOCK_SIZE)"
              using 1(4) p that by (simp add: stored_def)
            then show ?thesis using blk(5) q that by simp
          qed
          ultimately show "fbyte (view s2) m' p = (if unat offset \<le> p \<and> p < unat offset + unat (did + of_nat ?n)
              then dat ! (p - unat offset) else fbyte v (inodes v i) p) \<and>
            (unat offset \<le> p \<and> p < unat offset + unat (did + of_nat ?n) \<longrightarrow> direct_ptr m' ! (p div BLOCK_SIZE) \<noteq> 0) \<and>
            (direct_ptr (inodes v i) ! (p div BLOCK_SIZE) \<noteq> 0 \<longrightarrow>
              direct_ptr m' ! (p div BLOCK_SIZE) = direct_ptr (inodes v i) ! (p div BLOCK_SIZE))"
            using ptr by (simp add: rs(1))
        qed
        have lim: "unat offset + unat (did + of_nat ?n) \<le> 16 * BLOCK_SIZE"
        proof -
          have "?pos + ?n \<le> Suc ?idx * BLOCK_SIZE" using rs(3) at by simp
          also have "\<dots> \<le> 16 * BLOCK_SIZE" using idx by (intro mult_le_mono1) simp
          finally show ?thesis by (simp add: rs(1))
        qed
        have ens: "ensure (0 \<le> file_blk_idx (offset + did)) = Some ()" "ensure (unat did + ?n \<le> length dat) = Some ()"
          using pos(2) rs(2) 1(7) by simp_all
        have ni: "\<not> 16 \<le> file_blk_idx (offset + did)" "nat (file_blk_idx (offset + did)) = ?idx"
          using idx by (simp_all add: pos(2))
        have fb: "file_block m (nat (file_blk_idx (offset + did))) s = Some (Some m', s1)"
          using blk(1) by (simp only: ni(2))
        have sx: "s2 = bio_write (direct_ptr m' ! nat (file_blk_idx (offset + did)))
            (splice_at (bio_read s1 (direct_ptr m' ! nat (file_blk_idx (offset + did)))) (blk_off (offset + did)) ?x) s1"
          using s2(1) by (simp only: ni(2))
        show ?thesis
          unfolding run
          using "1.IH" [OF lt refl ni(1) ens(1) fb refl refl refl refl refl ens(2) refl sx s2(2) _ st _ 1(6,7)]
            rs(1,2) lim by simp
      qed
    qed
  qed
qed

end
