(* ===== verification/FsReadWrite.thy ===== *)
theory FsReadWrite
  imports FsFile
begin

text \<open>
  \<open>rufs_write\<close> and \<open>rufs_read\<close> as updates and reads of the bytes of a file, and what becomes of a
  path when a file it does not pass through changes.
\<close>

section \<open>rufs_write\<close>

text \<open>Inode \<open>i\<close> replaced by \<open>n\<close> after its blocks were written.\<close>

lemma finish_file:
  assumes inv: "store_inv v" and a: "alive v i" and f: "\<not> is_dir (inodes v i)"
    and w: "writing v i m s" and n: "inode_shape n" "direct_ptr n = direct_ptr m" "ino n = ino m"
      "ivalid n = ivalid m" "itype n = itype m"
  obtains s' where "writei (ino n) n s = (0, s')" "fs_inv s'" "view s' = with_inode (view s) i n"
proof -
  have c: "core v" using inv by (simp add: store_inv_def)
  have ok: "disk_ok s" and t: "touched v i (view s)" and cm: "core (with_inode (view s) i m)"
    using w by (auto simp: writing_def)
  obtain ptrs where m: "m = (inodes v i)\<lparr>direct_ptr := ptrs\<rparr>" using w by (auto simp: writing_def)
  have inv': "store_inv (view s)" by (rule touched_inv [OF inv t a f])
  then have d: "dirs {j. alive (view s) j} (view s)" "alive (view s) 0" "is_dir (inodes (view s) 0)"
    by (simp_all add: store_inv_def)
  have al: "alive (view s) i" "inodes (view s) = inodes v" using t a by (auto simp: touched_def alive_def)
  then have i0: "i \<noteq> 0" using d(3) f by metis
  have ui: "unat (ino n) = i" "i < 1024" using coreD(3) [OF c a] a n(3) m by (simp_all add: alive_def)
  obtain s' where s': "writei (ino n) n s = (0, s')" "disk_ok s'" "view s' = with_inode (view s) i n"
    using view_writei [OF ok _ n(1), of "ino n"] ui by auto
  have am: "alive (with_inode (view s) i m) i" using a m by (simp add: alive_def)
  have "core (with_inode (with_inode (view s) i m) i n)"
    using n by (intro core_touch [OF cm am]) simp_all
  then have "core (view s')" by (simp add: s'(3))
  moreover have "{j. alive (view s') j} = {j. alive (view s) j}"
    using al n(4) m by (auto simp: s'(3) alive_def)
  moreover have "dirs {j. alive (view s) j} (view s')"
    unfolding s'(3) using f n(5) m by (intro dirs_set_inode [OF d(1)]) (simp add: is_dir_def)
  ultimately have "store_inv (view s')" using d i0 by (auto simp: store_inv_def s'(3) alive_def)
  then show ?thesis using s' by (intro that) (simp_all add: fs_inv_def)
qed

text \<open>A file after a complete write: its bytes, its size, and everything else as it was.\<close>

definition file_written :: "store \<Rightarrow> nat \<Rightarrow> u64 \<Rightarrow> u64 \<Rightarrow> u8 list \<Rightarrow> store \<Rightarrow> bool" where
  "file_written v i offset sz dat v' \<longleftrightarrow>
     (\<exists>n. inodes v' = (inodes v)(i := n) \<and> itype n = itype (inodes v i) \<and> link n = link (inodes v i) \<and>
        ivalid n = ivalid (inodes v i) \<and>
        isize n = (if isize (inodes v i) < ucast (offset + sz) then ucast (offset + sz) else isize (inodes v i))) \<and>
     iused v' = iused v \<and> bused v \<subseteq> bused v' \<and>
     (\<forall>b \<in> bused v. b \<notin> owned (inodes v i) \<longrightarrow> data v' b = data v b) \<and>
     (\<forall>p < 16 * BLOCK_SIZE. fbyte v' (inodes v' i) p =
        (if unat offset \<le> p \<and> p < unat offset + unat sz then dat ! (p - unat offset) else fbyte v (inodes v i) p)) \<and>
     (\<forall>p < 16 * BLOCK_SIZE. unat offset \<le> p \<and> p < unat offset + unat sz \<longrightarrow>
        direct_ptr (inodes v' i) ! (p div BLOCK_SIZE) \<noteq> 0) \<and>
     (\<forall>p < 16 * BLOCK_SIZE. direct_ptr (inodes v i) ! (p div BLOCK_SIZE) \<noteq> 0 \<longrightarrow>
        direct_ptr (inodes v' i) ! (p div BLOCK_SIZE) = direct_ptr (inodes v i) ! (p div BLOCK_SIZE)) \<and>
     (sz = 0 \<or> unat offset + unat sz \<le> 16 * BLOCK_SIZE)"

lemma fbyte_data: "direct_ptr n = direct_ptr m \<Longrightarrow> fbyte v n p = fbyte v m p"
  by (simp add: fbyte_def)

lemma fbyte_with_inode [simp]: "fbyte (v\<lparr>inodes := f\<rparr>) m p = fbyte v m p"
  by (simp add: fbyte_def Let_def)

lemma fbyte_kept:
  assumes c: "core v" and j: "alive v j" and i: "alive v i" "j \<noteq> i" and q: "q < 16 * BLOCK_SIZE"
    and same: "\<forall>b \<in> bused v. b \<notin> owned (inodes v i) \<longrightarrow> data w b = data v b"
  shows "fbyte w (inodes v j) q = fbyte v (inodes v j) q"
proof -
  let ?b = "direct_ptr (inodes v j) ! (q div BLOCK_SIZE)"
  have "?b \<in> set (direct_ptr (inodes v j))"
    using coreD(1) [OF c, of j] q by (simp add: inode_shape_def fs_consts)
  then have "?b \<noteq> 0 \<Longrightarrow> unat ?b \<in> owned (inodes v j)" by (rule owned_ptr)
  then have "?b \<noteq> 0 \<Longrightarrow> data w (unat ?b) = data v (unat ?b)"
    using same coreD(4) [OF c j] coreD(8) [OF c j i(1,2)] by blast
  then show ?thesis by (simp add: fbyte_def Let_def)
qed

lemma write_cases:
  assumes inv: "fs_inv s" and n: "node_at s path = Some (Some (inodes (view s) i))" "alive (view s) i"
      "itype (inodes (view s) i) = S_IFREG"
    and fit: "unat offset + unat sz < 2 ^ 43" and len: "unat sz \<le> length dat"
  obtains (short) r s' where "rufs_write mt at path dat sz offset s = Some (r, s')" "fs_inv s'" "touched (view s) i (view s')"
      "cut_short (view s') (unat offset) (unat sz) r" "partly (view s) i (unat offset) dat r (view s')"
  | (all) s' where "rufs_write mt at path dat sz offset s = Some (sint (ucast sz :: u32), s')" "fs_inv s'"
      "file_written (view s) i offset sz dat (view s')"
proof -
  let ?v = "view s" and ?n = "inodes (view s) i"
  have ok: "disk_ok s" and st: "store_inv ?v" and c: "core ?v" using inv by (simp_all add: fs_inv_def store_inv_def)
  have nd: "\<not> is_dir ?n" using n(3) IFREG_not_dir by (simp add: is_dir_def)
  have res: "write_result ?v i offset sz dat (write_loop ?n offset sz dat 0 s)"
    using writing_start [OF ok c, of i]
    by (intro write_loop_result [OF n(2) fit len]) (auto simp: stored_def)
  then obtain x where x: "write_loop ?n offset sz dat 0 s = Some x" by (auto simp: write_result_def split: option.splits)
  show ?thesis
  proof (cases x)
    case (Inl rs)
    obtain r s' where rs: "rs = (r, s')" by (cases rs)
    have l: "disk_ok s'" "touched ?v i (view s')"
        "cut_short (view s') (unat offset) (unat sz) r" "partly ?v i (unat offset) dat r (view s')"
      using res x Inl rs by (simp_all add: write_result_def)
    have "rufs_write mt at path dat sz offset s = Some (r, s')" using n x Inl rs by (simp add: rufs_write_def)
    moreover have "fs_inv s'" using l(1) touched_inv [OF st l(2) n(2) nd] by (simp add: fs_inv_def)
    ultimately show ?thesis using l by (intro short)
  next
    case (Inr mks)
    obtain m k s2 where mks: "mks = (m, k, s2)" by (cases mks)
    have w: "k = sz" "writing ?v i m s2" "stored ?v i (unat offset) dat (unat sz) m (view s2)"
        "sz = 0 \<or> unat offset + unat sz \<le> 16 * BLOCK_SIZE"
      using res x Inr mks by (simp_all add: write_result_def)
    let ?e = "ucast (offset + sz) :: u32"
    let ?m = "if isize m < ?e then m\<lparr>isize := ?e\<rparr> else m"
    let ?m' = "set_atime at (set_mtime mt ?m)"
    obtain ptrs where m: "m = ?n\<lparr>direct_ptr := ptrs\<rparr>" using w(2) by (auto simp: writing_def)
    have cm: "core (with_inode (view s2) i m)" using w(2) by (simp add: writing_def)
    have sm: "inode_shape m" using coreD(1) [OF cm, of i] by simp
    then have "inode_shape ?m" by (simp add: inode_shape_def)
    then have sh: "inode_shape ?m'" by (intro set_time_shape)
    obtain s' where s': "writei (ino ?m') ?m' s2 = (0, s')" "fs_inv s'" "view s' = with_inode (view s2) i ?m'"
      by (rule finish_file [OF st n(2) nd w(2) sh]) (simp_all only: set_time_fields split: if_splits, simp_all)
    have "rufs_write mt at path dat sz offset s = Some (sint (ucast sz :: u32), s')"
      using n x Inr mks w(1) s'(1) by (simp add: rufs_write_def Let_def)
    moreover have "file_written ?v i offset sz dat (view s')"
      unfolding file_written_def
    proof (intro conjI)
      have t: "touched ?v i (view s2)" using w(2) by (simp add: writing_def)
      show "iused (view s') = iused ?v" "bused ?v \<subseteq> bused (view s')"
        "\<forall>b \<in> bused ?v. b \<notin> owned ?n \<longrightarrow> data (view s') b = data ?v b"
        using t by (simp_all add: s'(3) touched_def)
      show "\<exists>n. inodes (view s') = (inodes ?v)(i := n) \<and> itype n = itype ?n \<and> link n = link ?n \<and> ivalid n = ivalid ?n \<and>
          isize n = (if isize ?n < ?e then ?e else isize ?n)"
        using t by (intro exI [of _ ?m']) (simp add: s'(3) touched_def m)
      show "\<forall>p<16 * BLOCK_SIZE. fbyte (view s') (inodes (view s') i) p =
          (if unat offset \<le> p \<and> p < unat offset + unat sz then dat ! (p - unat offset) else fbyte ?v ?n p)"
        using w(3) fbyte_data [of ?m' m "view s2"] by (simp add: s'(3) stored_def)
      show "\<forall>p<16 * BLOCK_SIZE. unat offset \<le> p \<and> p < unat offset + unat sz \<longrightarrow>
          direct_ptr (inodes (view s') i) ! (p div BLOCK_SIZE) \<noteq> 0"
        "\<forall>p<16 * BLOCK_SIZE. direct_ptr ?n ! (p div BLOCK_SIZE) \<noteq> 0 \<longrightarrow>
          direct_ptr (inodes (view s') i) ! (p div BLOCK_SIZE) = direct_ptr ?n ! (p div BLOCK_SIZE)"
        using w(3) by (simp_all add: s'(3) stored_def)
    qed (rule w(4))
    ultimately show ?thesis using s'(2) by (intro all)
  qed
qed

section \<open>rufs_read\<close>

text \<open>The bytes at positions \<open>off\<close> to \<open>off + k\<close>.\<close>

definition fbytes :: "store \<Rightarrow> inode \<Rightarrow> nat \<Rightarrow> nat \<Rightarrow> u8 list" where
  "fbytes v n off k = map (fbyte v n) [off..<off + k]"

lemma fbytes_add: "fbytes v n off (k + l) = fbytes v n off k @ fbytes v n (off + k) l"
  by (simp add: fbytes_def upt_add_eq_append [of off "off + k" l, simplified] flip: add.assoc)

lemma fbytes_chunk:
  assumes "direct_ptr n ! (pos div BLOCK_SIZE) = b" "b \<noteq> 0" "pos mod BLOCK_SIZE + k \<le> BLOCK_SIZE"
    and "length (data v (unat b)) = BLOCK_SIZE"
  shows "chunk (pos mod BLOCK_SIZE) k (data v (unat b)) = fbytes v n pos k"
proof (rule nth_equalityI)
  show "length (chunk (pos mod BLOCK_SIZE) k (data v (unat b))) = length (fbytes v n pos k)"
    using assms(3,4) by (simp add: fbytes_def)
  fix j assume "j < length (chunk (pos mod BLOCK_SIZE) k (data v (unat b)))"
  then have j: "j < k" using assms(3,4) by simp
  have e: "BLOCK_SIZE * (pos div BLOCK_SIZE) + pos mod BLOCK_SIZE = pos" by simp
  have "BLOCK_SIZE * (pos div BLOCK_SIZE) \<le> pos + j" "pos + j < BLOCK_SIZE * Suc (pos div BLOCK_SIZE)"
    unfolding mult_Suc_right using e j assms(3) by linarith+
  then have d: "(pos + j) div BLOCK_SIZE = pos div BLOCK_SIZE" by (intro div_nat_eqI) simp_all
  have m: "(pos + j) mod BLOCK_SIZE = pos mod BLOCK_SIZE + j"
    using e d mult_div_mod_eq [of BLOCK_SIZE "pos + j"] by (simp only:)
  show "chunk (pos mod BLOCK_SIZE) k (data v (unat b)) ! j = fbytes v n pos k ! j"
    using j assms d m by (simp add: fbytes_def fbyte_def chunk_def)
qed

text \<open>The positions \<open>off\<close> to \<open>off + k\<close> have blocks.\<close>

definition backed :: "inode \<Rightarrow> nat \<Rightarrow> nat \<Rightarrow> bool" where
  "backed n off k \<longleftrightarrow> (\<forall>p. off \<le> p \<and> p < off + k \<longrightarrow> p < 16 * BLOCK_SIZE \<and> direct_ptr n ! (p div BLOCK_SIZE) \<noteq> 0)"

lemma backed_0 [simp]: "backed n off 0"
  by (auto simp: backed_def)

lemma read_loop_result:
  assumes ok: "disk_ok s" and c: "core (view s)" and a: "alive (view s) i"
    and fit: "unat offset + unat to_read < 2 ^ 43" and cap: "unat to_read \<le> cap"
  shows "unat did \<le> unat to_read \<Longrightarrow> backed (inodes (view s) i) (unat offset) (unat did) \<Longrightarrow>
    \<exists>k. read_loop s (inodes (view s) i) offset to_read cap did (fbytes (view s) (inodes (view s) i) (unat offset) (unat did)) =
        Some (k, fbytes (view s) (inodes (view s) i) (unat offset) (unat k)) \<and> unat k \<le> unat to_read \<and>
      backed (inodes (view s) i) (unat offset) (unat k) \<and>
      (k = to_read \<or> 16 * BLOCK_SIZE \<le> unat offset + unat k \<or>
       direct_ptr (inodes (view s) i) ! ((unat offset + unat k) div BLOCK_SIZE) = 0)"
proof (induction "unat to_read - unat did" arbitrary: did rule: less_induct)
  case less
  let ?n = "inodes (view s) i" and ?off = "unat offset"
  let ?pos = "?off + unat did" and ?l = "round_len (offset + did) (to_read - did)"
  let ?idx = "?pos div BLOCK_SIZE"
  show ?case
  proof (cases "did < to_read")
    case False
    then have "did = to_read" using less(2) by (simp add: word_le_nat_alt [symmetric] not_less)
    then show ?thesis using less(3) by (auto simp: read_loop.simps [of s ?n])
  next
    case lt: True
    have pf: "?off + unat did < 2 ^ 43" using lt fit by (simp add: word_less_nat_alt)
    note pos = position [OF pf] and rs = round_step [OF lt fit]
    show ?thesis
    proof (cases "?idx < 16 \<and> direct_ptr ?n ! ?idx \<noteq> 0")
      case False
      then have "read_loop s ?n offset to_read cap did (fbytes (view s) ?n ?off (unat did)) =
          Some (did, fbytes (view s) ?n ?off (unat did))"
        using lt by (auto simp: read_loop.simps [of s ?n] pos(2) Let_def)
      moreover have "16 * BLOCK_SIZE \<le> ?pos" if "\<not> ?idx < 16"
        using that by (simp add: not_less fs_consts)
      ultimately show ?thesis using False less(2,3) by (intro exI [of _ did]) auto
    next
      case True
      let ?b = "direct_ptr ?n ! ?idx"
      note ptr = writing_ptr [OF writing_start [OF ok c] a conjunct1 [OF True] conjunct2 [OF True]]
      have rd: "bio_read s ?b = data (view s) (unat ?b)" by (rule view_read [OF ptr(2)])
      have bits: "chunk (blk_off (offset + did)) ?l (bio_read s ?b) = fbytes (view s) ?n ?pos ?l"
        unfolding rd rs(5) using True rs(3) unfolding rs(5)
        by (intro fbytes_chunk view_data_len [OF ok ptr(2)]) simp_all
      have run: "read_loop s ?n offset to_read cap did (fbytes (view s) ?n ?off (unat did)) =
          read_loop s ?n offset to_read cap (did + of_nat ?l) (fbytes (view s) ?n ?off (unat (did + of_nat ?l)))"
        using lt True rs(2) cap bits
        by (simp add: read_loop.simps [of s ?n offset to_read cap did] pos(2) Let_def rs(1) fbytes_add)
      have "backed ?n ?off (unat (did + of_nat ?l))"
        unfolding backed_def
      proof (intro allI impI)
        fix p assume p: "?off \<le> p \<and> p < ?off + unat (did + of_nat ?l)"
        show "p < 16 * BLOCK_SIZE \<and> direct_ptr ?n ! (p div BLOCK_SIZE) \<noteq> 0"
        proof (cases "p < ?pos")
          case early: True
          then show ?thesis using less(3) p by (simp add: backed_def)
        next
          case late: False
          have e: "p div BLOCK_SIZE = ?idx" using late p rs(1) by (intro same_block [OF _ _ rs(3) [unfolded rs(5)]]) simp_all
          moreover have "p < 16 * BLOCK_SIZE" using True e by (metis div_less_iff_less_mult BLOCK_SIZE_def zero_less_numeral)
          ultimately show ?thesis using True by simp
        qed
      qed
      then show ?thesis unfolding run using less(1) [of "did + of_nat ?l"] rs(1,2,4) by simp
    qed
  qed
qed

lemma read_cases:
  assumes inv: "fs_inv s" and n: "node_at s path = Some (Some (inodes (view s) i))" "alive (view s) i"
      "itype (inodes (view s) i) = S_IFREG"
    and fit: "unat offset + unat sz < 2 ^ 31"
  obtains (past) "rufs_read at path sz offset s = Some (0, [], s)" "unat (isize (inodes (view s) i)) \<le> unat offset"
  | (got) k s' where "rufs_read at path sz offset s =
        Some (int k, fbytes (view s) (inodes (view s) i) (unat offset) k, s')"
      "fs_inv s'" "view s' = with_inode (view s) i (set_atime at (inodes (view s) i))"
      "unat offset < unat (isize (inodes (view s) i))" "k \<le> min (unat sz) (unat (isize (inodes (view s) i)) - unat offset)"
      "k = min (unat sz) (unat (isize (inodes (view s) i)) - unat offset) \<or> 16 * BLOCK_SIZE \<le> unat offset + k \<or>
       direct_ptr (inodes (view s) i) ! ((unat offset + k) div BLOCK_SIZE) = 0"
      "backed (inodes (view s) i) (unat offset) k"
proof -
  let ?v = "view s" and ?n = "inodes (view s) i"
  have ok: "disk_ok s" and st: "store_inv ?v" and c: "core ?v" using inv by (simp_all add: fs_inv_def store_inv_def)
  have nd: "\<not> is_dir ?n" using n(3) IFREG_not_dir by (simp add: is_dir_def)
  have uo: "unat (ucast offset :: u32) = unat offset"
    using fit by (simp add: unsigned_ucast_eq take_bit_nat_eq_self)
  show ?thesis
  proof (cases "isize ?n \<le> ucast offset")
    case True
    then have "rufs_read at path sz offset s = Some (0, [], s)" using n by (simp add: rufs_read_def)
    then show ?thesis using True uo by (intro past) (simp_all add: word_le_nat_alt)
  next
    case False
    then have lt: "unat offset < unat (isize ?n)" using uo by (simp add: word_le_nat_alt)
    let ?sz = "unat (isize ?n)"
    have so: "sint (offset + sz) = int (unat offset + unat sz)"
    proof -
      have "offset + sz = of_nat (unat offset + unat sz)" by simp
      moreover have "unat offset + unat sz < 2 ^ 63" using fit by simp
      ultimately show ?thesis using sint_of_nat_u64 by metis
    qed
    define to_read where "to_read = (if sint (offset + sz) > int ?sz then ucast (isize ?n) - offset else sz)"
    have cmp: "sint (offset + sz) > int ?sz \<longleftrightarrow> unat offset + unat sz > ?sz"
      unfolding so by (simp only: of_nat_less_iff)
    have ut: "unat to_read = min (unat sz) (?sz - unat offset)"
    proof (cases "unat offset + unat sz > ?sz")
      case True
      have "unat (ucast (isize ?n) - offset :: u64) = ?sz - unat offset"
        using lt by (subst unat_sub) (simp_all add: word_le_nat_alt)
      then show ?thesis using True lt unfolding to_read_def cmp by (simp add: min_def)
    next
      case False
      then show ?thesis using lt unfolding to_read_def cmp by (simp add: min_def)
    qed
    have f43: "unat offset + unat to_read < 2 ^ 43" "unat to_read \<le> unat sz" using fit ut by simp_all
    from read_loop_result [OF ok c n(2) f43, of 0]
    obtain k where k: "read_loop s ?n offset to_read (unat sz) 0 [] = Some (k, fbytes ?v ?n (unat offset) (unat k))"
      "unat k \<le> unat to_read" "k = to_read \<or> 16 * BLOCK_SIZE \<le> unat offset + unat k \<or>
       direct_ptr ?n ! ((unat offset + unat k) div BLOCK_SIZE) = 0" "backed ?n (unat offset) (unat k)"
      by (auto simp: fbytes_def)
    have shape: "inode_shape (set_atime at ?n)" using coreD(1) [OF c, of i] by simp
    obtain s' where s': "writei (ino (set_atime at ?n)) (set_atime at ?n) s = (0, s')" "fs_inv s'"
      "view s' = with_inode ?v i (set_atime at ?n)"
      by (rule finish_file [OF st n(2) nd writing_start [OF ok c] shape]) simp_all
    have "sint (ucast k :: u32) = int (unat k)" using k(2) f43 fit by (intro sint_done) simp
    then have "rufs_read at path sz offset s = Some (int (unat k), fbytes ?v ?n (unat offset) (unat k), s')"
      using n False k(1) s'(1) by (simp add: rufs_read_def Let_def to_read_def)
    then show ?thesis using s'(2,3) lt k(2,3,4) ut
      by (intro got [of "unat k" s']) auto
  qed
qed

section \<open>Paths that stay\<close>

lemma vwalk_stays:
  assumes d: "dirs {j. alive v j} v"
    and same: "\<And>j. alive v j \<Longrightarrow> is_dir (inodes v j) \<Longrightarrow> dmap v' j = dmap v j \<and> is_dir (inodes v' j)"
  shows "alive v k \<Longrightarrow> through_dirs v k ts \<Longrightarrow> vwalk v' k ts = vwalk v k ts \<and> through_dirs v' k ts"
proof (induction ts arbitrary: k)
  case (Cons t ts)
  have k: "is_dir (inodes v k)" using Cons.prems(2) by simp
  note s = same [OF Cons.prems(1) k]
  show ?case
  proof (cases "dmap v k t")
    case None
    then show ?thesis using s by simp
  next
    case (Some j)
    have "alive v (unat j)" using dmap_target [OF d Cons.prems(1) k Some] by simp
    then show ?thesis using Cons.IH [of "unat j"] Cons.prems(2) Some s by simp
  qed
qed simp

text \<open>The node a path leads to, for a path with the components \<open>ts\<close>.\<close>

definition path_to :: "fs \<Rightarrow> u8 list list \<Rightarrow> nat \<Rightarrow> bool" where
  "path_to s ts i \<longleftrightarrow> (\<forall>t \<in> set ts. component t) \<and> length (abs_path ts) < PATH_MAX \<and>
     through_dirs (view s) 0 ts \<and> vwalk (view s) 0 ts = Some i"

lemma path_to_node:
  assumes inv: "fs_inv s" and p: "path_to s ts i"
  shows "alive (view s) i" "node_at s (abs_path ts) = Some (Some (inodes (view s) i))"
    "get_node_by_path s (abs_path ts) 0 = Some (0, Some (inodes (view s) i))"
proof -
  have c: "core (view s)" "dirs {j. alive (view s) j} (view s)" "alive (view s) 0"
    using inv by (simp_all add: fs_inv_def store_inv_def)
  have t: "\<forall>t \<in> set ts. component t" "length (abs_path ts) < PATH_MAX" "through_dirs (view s) 0 ts"
    "vwalk (view s) 0 ts = Some i" using p by (simp_all add: path_to_def)
  show a: "alive (view s) i" by (rule vwalk_alive [OF c(2) t(3) c(3) t(4)])
  show g: "get_node_by_path s (abs_path ts) 0 = Some (0, Some (inodes (view s) i))"
    using get_node_walks [OF inv t(1,2,3)] t(4) by simp
  show "node_at s (abs_path ts) = Some (Some (inodes (view s) i))"
    using a by (simp add: node_at_def g alive_def)
qed

text \<open>Writing a file leaves every path where it was.\<close>

lemma written_path:
  assumes inv: "fs_inv s" "fs_inv s'" and w: "file_written (view s) i offset sz dat (view s')"
    and i: "alive (view s) i" "\<not> is_dir (inodes (view s) i)" and p: "path_to s ts j"
  shows "path_to s' ts j"
proof -
  let ?v = "view s" and ?w = "view s'"
  have c: "core ?v" "dirs {j. alive ?v j} ?v" "alive ?v 0" using inv by (simp_all add: fs_inv_def store_inv_def)
  obtain n where n: "inodes ?w = (inodes ?v)(i := n)" using w by (auto simp: file_written_def)
  have "dmap ?w k = dmap ?v k \<and> is_dir (inodes ?w k)" if k: "alive ?v k" "is_dir (inodes ?v k)" for k
  proof -
    have ki: "k \<noteq> i" using k(2) i(2) by metis
    have "\<forall>b \<in> owned (inodes ?v k). data ?w b = data ?v b"
      using w coreD(4) [OF c(1) k(1)] coreD(8) [OF c(1) k(1) i(1) ki] by (auto simp: file_written_def)
    then show ?thesis using ki n k(2) by (intro conjI dmap_cong) simp_all
  qed
  then show ?thesis using vwalk_stays [OF c(2) _ c(3), of ?w ts] p by (simp add: path_to_def)
qed

end
