(* ===== verification/FsProps.thy ===== *)
theory FsProps
  imports FsOps
begin

text \<open>
  What the inode table, the allocators and the file offsets of the file system guarantee.
\<close>

section \<open>The inode table\<close>

text \<open>An inode number past the table is refused and nothing is written.\<close>

lemma ino_refused: "disk_ok s \<Longrightarrow> 1024 \<le> unat i \<Longrightarrow> readi i s = (-EINVAL, None) \<and> writei i n s = (-EINVAL, s)"
  by (simp add: readi_def writei_def disk_ok_def formatted_sb_def word_le_nat_alt)

text \<open>
  The inode table is a map: writing an inode stores it whole (all 26 words and the 144 bytes of
  its stat) and reading any inode afterwards gives the one last written there; numbers past the
  1024 of the table get -EINVAL and change nothing.
\<close>

lemma inode_table_is_map:
  assumes "disk_ok s" "inode_shape n"
  shows "readi j (snd (writei i n s)) = (if j = i \<and> unat i < 1024 then (0, Some n) else readi j s)"
    (is "?l = ?r")
proof (cases "unat i < 1024")
  case False
  then show ?thesis using ino_refused [OF assms(1), of i n] by simp
next
  case i: True
  obtain s' where s': "writei (of_nat (unat i)) n s = (0, s')" "disk_ok s'"
    "\<And>k. k < 1024 \<Longrightarrow> inode_of s' k = (if k = unat i then n else inode_of s k)"
    using writei_ok [OF assms(1) i assms(2)] by metis
  show ?thesis
  proof (cases "unat j < 1024")
    case True
    then have "readi j s' = (0, Some (if unat j = unat i then n else inode_of s (unat j)))"
      using readi_ok [OF s'(2) True] s'(3) [OF True] by simp
    then show ?thesis using i s'(1) readi_ok [OF assms(1) True] by (simp add: word_unat_eq_iff)
  next
    case False
    then show ?thesis
      using i s'(1) ino_refused [OF s'(2), of j] ino_refused [OF assms(1), of j] by auto
  qed
qed

definition blank_disk :: fs where
  "blank_disk = \<lparr>diskfile = 3, fd_open = True, disk_exists = True, disk = (\<lambda>_. zero_blk), sb = formatted_sb\<rparr>"

lemma blank_disk_ok: "disk_ok blank_disk"
  by (simp add: disk_ok_def dev_ok_def blank_disk_def)

lemma inode_table_is_map_witness:
  "readi 7 (snd (writei 7 (new_file_inode 7 1 2) blank_disk)) = (0, Some (new_file_inode 7 1 2))"
proof -
  have "inode_shape (new_file_inode 7 1 2)"
    by (simp add: new_file_inode_def inode_shape_def zero_inode_def set_mode_def set_atime_def
        set_mtime_def fs_consts)
  from inode_table_is_map [OF blank_disk_ok this, of 7 7] show ?thesis by simp
qed

section \<open>Offsets\<close>

text \<open>
  Only the low 44 bits of an offset reach the block index, and the index test looks at 32 of them.
\<close>

lemma unat_plus_high: "unat ((x :: u64) + 17592186044416) mod 17592186044416 = unat x mod 17592186044416"
proof -
  have "unat (x + 17592186044416) = (unat x + 17592186044416) mod 2 ^ 64"
    by (simp add: unat_word_ariths)
  moreover have "(unat x + 17592186044416) mod 2 ^ 64 mod 17592186044416 = (unat x + 17592186044416) mod 17592186044416"
    by (intro mod_mod_cancel) simp
  ultimately show ?thesis by simp
qed

lemma low_bits: "unat (x :: u64) mod 17592186044416 = unat y mod 17592186044416 \<Longrightarrow>
  file_blk_idx x = file_blk_idx y \<and> blk_off x = blk_off y"
proof -
  assume e: "unat x mod 17592186044416 = unat y mod 17592186044416"
  have q: "unat z div 4096 mod 2 ^ 32 = unat z mod 17592186044416 div 4096" for z :: u64
    using mod_mult2_eq [of "unat z" 4096 "2 ^ 32"] by simp
  have idx: "(of_nat (unat x div 4096) :: u32) = of_nat (unat y div 4096)"
    using q [of x] q [of y] e by (simp add: word_unat_eq_iff unat_of_nat)
  have "unat z mod 4096 = unat z mod 17592186044416 mod 4096" for z :: u64
    by (simp add: mod_mod_cancel)
  then have "unat x mod 4096 = unat y mod 4096" using e by metis
  with idx show ?thesis by (simp add: file_blk_idx_def blk_off_def BLOCK_SIZE_def)
qed

lemma round_len_cong: "blk_off x = blk_off y \<Longrightarrow> round_len x left = round_len y left"
  by (simp add: round_len_def)

lemma write_loop_low_bits:
  "write_loop node (offset + 17592186044416) sz data did s = write_loop node offset sz data did s"
proof (induction node offset sz data did s rule: write_loop.induct)
  case (1 node offset sz data did s)
  have "unat (offset + 17592186044416 + did) mod 17592186044416 = unat (offset + did) mod 17592186044416"
    using unat_plus_high [of "offset + did"] by (simp add: algebra_simps)
  note e = low_bits [OF this]
  have r: "round_len (offset + 17592186044416 + did) l = round_len (offset + did) l" for l
    using e by (intro round_len_cong) simp
  show ?case
    by (subst (1 2) write_loop.simps)
      (auto simp: e r Let_def "1.IH" intro!: Option.bind_cong split: option.splits)
qed

text \<open>
  A write at an offset 16 TiB further on does exactly what the write at the offset itself does:
  the block index is an int and the new end of the file a 32-bit number, so the offset wraps and
  the limit of 16 blocks, which should give -EFBIG, is not noticed.
\<close>

lemma write_offset_wraps:
  "rufs_write mtime atime path data sz (offset + 17592186044416) s = rufs_write mtime atime path data sz offset s"
proof -
  have "(ucast (offset + 17592186044416 + did) :: u32) = ucast (offset + did)" for did :: u64
  proof -
    have u: "unat (ucast z :: u32) = unat z mod 17592186044416 mod 4294967296" for z :: u64
      by (simp add: unsigned_ucast_eq take_bit_eq_mod mod_mod_cancel)
    show ?thesis
      using unat_plus_high [of "offset + did"] by (simp only: word_unat_eq_iff u) (simp add: algebra_simps)
  qed
  then show ?thesis by (simp add: rufs_write_def write_loop_low_bits cong: if_cong option.case_cong sum.case_cong)
qed

end
