(* ===== verification/FsNames.thy ===== *)
theory FsNames
  imports FsMkfs FsReadWrite FsProps
begin

text \<open>
  The name space: what \<open>rufs_create\<close> and \<open>rufs_mkdir\<close> do to the paths of a mounted file system,
  and what formatting and mounting establish.
\<close>

section \<open>Walks of longer paths\<close>

lemma vwalk_append: "vwalk v i (ts @ us) = (case vwalk v i ts of None \<Rightarrow> None | Some j \<Rightarrow> vwalk v j us)"
  by (induction ts arbitrary: i) (auto split: option.splits)

lemma through_dirs_append: "through_dirs v i (ts @ us) \<longleftrightarrow>
    through_dirs v i ts \<and> (case vwalk v i ts of None \<Rightarrow> True | Some j \<Rightarrow> through_dirs v j us)"
  by (induction ts arbitrary: i) (auto split: option.splits)

lemma vwalk_grows:
  assumes d: "dirs {j. alive v j} v"
    and more: "\<And>j. alive v j \<Longrightarrow> is_dir (inodes v j) \<Longrightarrow> dmap v j \<subseteq>\<^sub>m dmap v' j \<and> is_dir (inodes v' j)"
  shows "alive v k \<Longrightarrow> through_dirs v k ts \<Longrightarrow> vwalk v k ts = Some i \<Longrightarrow> vwalk v' k ts = Some i \<and> through_dirs v' k ts"
proof (induction ts arbitrary: k)
  case (Cons t ts)
  have k: "is_dir (inodes v k)" using Cons.prems(2) by simp
  obtain j where j: "dmap v k t = Some j" using Cons.prems(3) by (auto split: option.splits)
  then have "dmap v' k t = Some j" using more [OF Cons.prems(1) k] by (auto simp: map_le_def dom_def)
  moreover have "alive v (unat j)" using dmap_target [OF d Cons.prems(1) k j] by simp
  ultimately show ?case using Cons.IH [of "unat j"] Cons.prems j more [OF Cons.prems(1) k] by simp
qed simp

lemma fs_invD:
  assumes "fs_inv s"
  shows "disk_ok s" "core (view s)" "dirs {j. alive (view s) j} (view s)" "alive (view s) 0" "is_dir (inodes (view s) 0)"
  using assms by (simp_all add: fs_inv_def store_inv_def)

text \<open>Every path that leads somewhere still leads there.\<close>

definition paths_kept :: "fs \<Rightarrow> fs \<Rightarrow> bool" where
  "paths_kept s s' \<longleftrightarrow> (\<forall>ts j. path_to s ts j \<longrightarrow> path_to s' ts j)"

text \<open>Every file that is not a directory keeps its inode and its bytes.\<close>

definition files_kept :: "store \<Rightarrow> store \<Rightarrow> bool" where
  "files_kept v v' \<longleftrightarrow> (\<forall>j. alive v j \<and> \<not> is_dir (inodes v j) \<longrightarrow>
     inodes v' j = inodes v j \<and> (\<forall>p < 16 * BLOCK_SIZE. fbyte v' (inodes v' j) p = fbyte v (inodes v j) p))"

lemma paths_keptI:
  assumes "fs_inv s" "\<And>j. alive (view s) j \<Longrightarrow> is_dir (inodes (view s) j) \<Longrightarrow>
    dmap (view s) j \<subseteq>\<^sub>m dmap (view s') j \<and> is_dir (inodes (view s') j)"
  shows "paths_kept s s'"
  using vwalk_grows [OF fs_invD(3) [OF assms(1)] assms(2) fs_invD(4) [OF assms(1)]]
  by (auto simp: paths_kept_def path_to_def)

lemma fbyte_same:
  assumes c: "core v" and "inodes v' j = inodes v j" "\<forall>b \<in> owned (inodes v j). data v' b = data v b" "p < 16 * BLOCK_SIZE"
  shows "fbyte v' (inodes v' j) p = fbyte v (inodes v j) p"
proof -
  let ?b = "direct_ptr (inodes v j) ! (p div BLOCK_SIZE)"
  have "?b \<in> set (direct_ptr (inodes v j))"
    using coreD(1) [OF c, of j] assms(4) by (simp add: inode_shape_def fs_consts)
  then have "?b \<noteq> 0 \<Longrightarrow> unat ?b \<in> owned (inodes v j)" by (rule owned_ptr)
  then show ?thesis using assms(2,3) by (simp add: fbyte_def Let_def)
qed

lemma leaked_kept:
  assumes inv: "fs_inv s" and l: "leaked (view s) (view s')"
  shows "paths_kept s s'" "files_kept (view s) (view s')"
proof -
  have c: "core (view s)" by (rule fs_invD(2) [OF inv])
  have e: "inodes (view s') = inodes (view s)" using l by (simp add: leaked_def)
  show "paths_kept s s'" using leaked_dmap [OF c l] e by (intro paths_keptI [OF inv]) simp
  have "data (view s') b = data (view s) b" if "alive (view s) j" "b \<in> owned (inodes (view s) j)" for j b
    using coreD(4) [OF c that(1)] that(2) l by (auto simp: leaked_def)
  then show "files_kept (view s) (view s')" using fbyte_same [OF c, of "view s'"] e by (auto simp: files_kept_def)
qed

lemma node_made_kept:
  assumes inv: "fs_inv s" and m: "node_made (view s) d nm i node (view s')"
  shows "paths_kept s s'" "files_kept (view s) (view s')"
proof -
  have c: "core (view s)" by (rule fs_invD(2) [OF inv])
  have m': "\<not> alive (view s) i" "is_dir (inodes (view s) d)" "dmap (view s) d nm = None"
      "dmap (view s') d = (dmap (view s) d)(nm \<mapsto> of_nat i)" "itype (inodes (view s') d) = itype (inodes (view s) d)"
      "\<And>j. j \<noteq> i \<Longrightarrow> j \<noteq> d \<Longrightarrow> inodes (view s') j = inodes (view s) j"
      "\<And>j b. alive (view s) j \<Longrightarrow> j \<noteq> d \<Longrightarrow> b \<in> owned (inodes (view s) j) \<Longrightarrow> data (view s') b = data (view s) b"
    using m by (auto simp: node_made_def)
  have "dmap (view s) j \<subseteq>\<^sub>m dmap (view s') j \<and> is_dir (inodes (view s') j)"
    if j: "alive (view s) j" "is_dir (inodes (view s) j)" for j
  proof (cases "j = d")
    case True
    then show ?thesis using m'(2,3,4,5) by (auto simp: map_le_def is_dir_def)
  next
    case False
    then show ?thesis using j m'(1,6) node_made_dmap [OF m j(1)] by (metis map_le_refl)
  qed
  then show "paths_kept s s'" by (rule paths_keptI [OF inv])
  show "files_kept (view s) (view s')"
    unfolding files_kept_def
  proof (intro allI impI conjI)
    fix j assume j: "alive (view s) j \<and> \<not> is_dir (inodes (view s) j)"
    then have n: "j \<noteq> i" "j \<noteq> d" using m'(1,2) by metis+
    then show same: "inodes (view s') j = inodes (view s) j" by (rule m'(6))
    show "fbyte (view s') (inodes (view s') j) p = fbyte (view s) (inodes (view s) j) p" if "p < 16 * BLOCK_SIZE" for p
      using m'(7) j n(2) that by (intro fbyte_same [OF c same]) auto
  qed
qed

section \<open>New entries\<close>

lemma abs_path_fits:
  assumes "length (abs_path (ts @ [t])) < PATH_MAX"
  shows "take (PATH_MAX - 1) (abs_path (ts @ [t])) = abs_path (ts @ [t])"
  using assms by simp

lemma new_entry_at:
  assumes inv: "fs_inv s" and p: "path_to s ts d" "is_dir (inodes (view s) d)"
    and t: "component t" "length (abs_path (ts @ [t])) < PATH_MAX"
  obtains (exists) k where "new_entry_parent s (abs_path (ts @ [t])) = Some (Inl (-EEXIST))" "dmap (view s) d t = Some k"
  | (absent) "new_entry_parent s (abs_path (ts @ [t])) = Some (Inr (inodes (view s) d))" "dmap (view s) d t = None"
proof -
  let ?n = "inodes (view s) d"
  note i = fs_invD [OF inv]
  note node = path_to_node [OF inv p(1)]
  have ts: "\<forall>u \<in> set ts. component u" using p(1) by (simp add: path_to_def)
  note tk = abs_path_fits [OF t(2)]
  have dn: "dirname (take (PATH_MAX - 1) (abs_path (ts @ [t]))) = abs_path ts"
    unfolding tk by (rule dirname_abs_path [OF t(1) ts])
  have bn: "basename (take (PATH_MAX - 1) (abs_path (ts @ [t]))) = t"
    unfolding tk by (rule basename_abs_path [OF t(1)])
  have un: "unat (ino ?n) = d" by (rule coreD(3) [OF i(2) node(1)])
  have start: "new_entry_parent s (abs_path (ts @ [t])) = do {
      (r, _) \<leftarrow> dir_find s (ino ?n) t; if r = 0 then Some (Inl (-EEXIST)) else Some (Inr ?n)}"
    using p(2) by (simp only: new_entry_parent_def dn bn node(3)) (simp add: is_dir_def)
  have a: "alive (view s) (unat (ino ?n))" "is_dir (inodes (view s) (unat (ino ?n)))" "0 \<notin> set t"
    using node(1) p(2) un t(1) by (simp_all add: component_def)
  show ?thesis
  proof (cases rule: dir_find_dmap [OF i(1-3) a])
    case 1
    then show ?thesis using start un by (intro absent) (simp_all add: ENOENT_def)
  next
    case (2 e)
    then show ?thesis using start un by (intro exists) simp_all
  qed
qed

lemma path_to_new:
  assumes inv: "fs_inv s" and p: "path_to s ts d" "is_dir (inodes (view s) d)"
    and t: "component t" "length (abs_path (ts @ [t])) < PATH_MAX"
    and m: "node_made (view s) d t i node (view s')"
  shows "path_to s' (ts @ [t]) i"
proof -
  have "path_to s' ts d" using node_made_kept(1) [OF inv m] p(1) by (simp add: paths_kept_def)
  moreover have "dmap (view s') d t = Some (of_nat i)" "i < 1024" "is_dir (inodes (view s') d)"
    using m p(2) by (auto simp: node_made_def is_dir_def)
  ultimately show ?thesis
    using t unat_u16 [of i] by (simp add: path_to_def vwalk_append through_dirs_append)
qed

lemma name_at:
  assumes "component t" "length t \<le> NAME_SIZE" "length (abs_path (ts @ [t])) < PATH_MAX"
  shows "basename (take (PATH_MAX - 1) (abs_path (ts @ [t]))) = t" "name_ok t"
proof -
  show "basename (take (PATH_MAX - 1) (abs_path (ts @ [t]))) = t"
    unfolding abs_path_fits [OF assms(3)] by (rule basename_abs_path [OF assms(1)])
  show "name_ok t" using assms(1,2) by (simp add: component_def name_ok_def)
qed

lemma leaked_fs_inv: "fs_inv s \<Longrightarrow> disk_ok s' \<Longrightarrow> leaked (view s) (view s') \<Longrightarrow> fs_inv s'"
  using leaked_inv by (auto simp: fs_inv_def)

section \<open>A disk just formatted, and one with a file\<close>

lemma card_data_blks: "card {b. data_blk b} = 8125" "finite {b. data_blk b}"
proof -
  have "{b. data_blk b} = {67..<8192}" by (auto simp: data_blk_def)
  then show "card {b. data_blk b} = 8125" "finite {b. data_blk b}" by simp_all
qed

lemma fresh_exists: "\<exists>s. rufs_mkfs 3 0 0 blank_disk = Some (0, s) \<and> fs_inv s \<and> formatted 0 0 (view s)"
proof -
  have "openable 3 blank_disk" by (simp add: openable_def blank_disk_def)
  from mkfs_formats [OF this, of 0 0] show ?thesis by blast
qed

lemma formatted_root:
  assumes "fs_inv s" "formatted m a (view s)"
  shows "path_to s [] 0" "is_dir (inodes (view s) 0)" "dmap (view s) 0 t = (if t = [DOT] \<or> t = [DOT, DOT] then Some 0 else None)"
    "\<not> {..<1024} \<subseteq> iused (view s)" "bused (view s) = {67}" "\<not> dir_full ((view s)\<lparr>bused := insert n (bused (view s))\<rparr>) 0"
    "bused (view s) \<noteq> {b. data_blk b}" "\<not> dir_full (view s) 0"
proof -
  show "path_to s [] 0" by (simp add: path_to_def abs_path_def PATH_MAX_def)
  show "is_dir (inodes (view s) 0)" by (rule fs_invD(5) [OF assms(1)])
  have "iused (view s) = {0}" using assms(2) by (simp add: formatted_def)
  then have "1 \<notin> iused (view s)" by simp
  then show "\<not> {..<1024} \<subseteq> iused (view s)" by (metis lessThan_iff one_less_numeral_iff semiring_norm(76) subsetD)
  show "dmap (view s) 0 t = (if t = [DOT] \<or> t = [DOT, DOT] then Some 0 else None)"
    and b: "bused (view s) = {67}"
    using assms(2) by (simp_all add: formatted_def)
  have few: "card (insert n {67 :: nat}) \<noteq> card {b. data_blk b}" "card {67 :: nat} \<noteq> card {b. data_blk b}" for n
    by (simp_all add: card_data_blks card_insert_if)
  then show all: "bused (view s) \<noteq> {b. data_blk b}" unfolding b by metis
  have "0 \<in> set (direct_ptr (inodes (view s) 0))" using assms(2) by (simp add: formatted_def)
  moreover have "insert n (bused (view s)) \<noteq> {b. data_blk b}" unfolding b using few(1) by metis
  ultimately show "\<not> dir_full ((view s)\<lparr>bused := insert n (bused (view s))\<rparr>) 0" "\<not> dir_full (view s) 0"
    using all by (simp_all add: dir_full_def)
qed

lemma one_name: "component [97]" "length [97 :: u8] \<le> NAME_SIZE" "length (abs_path ([] @ [[97]])) < PATH_MAX"
  "[97 :: u8] \<noteq> [DOT]" "[97 :: u8] \<noteq> [DOT, DOT]"
  by (simp_all add: component_def SLASH_def DOT_def fs_consts abs_path_def PATH_MAX_def)

section \<open>rufs_create\<close>

text \<open>
  C10. On a mounted file system \<open>rufs_create\<close> in an existing directory, with a name of at most 208
  bytes, always returns, keeps the invariant, every path and the bytes of every file. It answers
  -EEXIST, and changes nothing, exactly when the name is there; -ENOSPC only when the inode table or
  the directory is full; otherwise 0, and the path leads to an inode that was free and is now an
  empty regular file with one link, at the cost of at most one data block.
\<close>

theorem create_adds:
  assumes inv: "fs_inv s" and p: "path_to s ts d" "is_dir (inodes (view s) d)"
    and t: "component t" "length t \<le> NAME_SIZE" "length (abs_path (ts @ [t])) < PATH_MAX"
  shows "\<exists>r s'. rufs_create m a (abs_path (ts @ [t])) s = Some (r, s') \<and> fs_inv s' \<and> paths_kept s s' \<and>
    files_kept (view s) (view s') \<and>
    (if dmap (view s) d t \<noteq> None then r = -EEXIST \<and> s' = s
     else r = -ENOSPC \<and> ({..<1024} \<subseteq> iused (view s) \<or> dir_full (view s) d) \<or>
       r = 0 \<and> (\<exists>i. \<not> alive (view s) i \<and> path_to s' (ts @ [t]) i \<and>
         inodes (view s') i = new_file_inode (of_nat i) m a \<and> (\<exists>b. bused (view s') \<subseteq> insert b (bused (view s)))))"
proof -
  note nm = name_at [OF t]
  show ?thesis
  proof (cases rule: new_entry_at [OF inv p t(1,3)])
    case (1 k)
    then show ?thesis using leaked_kept [OF inv leaked_refl [OF fs_invD(2) [OF inv]]] inv
      by (simp add: rufs_create_def)
  next
    case 2
    have x: "name_ok (basename (take (PATH_MAX - 1) (abs_path (ts @ [t]))))"
      "dmap (view s) d (basename (take (PATH_MAX - 1) (abs_path (ts @ [t])))) = None"
      using nm 2(2) by simp_all
    show ?thesis
    proof (cases rule: create_at [OF inv x(1) 2(1) path_to_node(1) [OF inv p(1)] p(2) x(2), of m a])
      case (1 s')
      then show ?thesis using leaked_kept [OF inv 1(3)] leaked_fs_inv [OF inv 1(2,3)] 2(2) by auto
    next
      case made: (2 i s')
      then have md: "node_made (view s) d t i (new_file_inode (of_nat i) m a) (view s')" using nm(1) by simp
      then have "\<not> alive (view s) i" "inodes (view s') i = new_file_inode (of_nat i) m a" by (auto simp: node_made_def)
      then show ?thesis
        using node_made_kept [OF inv md] path_to_new [OF inv p t(1,3) md] made 2(2) by (auto simp del: new_file_inode_fields)
    qed
  qed
qed

lemma create_adds_witness:
  "\<exists>s s' i. fs_inv s \<and> rufs_create 5 6 (abs_path [[97]]) s = Some (0, s') \<and> path_to s' [[97]] i \<and>
    inodes (view s') i = new_file_inode (of_nat i) 5 6"
proof -
  obtain s where s: "fs_inv s" "formatted 0 0 (view s)" using fresh_exists by blast
  note f = formatted_root [OF s]
  show ?thesis
    using create_adds [OF s(1) f(1,2) one_name(1-3), of 5 6] f(3) [of "[97]"] f(4,8) one_name(4,5) s(1) by auto
qed

section \<open>rufs_mkdir\<close>

text \<open>
  C11. \<open>rufs_mkdir\<close> likewise, and the new directory holds . for itself and .. for its parent and
  nothing else. -ENOSPC is also its answer when the data blocks are used up.
\<close>

theorem mkdir_adds:
  assumes inv: "fs_inv s" and p: "path_to s ts d" "is_dir (inodes (view s) d)"
    and t: "component t" "length t \<le> NAME_SIZE" "length (abs_path (ts @ [t])) < PATH_MAX"
  shows "\<exists>r s'. rufs_mkdir m a (abs_path (ts @ [t])) s = Some (r, s') \<and> fs_inv s' \<and> paths_kept s s' \<and>
    files_kept (view s) (view s') \<and>
    (if dmap (view s) d t \<noteq> None then r = -EEXIST \<and> s' = s
     else r = -ENOSPC \<and> ({..<1024} \<subseteq> iused (view s) \<or> bused (view s) = {b. data_blk b} \<or>
         (\<exists>n. dir_full ((view s)\<lparr>bused := insert n (bused (view s))\<rparr>) d)) \<or>
       r = 0 \<and> (\<exists>i. \<not> alive (view s) i \<and> path_to s' (ts @ [t]) i \<and> is_dir (inodes (view s') i) \<and>
         link (inodes (view s') i) = 2 \<and> dmap (view s') i = [[DOT] \<mapsto> of_nat i, [DOT, DOT] \<mapsto> of_nat d]))"
proof -
  note nm = name_at [OF t]
  show ?thesis
  proof (cases rule: new_entry_at [OF inv p t(1,3)])
    case (1 k)
    then show ?thesis using leaked_kept [OF inv leaked_refl [OF fs_invD(2) [OF inv]]] inv
      by (simp add: rufs_mkdir_def)
  next
    case 2
    have x: "name_ok (basename (take (PATH_MAX - 1) (abs_path (ts @ [t]))))"
      "dmap (view s) d (basename (take (PATH_MAX - 1) (abs_path (ts @ [t])))) = None"
      using nm 2(2) by simp_all
    show ?thesis
    proof (cases rule: mkdir_at [OF inv x(1) 2(1) path_to_node(1) [OF inv p(1)] p(2) x(2), of m a])
      case (1 s')
      then show ?thesis using leaked_kept [OF inv 1(3)] leaked_fs_inv [OF inv 1(2,3)] 2(2) by auto
    next
      case made: (2 i b s')
      then have md: "node_made (view s) d t i (new_dir_inode (of_nat i) b m a) (view s')" using nm(1) by simp
      then have "\<not> alive (view s) i" "inodes (view s') i = new_dir_inode (of_nat i) b m a" by (auto simp: node_made_def)
      moreover have "is_dir (new_dir_inode (of_nat i) b m a)" by (rule is_dir_new_dir)
      ultimately show ?thesis
        using node_made_kept [OF inv md] path_to_new [OF inv p t(1,3) md] made 2(2) by auto
    qed
  qed
qed

lemma mkdir_adds_witness:
  "\<exists>s s' i. fs_inv s \<and> rufs_mkdir 5 6 (abs_path [[97]]) s = Some (0, s') \<and> path_to s' [[97]] i \<and>
    dmap (view s') i = [[DOT] \<mapsto> of_nat i, [DOT, DOT] \<mapsto> 0]"
proof -
  obtain s where s: "fs_inv s" "formatted 0 0 (view s)" using fresh_exists by blast
  note f = formatted_root [OF s]
  show ?thesis
    using mkdir_adds [OF s(1) f(1,2) one_name(1-3), of 5 6] f(3) [of "[97]"] f(4,6,7) one_name(4,5) s(1) by auto
qed

section \<open>Paths and what they name\<close>

text \<open>
  The path of a list of components is taken apart again by the code: its tokens are the
  components, its \<open>dirname\<close> is the path of all but the last and its \<open>basename\<close> the last.
\<close>

lemma path_round_trip:
  assumes "\<forall>u \<in> set ts. component u" "component t"
  shows "tokens (abs_path (ts @ [t])) = ts @ [t] \<and> dirname (abs_path (ts @ [t])) = abs_path ts \<and>
    basename (abs_path (ts @ [t])) = t"
  using assms tokens_abs_path [of "ts @ [t]"] dirname_abs_path basename_abs_path by simp

lemma path_round_trip_witness:
  "tokens [SLASH, 97, SLASH, 98, 99] = [[97], [98, 99]] \<and> dirname [SLASH, 97, SLASH, 98, 99] = [SLASH, 97] \<and>
   basename [SLASH, 97, SLASH, 98, 99] = [98, 99]"
proof -
  have c: "component [97]" "component [98, 99]" by (simp_all add: component_def SLASH_def)
  then have "\<forall>u \<in> set [[97]]. component u" by simp
  from path_round_trip [OF this c(2)] show ?thesis by (simp add: abs_path_def)
qed

text \<open>
  The operations that only look a path up see the directories as maps: when every directory the
  path passes through is one, \<open>rufs_getattr\<close>, \<open>rufs_opendir\<close> and \<open>rufs_open\<close> answer for the inode
  the walk through the maps ends at, and -ENOENT when it ends nowhere.
\<close>

lemma lookups_walk:
  assumes inv: "fs_inv s" and ts: "\<forall>t \<in> set ts. component t" "length (abs_path ts) < PATH_MAX"
    and thr: "through_dirs (view s) 0 ts"
  shows "case vwalk (view s) 0 ts of
      None \<Rightarrow> rufs_getattr uid gid s (abs_path ts) = Some (-ENOENT, zero_stat) \<and>
        rufs_opendir s (abs_path ts) = Some (-ENOENT) \<and> rufs_open s (abs_path ts) = Some (-ENOENT)
    | Some i \<Rightarrow>
        (\<exists>st. rufs_getattr uid gid s (abs_path ts) = Some (0, st) \<and> st_size st = ucast (isize (inodes (view s) i)) \<and>
          st_nlink st = ucast (link (inodes (view s) i)) \<and>
          st_mode st = (if is_dir (inodes (view s) i) then DIR_MODE else REG_MODE)) \<and>
        rufs_opendir s (abs_path ts) = Some (if is_dir (inodes (view s) i) then 0 else -ENOTDIR) \<and>
        rufs_open s (abs_path ts) = Some 0"
proof (cases "vwalk (view s) 0 ts")
  case None
  then have "node_at s (abs_path ts) = Some None"
    using get_node_walks [OF inv ts thr] by (simp add: node_at_def)
  then show ?thesis using None by (simp add: rufs_getattr_def rufs_opendir_def rufs_open_def)
next
  case (Some i)
  then have "path_to s ts i" using ts thr by (simp add: path_to_def)
  then have "node_at s (abs_path ts) = Some (Some (inodes (view s) i))" by (rule path_to_node(2) [OF inv])
  then show ?thesis using Some by (simp add: rufs_getattr_def rufs_opendir_def rufs_open_def is_dir_def)
qed

lemma lookups_walk_witness:
  "\<exists>s. fs_inv s \<and> rufs_opendir s (abs_path []) = Some 0 \<and> rufs_open s (abs_path [[97]]) = Some (-ENOENT)"
proof -
  obtain s where s: "fs_inv s" "formatted 0 0 (view s)" using fresh_exists by blast
  note f = formatted_root [OF s]
  have "\<forall>t \<in> set []. component t" "length (abs_path []) < PATH_MAX" "through_dirs (view s) 0 []"
    using f(1) by (simp_all add: path_to_def)
  note root = lookups_walk [OF s(1) this]
  have "\<forall>t \<in> set [[97]]. component t" "length (abs_path [[97]]) < PATH_MAX" "through_dirs (view s) 0 [[97]]"
    using one_name(1,3) f(2) f(3) [of "[97]"] one_name(4,5) by simp_all
  from lookups_walk [OF s(1) this] root show ?thesis using s(1) f(2) f(3) [of "[97]"] one_name(4,5) by auto
qed

end
