(* ===== verification/FsFiles.thy ===== *)
theory FsFiles
  imports FsNames
begin

text \<open>
  What \<open>rufs_write\<close> and \<open>rufs_read\<close> promise to a client that names a file by its path, and what a
  write that stops early leaves behind.
\<close>

section \<open>A disk with one empty file\<close>

lemma create_fresh:
  assumes inv: "fs_inv s" and f: "formatted 0 0 (view s)"
  obtains i s' where "rufs_create 5 6 (abs_path [[97]]) s = Some (0, s')" "fs_inv s'" "path_to s' [[97]] i"
    "inodes (view s') i = new_file_inode (of_nat i) 5 6" "17 \<le> card ({b. data_blk b} - bused (view s'))"
    "dmap (view s') 0 = (dmap (view s) 0)([97] \<mapsto> of_nat i)"
proof -
  note r = formatted_root [OF inv f]
  have absent: "dmap (view s) 0 [97] = None" using r(3) [of "[97]"] one_name(4,5) by simp
  note nm = name_at [OF one_name(1-3)]
  have p: "[] @ [[97 :: u8]] = [[97]]" by simp
  have x: "name_ok (basename (take (PATH_MAX - 1) (abs_path [[97]])))"
    "dmap (view s) 0 (basename (take (PATH_MAX - 1) (abs_path [[97]]))) = None"
    using nm absent by (simp_all only: p)
  have par: "new_entry_parent s (abs_path [[97]]) = Some (Inr (inodes (view s) 0))"
    using new_entry_at [OF inv r(1,2) one_name(1,3)] absent by (metis append_Nil option.distinct(1))
  show ?thesis
  proof (cases rule: create_at [OF inv x(1) par fs_invD(4) [OF inv] r(2) x(2), of 5 6])
    case 1
    then show ?thesis using r(4,8) by simp
  next
    case (2 i s')
    have m: "node_made (view s) 0 [97] i (new_file_inode (of_nat i) 5 6) (view s')"
      using 2(3) nm(1) by (simp only: p)
    obtain n where n: "bused (view s') \<subseteq> {n, 67}" using 2(4) r(5) by auto
    then have b: "finite (bused (view s'))" "card (bused (view s')) \<le> 2"
      using card_mono [OF _ n] by (auto intro: finite_subset simp: card_insert_if split: if_splits)
    have "card {b. data_blk b} - card (bused (view s')) \<le> card ({b. data_blk b} - bused (view s'))"
      by (rule diff_card_le_card_Diff [OF b(1)])
    then have "17 \<le> card ({b. data_blk b} - bused (view s'))" using b(2) card_data_blks(1) by simp
    moreover have "inodes (view s') i = new_file_inode (of_nat i) 5 6" "dmap (view s') 0 = (dmap (view s) 0)([97] \<mapsto> of_nat i)"
      using m by (simp_all add: node_made_def)
    moreover have "path_to s' [[97]] i" using path_to_new [OF inv r(1,2) one_name(1,3) m] by simp
    ultimately show ?thesis using 2(1,2) by (intro that)
  qed
qed

lemma one_file_exists: "\<exists>s i. fs_inv s \<and> path_to s [[97]] i \<and> inodes (view s) i = new_file_inode (of_nat i) 5 6 \<and>
    17 \<le> card ({b. data_blk b} - bused (view s))"
  using fresh_exists create_fresh by metis

section \<open>Writing\<close>

lemma file_node:
  assumes inv: "fs_inv s" and p: "path_to s ts i" "itype (inodes (view s) i) = S_IFREG"
  shows "node_at s (abs_path ts) = Some (Some (inodes (view s) i))" "alive (view s) i" "\<not> is_dir (inodes (view s) i)"
  using path_to_node [OF inv p(1)] p(2) IFREG_not_dir by (simp_all add: is_dir_def)

text \<open>
  C12. A write succeeds when it should: on a mounted file system, writing \<open>sz\<close> bytes to a regular
  file within its first 64 KiB stores all of them and reports \<open>sz\<close>, as long as 17 data blocks
  are free. The bytes of the file change there and nowhere else, and its size grows to the end of
  the write.
\<close>

theorem write_succeeds:
  assumes inv: "fs_inv s" and p: "path_to s ts i" "itype (inodes (view s) i) = S_IFREG"
    and len: "unat sz \<le> length dat" and fit: "unat offset + unat sz \<le> 16 * BLOCK_SIZE"
    and free: "17 \<le> card ({b. data_blk b} - bused (view s))"
  shows "\<exists>s'. rufs_write mt at (abs_path ts) dat sz offset s = Some (int (unat sz), s') \<and> fs_inv s' \<and>
    file_written (view s) i offset sz dat (view s')"
proof -
  note n = file_node [OF inv p]
  have f43: "unat offset + unat sz < 2 ^ 43" using fit by (simp add: fs_consts)
  show ?thesis
  proof (cases rule: write_cases [OF inv n(1,2) p(2) f43 len, of mt at])
    case (1 r s')
    have "bused (view s') = {b. data_blk b}" using cut_short_why [OF 1(4)] fit by simp
    then have "card ({b. data_blk b} - bused (view s)) \<le> 16" using 1(3) by (simp add: touched_def)
    then show ?thesis using free by simp
  next
    case (2 s')
    have "sint (ucast sz :: u32) = int (unat sz)" using fit by (intro sint_done) (simp add: fs_consts)
    then show ?thesis using 2 by simp
  qed
qed

lemma write_succeeds_witness:
  "\<exists>s i s'. fs_inv s \<and> rufs_write 7 8 (abs_path [[97]]) [1, 2, 3] 3 4095 s = Some (3, s') \<and>
    file_written (view s) i 4095 3 [1, 2, 3] (view s')"
proof -
  obtain s i where s: "fs_inv s" "path_to s [[97]] i" "inodes (view s) i = new_file_inode (of_nat i) 5 6"
    "17 \<le> card ({b. data_blk b} - bused (view s))" using one_file_exists by blast
  then have t: "itype (inodes (view s) i) = S_IFREG" by simp
  show ?thesis
    using write_succeeds [OF s(1,2) t _ _ s(4), of 3 "[1, 2, 3]" 4095 7 8] s(1) by (auto simp: fs_consts)
qed

section \<open>Reading what was written\<close>

text \<open>The file \<open>i\<close> holds the bytes \<open>bs\<close> from the position \<open>off\<close> on, in blocks of its own.\<close>

definition file_holds :: "store \<Rightarrow> nat \<Rightarrow> nat \<Rightarrow> u8 list \<Rightarrow> bool" where
  "file_holds v i off bs \<longleftrightarrow> alive v i \<and> itype (inodes v i) = S_IFREG \<and>
     off + length bs \<le> unat (isize (inodes v i)) \<and> off + length bs \<le> 16 * BLOCK_SIZE \<and>
     fbytes v (inodes v i) off (length bs) = bs \<and>
     (\<forall>p. off \<le> p \<and> p < off + length bs \<longrightarrow> direct_ptr (inodes v i) ! (p div BLOCK_SIZE) \<noteq> 0)"

lemma write_holds:
  assumes inv: "fs_inv s" and p: "path_to s ts i" "itype (inodes (view s) i) = S_IFREG"
    and len: "length dat = unat sz" "0 < sz" and fit: "unat offset + unat sz < 2 ^ 31"
    and run: "rufs_write mt at (abs_path ts) dat sz offset s = Some (int (unat sz), s')"
  shows "fs_inv s'" "path_to s' ts i" "file_holds (view s') i (unat offset) dat"
    "file_written (view s) i offset sz dat (view s')"
proof -
  let ?v = "view s" and ?w = "view s'"
  note node = path_to_node [OF inv p(1)]
  have nd: "\<not> is_dir (inodes ?v i)" using p(2) IFREG_not_dir by (simp add: is_dir_def)
  have fit43: "unat offset + unat sz < 2 ^ 43" using fit by simp
  have len': "unat sz \<le> length dat" using len by simp
  have "fs_inv s' \<and> file_written ?v i offset sz dat ?w"
  proof (cases rule: write_cases [OF inv node(2,1) p(2) fit43 len', of mt at])
    case (1 r t)
    then have "r = int (unat sz)" using run by simp
    then have "0 \<le> r" "nat r = unat sz" by (simp_all only: nat_int of_nat_0_le_iff)
    then have False using 1(4) by (auto simp: cut_short_def EFBIG_def ENOSPC_def)
    then show ?thesis ..
  next
    case (2 t)
    then show ?thesis using run by simp
  qed
  then show inv': "fs_inv s'" and w: "file_written ?v i offset sz dat ?w" by simp_all
  show p': "path_to s' ts i" by (rule written_path [OF inv inv' w node(1) nd p(1)])
  have end16: "unat offset + unat sz \<le> 16 * BLOCK_SIZE" using w len(2) by (auto simp: file_written_def)
  obtain n where n: "inodes ?w = (inodes ?v)(i := n)" "itype n = S_IFREG"
    "isize n = (if isize (inodes ?v i) < ucast (offset + sz) then ucast (offset + sz) else isize (inodes ?v i))"
    using w p(2) by (auto simp: file_written_def)
  have "unat (ucast (offset + sz) :: u32) = unat offset + unat sz"
    using fit unat_add_lem [of offset sz] by (simp add: unsigned_ucast_eq take_bit_nat_eq_self)
  then have size: "unat offset + unat sz \<le> unat (isize (inodes ?w i))"
    using n(1,3) by (auto simp: word_less_nat_alt not_less)
  have "fbytes ?w (inodes ?w i) (unat offset) (unat sz) = dat"
    using w len(1) end16 by (intro nth_equalityI) (auto simp: fbytes_def file_written_def)
  then show "file_holds ?w i (unat offset) dat"
    using path_to_node(1) [OF inv' p'] n size end16 w len(1) by (simp add: file_holds_def file_written_def)
qed

lemma read_holds:
  assumes inv: "fs_inv s" and p: "path_to s ts i" and h: "file_holds (view s) i (unat offset) bs"
    and len: "length bs = unat sz" "0 < sz" and fit: "unat offset + unat sz < 2 ^ 31"
  obtains s' where "rufs_read at (abs_path ts) sz offset s = Some (int (unat sz), bs, s')" "fs_inv s'"
    "view s' = with_inode (view s) i (set_atime at (inodes (view s) i))"
proof -
  let ?n = "inodes (view s) i"
  note node = path_to_node [OF inv p]
  have reg: "itype ?n = S_IFREG" and size: "unat offset + unat sz \<le> unat (isize ?n)"
    and end16: "unat offset + unat sz \<le> 16 * BLOCK_SIZE" using h len by (simp_all add: file_holds_def)
  have sz: "0 < unat sz" using len(2) by (simp add: word_less_nat_alt)
  show ?thesis
  proof (cases rule: read_cases [OF inv node(2,1) reg fit, of at])
    case 1
    then show ?thesis using size sz by simp
  next
    case (2 k t)
    have "k = unat sz"
    proof (rule ccontr)
      assume "k \<noteq> unat sz"
      then have lt: "k < unat sz" using 2(5) by simp
      have p': "unat offset + k < 16 * BLOCK_SIZE" using lt end16 by simp
      have "min (unat sz) (unat (isize ?n) - unat offset) = unat sz" using size by (simp add: min_def)
      then have "direct_ptr ?n ! ((unat offset + k) div BLOCK_SIZE) = 0" using 2(6) lt p' by auto
      moreover have "direct_ptr ?n ! ((unat offset + k) div BLOCK_SIZE) \<noteq> 0" using h lt len by (simp add: file_holds_def)
      ultimately show False by simp
    qed
    then show ?thesis using 2(1-3) h len by (intro that [of t]) (simp_all add: file_holds_def)
  qed
qed

text \<open>
  What \<open>rufs_write\<close> stored is what \<open>rufs_read\<close> returns: on a mounted file system, when a write of
  \<open>sz\<close> bytes to a regular file reports \<open>sz\<close>, reading \<open>sz\<close> bytes at that offset through the same path
  gives exactly the bytes written, and every other file still holds its bytes.
\<close>

lemma write_then_read:
  assumes inv: "fs_inv s" and p: "path_to s ts i" "itype (inodes (view s) i) = S_IFREG"
    and len: "length dat = unat sz" "0 < sz" and fit: "unat offset + unat sz < 2 ^ 31"
    and run: "rufs_write mt at (abs_path ts) dat sz offset s = Some (int (unat sz), s')"
  shows "\<exists>s''. rufs_read at' (abs_path ts) sz offset s' = Some (int (unat sz), dat, s'') \<and> fs_inv s'' \<and>
    (\<forall>j q. alive (view s) j \<and> j \<noteq> i \<and> q < 16 * BLOCK_SIZE \<longrightarrow> fbyte (view s'') (inodes (view s'') j) q = fbyte (view s) (inodes (view s) j) q)"
proof -
  let ?v = "view s" and ?w = "view s'"
  note h = write_holds [OF assms]
  have c: "core ?v" and i: "alive ?v i" using fs_invD(2) [OF inv] path_to_node(1) [OF inv p(1)] by simp_all
  obtain n where n: "inodes ?w = (inodes ?v)(i := n)" using h(4) by (auto simp: file_written_def)
  obtain t where t: "rufs_read at' (abs_path ts) sz offset s' = Some (int (unat sz), dat, t)" "fs_inv t"
    "view t = with_inode ?w i (set_atime at' (inodes ?w i))" by (rule read_holds [OF h(1,2,3) len fit])
  have "fbyte (view t) (inodes (view t) j) q = fbyte ?v (inodes ?v j) q"
    if j: "alive ?v j" "j \<noteq> i" "q < 16 * BLOCK_SIZE" for j q
  proof -
    have "fbyte (view t) (inodes (view t) j) q = fbyte ?w (inodes ?v j) q" using t(3) n j(2) by simp
    also have "\<dots> = fbyte ?v (inodes ?v j) q"
      using h(4) by (intro fbyte_kept [OF c j(1) i j(2,3)]) (simp add: file_written_def)
    finally show ?thesis .
  qed
  then show ?thesis using t(1,2) by auto
qed

lemma sample_write:
  obtains s i s' where "fs_inv s" "path_to s [[97]] i" "itype (inodes (view s) i) = S_IFREG"
    "rufs_write 7 8 (abs_path [[97]]) [1, 2, 3] 3 4095 s = Some (int (unat (3 :: u64)), s')"
proof -
  obtain s i where s: "fs_inv s" "path_to s [[97]] i" "inodes (view s) i = new_file_inode (of_nat i) 5 6"
    "17 \<le> card ({b. data_blk b} - bused (view s))" using one_file_exists by blast
  then have t: "itype (inodes (view s) i) = S_IFREG" by simp
  note n = file_node [OF s(1,2) t]
  have "\<exists>s'. rufs_write 7 8 (abs_path [[97]]) [1, 2, 3] 3 4095 s = Some (int (unat (3 :: u64)), s')"
  proof (cases rule: write_cases [OF s(1) n(1,2) t, of 4095 3 "[1, 2, 3]" 7 8])
    case (3 r s')
    then have "bused (view s') = {b. data_blk b}" using cut_short_why [OF 3(4)] by (simp add: fs_consts)
    then have "card ({b. data_blk b} - bused (view s)) \<le> 16" using 3(3) by (simp add: touched_def)
    then show ?thesis using s(4) by simp
  qed simp_all
  then show ?thesis using that [OF s(1,2) t] by blast
qed

lemma write_then_read_witness:
  "\<exists>s s' s''. rufs_write 7 8 (abs_path [[97]]) [1, 2, 3] 3 4095 s = Some (3, s') \<and>
    rufs_read 9 (abs_path [[97]]) 3 4095 s' = Some (3, [1, 2, 3], s'')"
proof -
  obtain s i s' where s: "fs_inv s" "path_to s [[97]] i" "itype (inodes (view s) i) = S_IFREG"
    and w: "rufs_write 7 8 (abs_path [[97]]) [1, 2, 3] 3 4095 s = Some (int (unat (3 :: u64)), s')" by (rule sample_write)
  from write_then_read [OF s _ _ _ w, of 9] w show ?thesis by auto
qed

section \<open>Writes that stop early\<close>

lemma touched_path:
  assumes inv: "fs_inv s" and t: "touched (view s) i (view s')" and i: "alive (view s) i" "\<not> is_dir (inodes (view s) i)"
  shows "paths_kept s s'"
proof (rule paths_keptI [OF inv])
  fix j assume j: "alive (view s) j" "is_dir (inodes (view s) j)"
  then have "j \<noteq> i" using i(2) by metis
  then show "dmap (view s) j \<subseteq>\<^sub>m dmap (view s') j \<and> is_dir (inodes (view s') j)"
    using touched_dmap [OF fs_invD(2) [OF inv] t i(1) j(1)] j(2) t by (simp add: touched_def)
qed

text \<open>
  C36. A write that crosses the 64 KiB a file can hold reports the bytes up to the limit, but the
  return from inside the loop skips the update of the inode: the inode table is unchanged, so the
  size does not grow, no block taken is recorded, and reading at or past the old end of the file
  gives nothing. What was reported as written past the end is lost.
\<close>

theorem write_past_limit_lost:
  assumes inv: "fs_inv s" and p: "path_to s ts i" "itype (inodes (view s) i) = S_IFREG"
    and len: "unat sz \<le> length dat" and cross: "unat offset < 16 * BLOCK_SIZE" "16 * BLOCK_SIZE < unat offset + unat sz"
    and fit: "unat offset + unat sz < 2 ^ 43" and free: "17 \<le> card ({b. data_blk b} - bused (view s))"
  shows "\<exists>s'. rufs_write mt at (abs_path ts) dat sz offset s = Some (16 * int BLOCK_SIZE - int (unat offset), s') \<and> fs_inv s' \<and>
    inodes (view s') = inodes (view s) \<and>
    (\<forall>n off. isize (inodes (view s) i) \<le> ucast off \<longrightarrow> rufs_read at' (abs_path ts) n off s' = Some (0, [], s'))"
proof -
  note n = file_node [OF inv p]
  show ?thesis
  proof (cases rule: write_cases [OF inv n(1,2) p(2) fit len, of mt at])
    case (1 r s')
    have "bused (view s') \<noteq> {b. data_blk b}"
    proof
      assume "bused (view s') = {b. data_blk b}"
      then have "card ({b. data_blk b} - bused (view s)) \<le> 16" using 1(3) by (simp add: touched_def)
      then show False using free by simp
    qed
    then have r: "0 < r" "unat offset + nat r = 16 * BLOCK_SIZE" using 1(4) cross(1) by (auto simp: cut_short_def)
    then have "r = 16 * int BLOCK_SIZE - int (unat offset)" by linarith
    moreover have e: "inodes (view s') = inodes (view s)" using 1(3) by (simp add: touched_def)
    moreover have "path_to s' ts i" using touched_path [OF inv 1(3) n(2,3)] p(1) by (simp add: paths_kept_def)
    then have "node_at s' (abs_path ts) = Some (Some (inodes (view s) i))" using path_to_node(2) [OF 1(2)] e by simp
    then have "\<forall>n off. isize (inodes (view s) i) \<le> ucast off \<longrightarrow> rufs_read at' (abs_path ts) n off s' = Some (0, [], s')"
      using p(2) by (simp add: rufs_read_def)
    ultimately show ?thesis using 1(1,2) by blast
  next
    case (2 s')
    then have "sz = 0 \<or> unat offset + unat sz \<le> 16 * BLOCK_SIZE" by (simp add: file_written_def)
    then show ?thesis using cross by auto
  qed
qed

lemma write_past_limit_lost_witness:
  "\<exists>s s'. rufs_write 7 8 (abs_path [[97]]) (replicate 70000 1) 70000 0 s = Some (65536, s') \<and>
    rufs_read 9 (abs_path [[97]]) 70000 0 s' = Some (0, [], s')"
proof -
  obtain s i where s: "fs_inv s" "path_to s [[97]] i" "inodes (view s) i = new_file_inode (of_nat i) 5 6"
    "17 \<le> card ({b. data_blk b} - bused (view s))" using one_file_exists by blast
  then have t: "itype (inodes (view s) i) = S_IFREG" by simp
  from write_past_limit_lost [OF s(1,2) t _ _ _ _ s(4), of 70000 "replicate 70000 1" 0 7 8 9] s(3)
  show ?thesis by (auto simp: fs_consts)
qed

end
