(* ===== verification/FsSteps.thy ===== *)
theory FsSteps
  imports FsFiles
begin

text \<open>
  The life of a file system: formatted, used through any sequence of the operations of
  \<open>project4/rufs.c\<close>, unmounted and mounted again by a new process. Every state it reaches keeps the
  invariant, and a path that leads somewhere never stops leading there.
\<close>

section \<open>Mounting again\<close>

text \<open>
  The process ends after \<open>rufs_destroy\<close>; the next one starts with its static variables at their
  initial values, \<open>diskfile\<close> at -1, and with the same file.
\<close>

definition next_process :: "superblock \<Rightarrow> fs \<Rightarrow> fs" where
  "next_process x s = (rufs_destroy s)\<lparr>diskfile := -1, fd_open := False, sb := x\<rparr>"

lemma view_same_disk:
  assumes "dev_ok s" "dev_ok s'" "disk s' = disk s"
  shows "view s' = view s"
proof -
  have r: "bio_read s' = bio_read s" using assms by (auto simp: bio_read_def dev_ok_def fun_eq_iff)
  have "blk s' = blk s" "inode_of s' = inode_of s"
    by (simp_all add: fun_eq_iff blk_def inode_of_def bio.slot_def r)
  then show ?thesis by (simp add: view_def ino_used_def blk_used_def cong: if_cong)
qed

lemma remount:
  assumes inv: "fs_inv s" and ex: "disk_exists s" and fd: "0 \<le> fd"
  obtains s' where "rufs_init fd fd' m a (next_process x s) = Some s'" "fs_inv s'" "view s' = view s" "disk_exists s'"
proof -
  let ?u = "s\<lparr>diskfile := fd, fd_open := True, sb := x\<rparr>"
  let ?w = "s\<lparr>diskfile := fd, fd_open := True, sb := formatted_sb\<rparr>"
  have ok: "dev_ok s" using fs_invD(1) [OF inv] by (simp add: disk_ok_def)
  have op: "dev_open fd (next_process x s) = (0, ?u)"
    using fd ex by (simp add: dev_open_def next_process_def rufs_destroy_def dev_close_def)
  have oku: "dev_ok ?u" "dev_ok ?w" using ok fd by (simp_all add: dev_ok_def)
  have v: "view ?u = view s" "view ?w = view s"
    using view_same_disk [OF ok oku(1)] view_same_disk [OF ok oku(2)] by simp_all
  have "dec_superblock (bio_read ?u 0) = super (view ?u)" by (simp add: view_def blk_def)
  also have "\<dots> = formatted_sb" using fs_invD(2) [OF inv] by (simp add: v core_def)
  finally have "rufs_init fd fd' m a (next_process x s) = Some ?w"
    using ex op by (simp add: rufs_init_def next_process_def rufs_destroy_def dev_close_def formatted_sb_def MAGIC_NUM_def)
  moreover have "fs_inv ?w" using inv oku(2) v(2) by (simp add: fs_inv_def disk_ok_def)
  ultimately show ?thesis using v(2) ex by (intro that [of ?w]) simp_all
qed

text \<open>
  C23. Mounting a disk again brings back the file system that was unmounted: whatever the new
  process holds in its superblock variable, \<open>rufs_init\<close> finds the magic number, does not format,
  and the inodes, the bitmaps and the data blocks are those that were there.
\<close>

theorem remount_keeps:
  assumes "fs_inv s" "disk_exists s" "0 \<le> fd"
  shows "\<exists>s'. rufs_init fd fd' m a (next_process x s) = Some s' \<and> fs_inv s' \<and> view s' = view s"
  using remount [OF assms] by metis

lemma remount_keeps_witness:
  "\<exists>s s'. fs_inv s \<and> rufs_init 3 3 5 6 (next_process formatted_sb s) = Some s' \<and> view s' = view s"
proof -
  obtain s where s: "fs_inv s" using fresh_exists by blast
  let ?s = "s\<lparr>disk_exists := True\<rparr>"
  have ok: "disk_ok s" "disk_ok ?s" using fs_invD(1) [OF s] by (simp_all add: disk_ok_def dev_ok_def)
  then have "view ?s = view s" using view_same_disk [of s ?s] by (simp add: disk_ok_def)
  then have "fs_inv ?s" using s ok by (simp add: fs_inv_def)
  from remount_keeps [OF this, of 3 3 5 6 formatted_sb] this show ?thesis by auto
qed

section \<open>Each operation keeps the invariant\<close>

text \<open>A read changes the access time of one file at most.\<close>

lemma read_inode:
  assumes inv: "fs_inv s" and run: "rufs_read at path sz offset s = Some (r, out, s')"
  shows "s' = s \<or> (\<exists>i. alive (view s) i \<and> \<not> is_dir (inodes (view s) i) \<and> fs_inv s' \<and>
    view s' = with_inode (view s) i (set_atime at (inodes (view s) i)))"
proof (cases "s' = s")
  case False
  obtain node where node: "node_at s path = Some node" using run by (auto simp: rufs_read_def bind_eq_Some_conv)
  then obtain n where n: "node = Some n" using run False by (cases node) (simp_all add: rufs_read_def)
  from node_at_alive [OF fs_invD(1,4) [OF inv] node [unfolded n]]
  obtain i where i: "alive (view s) i" "n = inodes (view s) i" by blast
  have reg: "itype n = S_IFREG" using run node n False by (simp add: rufs_read_def split: if_splits)
  then have nd: "\<not> is_dir (inodes (view s) i)" using i(2) IFREG_not_dir by (simp add: is_dir_def)
  have st: "store_inv (view s)" and c: "core (view s)" using inv by (simp_all add: fs_inv_def store_inv_def)
  have sh: "inode_shape (set_atime at n)" using coreD(1) [OF c, of i] i(2) by simp
  obtain t where t: "writei (ino (set_atime at n)) (set_atime at n) s = (0, t)" "fs_inv t"
    "view t = with_inode (view s) i (set_atime at n)"
    by (rule finish_file [OF st i(1) nd writing_start [OF fs_invD(1) [OF inv] c] sh]) (simp_all add: i(2))
  have "s' = t" using run node n False reg t(1)
    by (auto simp: rufs_read_def bind_eq_Some_conv Let_def split: if_splits)
  then show ?thesis using t(2,3) i nd by blast
qed simp

lemma read_kept:
  assumes inv: "fs_inv s" and run: "rufs_read at path sz offset s = Some (r, out, s')"
  shows "fs_inv s'" "paths_kept s s'"
proof -
  have "fs_inv s' \<and> paths_kept s s'"
    using read_inode [OF assms]
  proof
    assume "s' = s"
    then show ?thesis using inv by (simp add: paths_kept_def)
  next
    assume "\<exists>i. alive (view s) i \<and> \<not> is_dir (inodes (view s) i) \<and> fs_inv s' \<and>
      view s' = with_inode (view s) i (set_atime at (inodes (view s) i))"
    then obtain i where i: "alive (view s) i" "\<not> is_dir (inodes (view s) i)" "fs_inv s'"
      "view s' = with_inode (view s) i (set_atime at (inodes (view s) i))" by blast
    have "paths_kept s s'"
    proof (rule paths_keptI [OF inv])
      fix j assume j: "alive (view s) j" "is_dir (inodes (view s) j)"
      then have "j \<noteq> i" using i(2) by metis
      then show "dmap (view s) j \<subseteq>\<^sub>m dmap (view s') j \<and> is_dir (inodes (view s') j)"
        using j(2) dmap_cong [of "view s'" j "view s"] by (simp add: i(4))
    qed
    then show ?thesis using i(3) by simp
  qed
  then show "fs_inv s'" "paths_kept s s'" by simp_all
qed

text \<open>A write changes one regular file at most.\<close>

lemma write_inode:
  assumes inv: "fs_inv s" and run: "rufs_write m a path dat sz offset s = Some (r, s')"
    and fit: "unat offset + unat sz < 2 ^ 43" and len: "unat sz \<le> length dat"
  obtains (same) "s' = s"
  | (changed) i where "alive (view s) i" "\<not> is_dir (inodes (view s) i)" "node_at s path = Some (Some (inodes (view s) i))"
      "fs_inv s'" "touched (view s) i (view s') \<or> file_written (view s) i offset sz dat (view s')"
proof (cases "s' = s")
  case False
  obtain node where node: "node_at s path = Some node" using run by (auto simp: rufs_write_def bind_eq_Some_conv)
  then obtain n where n: "node = Some n" using run False by (cases node) (simp_all add: rufs_write_def)
  from node_at_alive [OF fs_invD(1,4) [OF inv] node [unfolded n]]
  obtain i where i: "alive (view s) i" "n = inodes (view s) i" by blast
  have reg: "itype (inodes (view s) i) = S_IFREG"
    using run node n False i(2) by (simp add: rufs_write_def split: if_splits)
  then have nd: "\<not> is_dir (inodes (view s) i)" using IFREG_not_dir by (simp add: is_dir_def)
  have at: "node_at s path = Some (Some (inodes (view s) i))" using node n i(2) by simp
  show ?thesis
    by (cases rule: write_cases [OF inv at i(1) reg fit len, of m a]) (use run in \<open>auto intro: changed [OF i(1) nd at]\<close>)
qed (rule same)

lemma write_kept:
  assumes "fs_inv s" "rufs_write m a path dat sz offset s = Some (r, s')"
    and "unat offset + unat sz < 2 ^ 43" "unat sz \<le> length dat"
  shows "fs_inv s'" "paths_kept s s'"
proof -
  have "fs_inv s' \<and> paths_kept s s'"
  proof (cases rule: write_inode [OF assms])
    case 1
    then show ?thesis using assms(1) by (simp add: paths_kept_def)
  next
    case (2 i)
    from 2(5) show ?thesis
    proof
      assume "touched (view s) i (view s')"
      then show ?thesis using touched_path [OF assms(1) _ 2(1,2)] 2(4) by simp
    next
      assume w: "file_written (view s) i offset sz dat (view s')"
      have "path_to s' ts j" if "path_to s ts j" for ts j by (rule written_path [OF assms(1) 2(4) w 2(1,2) that])
      then show ?thesis using 2(4) by (simp add: paths_kept_def)
    qed
  qed
  then show "fs_inv s'" "paths_kept s s'" by simp_all
qed

lemma create_kept:
  assumes inv: "fs_inv s" and nm: "name_ok (basename (take (PATH_MAX - 1) path))"
    and run: "rufs_create m a path s = Some (r, s')"
  shows "fs_inv s'" "paths_kept s s'"
  using create_cases [OF inv nm run] leaked_fs_inv [OF inv] leaked_kept(1) [OF inv] node_made_kept(1) [OF inv]
  by metis+

lemma mkdir_kept:
  assumes inv: "fs_inv s" and nm: "name_ok (basename (take (PATH_MAX - 1) path))"
    and run: "rufs_mkdir m a path s = Some (r, s')"
  shows "fs_inv s'" "paths_kept s s'"
  using mkdir_cases [OF inv nm run] leaked_fs_inv [OF inv] leaked_kept(1) [OF inv] node_made_kept(1) [OF inv]
  by metis+

section \<open>The steps of a file system\<close>

text \<open>
  One call of an operation, with these bounds on its arguments: the last component of a new name
  holds no NUL and at most 208 bytes, a buffer is as long as the call says, and a write stays below 8 TiB.
\<close>

inductive fs_step :: "fs \<Rightarrow> fs \<Rightarrow> bool" where
  mkdir: "name_ok (basename (take (PATH_MAX - 1) path)) \<Longrightarrow> rufs_mkdir m a path s = Some (r, s') \<Longrightarrow> fs_step s s'"
| create: "name_ok (basename (take (PATH_MAX - 1) path)) \<Longrightarrow> rufs_create m a path s = Some (r, s') \<Longrightarrow> fs_step s s'"
| read_file: "rufs_read a path sz offset s = Some (r, out, s') \<Longrightarrow> fs_step s s'"
| write_file: "unat offset + unat sz < 2 ^ 43 \<Longrightarrow> unat sz \<le> length dat \<Longrightarrow>
    rufs_write m a path dat sz offset s = Some (r, s') \<Longrightarrow> fs_step s s'"
| rmdir: "rufs_rmdir path s = (r, s') \<Longrightarrow> fs_step s s'"
| unlink: "rufs_unlink path s = (r, s') \<Longrightarrow> fs_step s s'"
| truncate: "rufs_truncate path sz s = (r, s') \<Longrightarrow> fs_step s s'"
| release: "rufs_release path s = (r, s') \<Longrightarrow> fs_step s s'"
| releasedir: "rufs_releasedir path s = (r, s') \<Longrightarrow> fs_step s s'"
| flush: "rufs_flush path s = (r, s') \<Longrightarrow> fs_step s s'"
| utimens: "rufs_utimens path s = (r, s') \<Longrightarrow> fs_step s s'"
| restart: "disk_exists s \<Longrightarrow> 0 \<le> fd \<Longrightarrow> rufs_init fd fd' m a (next_process x s) = Some s' \<Longrightarrow> fs_step s s'"

lemma paths_kept_refl: "paths_kept s s"
  by (simp add: paths_kept_def)

lemma fs_step_kept:
  assumes "fs_step s s'" "fs_inv s"
  shows "fs_inv s' \<and> paths_kept s s'"
  using assms
proof (induction rule: fs_step.induct)
  case (restart s fd fd' m a x s')
  from remount [OF restart.prems restart.hyps(1,2)]
  obtain t where "rufs_init fd fd' m a (next_process x s) = Some t" "fs_inv t" "view t = view s" by metis
  then show ?case using restart.hyps(3) by (simp add: paths_kept_def path_to_def)
next
  case mkdir
  then show ?case using mkdir_kept by blast
next
  case create
  then show ?case using create_kept by blast
next
  case read_file
  then show ?case using read_kept by blast
next
  case write_file
  then show ?case using write_kept by blast
qed (simp_all add: stub_ops paths_kept_refl)

text \<open>The states of a file system formatted on a device that can be opened.\<close>

inductive fs_reachable :: "fs \<Rightarrow> bool" where
  format: "openable fd s \<Longrightarrow> rufs_mkfs fd m a s = Some (r, s') \<Longrightarrow> fs_reachable s'"
| step: "fs_reachable s \<Longrightarrow> fs_step s s' \<Longrightarrow> fs_reachable s'"

inductive fs_run :: "fs \<Rightarrow> fs \<Rightarrow> bool" where
  refl: "fs_run s s"
| step: "fs_run s t \<Longrightarrow> fs_step t u \<Longrightarrow> fs_run s u"

lemma reachable_fs_inv: "fs_reachable s \<Longrightarrow> fs_inv s"
proof (induction rule: fs_reachable.induct)
  case (format fd s m a r s')
  then show ?case using mkfs_formats [OF format.hyps(1), of m a] by auto
next
  case (step s s')
  then show ?case using fs_step_kept by blast
qed

lemma fs_run_kept: "fs_run s u \<Longrightarrow> fs_inv s \<Longrightarrow> fs_inv u \<and> paths_kept s u"
proof (induction rule: fs_run.induct)
  case (refl s)
  then show ?case by (simp add: paths_kept_refl)
next
  case (step s t u)
  then show ?case using fs_step_kept [OF step.hyps(2)] by (auto simp: paths_kept_def)
qed

text \<open>
  C22. Formatting a device that can be opened succeeds and gives the empty file system: only inode 0
  is in use, it is a directory with . and .. as its entries, one data block is in use, and the
  invariant holds.
\<close>

theorem mkfs_establishes:
  assumes "openable fd s"
  shows "\<exists>s'. rufs_mkfs fd m a s = Some (0, s') \<and> fs_inv s' \<and> formatted m a (view s')"
  using mkfs_formats [OF assms, of m a] by metis

lemma mkfs_establishes_witness:
  "\<exists>s'. rufs_mkfs 3 5 6 blank_disk = Some (0, s') \<and> fs_inv s' \<and> inodes (view s') 0 = root_inode 5 6"
proof -
  have "openable 3 blank_disk" by (simp add: openable_def blank_disk_def)
  from mkfs_establishes [OF this, of 5 6] show ?thesis by (auto simp: formatted_def)
qed

text \<open>
  C6. Every state a file system reaches keeps the invariant: from formatting on, through calls of the
  operations within the bounds of \<open>fs_step\<close> (new names of at most 208 bytes, writes that end below \<open>2 ^ 43\<close>) and any
  number of mounts, every directory entry in use leads to a valid inode,
  every valid inode is marked in the bitmap and holds its own number, no data block belongs to two
  files, every block in use lies in the data area, and the superblock is intact. A longer name breaks
  it: it overwrites the inode number of the next entry (\<open>long_name_overwrites\<close>).
\<close>

theorem reachable_inv:
  assumes "fs_reachable s"
  shows "disk_ok s \<and> core (view s) \<and> dirs {i. alive (view s) i} (view s) \<and> alive (view s) 0 \<and> is_dir (inodes (view s) 0)"
  using reachable_fs_inv [OF assms] by (simp add: fs_inv_def store_inv_def)

lemma reachable_file: "\<exists>s i. fs_reachable s \<and> path_to s [[97]] i \<and> inodes (view s) i = new_file_inode (of_nat i) 5 6"
proof -
  obtain s where s: "rufs_mkfs 3 0 0 blank_disk = Some (0, s)" "fs_inv s" "formatted 0 0 (view s)"
    using fresh_exists by blast
  have "openable 3 blank_disk" by (simp add: openable_def blank_disk_def)
  then have r: "fs_reachable s" using s(1) by (rule fs_reachable.format)
  obtain i s' where c: "rufs_create 5 6 (abs_path [[97]]) s = Some (0, s')" "path_to s' [[97]] i"
    "inodes (view s') i = new_file_inode (of_nat i) 5 6" using create_fresh [OF s(2,3)] by metis
  have "name_ok (basename (take (PATH_MAX - 1) (abs_path [[97]])))"
    using name_at [OF one_name(1-3)] by (simp only: append_Nil)
  then have "fs_step s s'" using c(1) by (rule fs_step.create)
  then show ?thesis using fs_reachable.step [OF r] c(2,3) by metis
qed

lemma reachable_inv_witness:
  "\<exists>s i. path_to s [[97]] i \<and> core (view s) \<and> dirs {i. alive (view s) i} (view s)"
proof -
  obtain s i where s: "fs_reachable s" "path_to s [[97]] i" using reachable_file by blast
  from reachable_inv [OF s(1)] s(2) show ?thesis by blast
qed

text \<open>
  C21. A path never stops leading where it leads: from a reachable state on, whatever operations
  follow within the bounds of \<open>fs_step\<close>, the path finds the same inode, and \<open>get_node_by_path\<close> returns that inode's contents.
\<close>

theorem paths_stay:
  assumes s: "fs_reachable s" and p: "path_to s ts i" and run: "fs_run s s'"
  shows "path_to s' ts i \<and> get_node_by_path s' (abs_path ts) 0 = Some (0, Some (inodes (view s') i))"
proof -
  have "fs_inv s' \<and> paths_kept s s'" by (rule fs_run_kept [OF run reachable_fs_inv [OF s]])
  then show ?thesis using p path_to_node(3) [of s' ts i] by (simp add: paths_kept_def)
qed

lemma paths_stay_witness:
  "\<exists>s s' i. rufs_unlink (abs_path [[97]]) s = (0, s') \<and>
    get_node_by_path s' (abs_path [[97]]) 0 = Some (0, Some (new_file_inode (of_nat i) 5 6))"
proof -
  obtain s i where s: "fs_reachable s" "path_to s [[97]] i" "inodes (view s) i = new_file_inode (of_nat i) 5 6"
    using reachable_file by blast
  have u: "rufs_unlink (abs_path [[97]]) s = (0, s)" by (simp add: rufs_unlink_def)
  have "fs_run s s" using fs_run.step [OF fs_run.refl fs_step.unlink [OF u]] .
  from paths_stay [OF s(1,2) this] s(3) u show ?thesis by auto
qed

end
