(* ===== verification/FsLimits.thy ===== *)
theory FsLimits
  imports FsSteps
begin

text \<open>
  The bounds the file system keeps to, and a bound it does not check: what the allocators give out,
  what adding an entry does to a directory, and what a name longer than its field overwrites.
\<close>

section \<open>The allocators\<close>

text \<open>
  C24. \<open>get_avail_blkno\<close> gives out the first free block of the data area, blocks 67 to 8191, marks it
  and marks nothing else; it answers -1, and writes nothing, exactly when no block is free.
  \<open>get_avail_ino\<close> likewise with the first free inode number below 1024.
\<close>

theorem allocators_in_range:
  assumes ok: "disk_ok s"
  shows "\<exists>r s' q t. get_avail_blkno s = Some (r, s') \<and> get_avail_ino s = Some (q, t) \<and> disk_ok s' \<and> disk_ok t \<and>
    (if bused (view s) = {b. data_blk b} then r = -1 \<and> s' = s
     else \<exists>b. r = int b \<and> 67 \<le> b \<and> b < 8192 \<and> b \<notin> bused (view s) \<and> (\<forall>c. 67 \<le> c \<and> c < b \<longrightarrow> c \<in> bused (view s)) \<and>
       view s' = (view s)\<lparr>bused := insert b (bused (view s))\<rparr>) \<and>
    (if {..<1024} \<subseteq> iused (view s) then q = -1 \<and> t = s
     else \<exists>i. q = int i \<and> i < 1024 \<and> i \<notin> iused (view s) \<and> (\<forall>j<i. j \<in> iused (view s)) \<and>
       view t = (view s)\<lparr>iused := insert i (iused (view s))\<rparr>)"
proof -
  have b: "\<exists>r s'. get_avail_blkno s = Some (r, s') \<and> disk_ok s' \<and>
    (if bused (view s) = {b. data_blk b} then r = -1 \<and> s' = s
     else \<exists>b. r = int b \<and> 67 \<le> b \<and> b < 8192 \<and> b \<notin> bused (view s) \<and> (\<forall>c. 67 \<le> c \<and> c < b \<longrightarrow> c \<in> bused (view s)) \<and>
       view s' = (view s)\<lparr>bused := insert b (bused (view s))\<rparr>)"
  proof (cases rule: view_get_avail_blkno [OF ok])
    case 1
    then show ?thesis using ok by simp
  next
    case (2 b s')
    then have "bused (view s) \<noteq> {b. data_blk b}" by auto
    then show ?thesis using 2 by (auto simp: data_blk_def)
  qed
  have i: "\<exists>q t. get_avail_ino s = Some (q, t) \<and> disk_ok t \<and>
    (if {..<1024} \<subseteq> iused (view s) then q = -1 \<and> t = s
     else \<exists>i. q = int i \<and> i < 1024 \<and> i \<notin> iused (view s) \<and> (\<forall>j<i. j \<in> iused (view s)) \<and>
       view t = (view s)\<lparr>iused := insert i (iused (view s))\<rparr>)"
  proof (cases rule: view_get_avail_ino [OF ok])
    case 1
    then show ?thesis using ok by simp
  next
    case (2 i t)
    then have "\<not> {..<1024} \<subseteq> iused (view s)" by auto
    then show ?thesis using 2 by simp
  qed
  show ?thesis using b i by blast
qed

lemma allocators_in_range_witness: "\<exists>s s'. get_avail_blkno s = Some (68, s') \<and> disk_ok s'"
proof -
  obtain s where s: "fs_inv s" "formatted 0 0 (view s)" using fresh_exists by blast
  note f = formatted_root(5,7) [OF s]
  from allocators_in_range [OF fs_invD(1) [OF s(1)]] f(2)
  obtain b s' where b: "get_avail_blkno s = Some (int b, s')" "disk_ok s'" "67 \<le> b" "b \<notin> {67}"
    "\<forall>c. 67 \<le> c \<and> c < b \<longrightarrow> c \<in> {67}" unfolding f(1) by (smt (verit))
  have "\<not> 68 < b" using spec [OF b(5), of 68] by simp
  then have "b = 68" using b(3,4) by simp
  then show ?thesis using b(1,2) by auto
qed

section \<open>Adding an entry\<close>

text \<open>
  C14. \<open>dir_add\<close> refines the update of a finite map: the directory gains exactly the binding of the
  name to the inode number, or -EEXIST says the name is bound and nothing changes, or -ENOSPC says
  the directory is full and every directory is as it was.
\<close>

theorem dir_add_is_update:
  assumes inv: "fs_inv s" and a: "alive (view s) d" "is_dir (inodes (view s) d)" and nm: "name_ok nm"
  shows "\<exists>r s'. dir_add (inodes (view s) d) f nm s = Some (r, s') \<and> disk_ok s' \<and>
    (if dmap (view s) d nm \<noteq> None then r = -EEXIST \<and> s' = s
     else r = 0 \<and> dmap (view s') d = (dmap (view s) d)(nm \<mapsto> f) \<and>
         (\<forall>j. alive (view s) j \<and> j \<noteq> d \<longrightarrow> inodes (view s') j = inodes (view s) j \<and> dmap (view s') j = dmap (view s) j) \<or>
       r = -ENOSPC \<and> dir_full (view s) d \<and> inodes (view s') = inodes (view s) \<and>
         (\<forall>j. alive (view s) j \<longrightarrow> dmap (view s') j = dmap (view s) j))"
proof -
  note i = fs_invD [OF inv]
  show ?thesis
  proof (cases rule: dir_add_cases [OF i(1-3) a nm, of f])
    case (1 k)
    then show ?thesis using i(1) by simp
  next
    case (2 s')
    then obtain u where u: "view s' = (view s)\<lparr>bused := u\<rparr>" by blast
    then have "dmap (view s') j = dmap (view s) j" for j by (intro dmap_cong) simp_all
    then show ?thesis using 2 u by simp
  next
    case (3 s')
    have same: "inodes (view s') j = inodes (view s) j" "dmap (view s') j = dmap (view s) j"
      if j: "alive (view s) j" "j \<noteq> d" for j
    proof -
      show e: "inodes (view s') j = inodes (view s) j" using 3(6) j(2) by (auto simp: entry_added_def)
      have "data (view s') b = data (view s) b" if "b \<in> owned (inodes (view s) j)" for b
        using that 3(6) coreD(4) [OF i(2) j(1)] coreD(8) [OF i(2) j(1) a(1) j(2) that] by (auto simp: entry_added_def)
      then show "dmap (view s') j = dmap (view s) j" using e by (intro dmap_cong) simp_all
    qed
    have "dmap (view s') d = (dmap (view s) d)(nm \<mapsto> f)" using 3(6) by (auto simp: entry_added_def fun_eq_iff)
    then show ?thesis using 3(1-3) same by simp
  qed
qed

lemma dir_add_is_update_witness:
  "\<exists>s s'. dir_add (inodes (view s) 0) 9 [97] s = Some (0, s') \<and> dmap (view s') 0 [97] = Some 9"
proof -
  obtain s where s: "fs_inv s" "formatted 0 0 (view s)" using fresh_exists by blast
  note f = formatted_root [OF s]
  have nm: "name_ok [97]" by (simp add: name_ok_def fs_consts)
  have "\<exists>s'. dir_add (inodes (view s) 0) 9 [97] s = Some (0, s') \<and> dmap (view s') 0 [97] = Some 9"
    using dir_add_is_update [OF s(1) fs_invD(4) [OF s(1)] f(2) nm, of 9] f(3) [of "[97]"] f(8) one_name(4,5) by auto
  then show ?thesis by blast
qed

section \<open>Names longer than the field\<close>

lemma chunk_in_splice:
  assumes "off + length src \<le> length buf" "a + n \<le> length src"
  shows "chunk (off + a) n (splice_at buf off src) = chunk a n src"
  using assms by (intro nth_equalityI) (auto simp: chunk_def nth_splice_at)

text \<open>
  C37. \<open>dir_add\<close> copies the name without comparing its length with the 208 bytes of the field: a
  name of 212 to 255 bytes overwrites the length of its own entry, which no longer equals the length
  of the name, so \<open>dir_find\<close> never finds the entry; and the inode number of the next entry becomes
  two bytes of the name.
\<close>

theorem long_name_overwrites:
  assumes len: "length buf = BLOCK_SIZE" and k: "Suc k < DIRENTS_PER_BLOCK"
    and nm: "212 \<le> length nm" "length nm \<le> 255" "0 \<notin> set nm"
  shows "\<exists>buf'. fill_ent buf k f nm = Some buf' \<and> unat (ent_len buf' k) \<noteq> length nm \<and> \<not> ent_is buf' nm k \<and>
    ent_ino buf' (Suc k) = of_nat (unat (nm ! 210) + 256 * unat (nm ! 211))"
proof -
  let ?e = "DIRENT_SIZE * k"
  define b where "b = splice_at (splice_at (splice_at (splice_at buf (?e + 2) (enc16 1)) ?e (enc16 f))
      (?e + 212) (enc16 (of_nat (length nm)))) (?e + 4) (replicate NAME_SIZE 0)"
  have e: "?e + 4 + 255 \<le> BLOCK_SIZE" "?e + 4 + NAME_SIZE \<le> BLOCK_SIZE" "?e + 214 \<le> BLOCK_SIZE"
    using k by (simp_all add: fs_consts)
  have bl: "length b = BLOCK_SIZE" using len e by (simp add: b_def enc16_def)
  have fit: "?e + 4 + length nm \<le> length b" using bl e nm(2) by simp
  let ?b = "splice_at b (?e + 4) nm"
  have run: "fill_ent buf k f nm = Some ?b" using fit unfolding b_def by (simp add: fill_ent_def Let_def)
  have two: "chunk a 2 nm = [nm ! a, nm ! Suc a]" if "a + 2 \<le> length nm" for a
    using that by (intro nth_equalityI) (auto simp: chunk_def less_Suc_eq numeral_2_eq_2)
  have "chunk (?e + 4 + 208) 2 ?b = chunk 208 2 nm" "chunk (?e + 4 + 210) 2 ?b = chunk 210 2 nm"
    using fit nm(1) by (intro chunk_in_splice; simp)+
  then have c: "chunk (?e + 212) 2 ?b = [nm ! 208, nm ! 209]" "chunk (?e + 214) 2 ?b = [nm ! 210, nm ! 211]"
    using two [of 208] two [of 210] nm(1) by (simp_all add: add.assoc)
  have "nm ! 209 \<in> set nm" using nm(1) by (intro nth_mem) simp
  then have "nm ! 209 \<noteq> 0" using nm(3) by metis
  then have hi: "1 \<le> unat (nm ! 209)" by (simp add: Suc_le_eq unat_gt_0)
  have u8: "unat x < 256" for x :: u8 using unsigned_less [of x] by simp
  have "unat (ent_len ?b k) = unat (nm ! 208) + 256 * unat (nm ! 209)"
  proof -
    have "unat (nm ! 208) + 256 * unat (nm ! 209) < 2 ^ 16" using u8 [of "nm ! 208"] u8 [of "nm ! 209"] by simp
    moreover have "ent_len ?b k = of_nat (unat (nm ! 208) + 256 * unat (nm ! 209))"
      by (simp add: ent_len_def u16_at_def c(1))
    ultimately show ?thesis by (simp only: unat_of_nat) simp
  qed
  then have ne: "unat (ent_len ?b k) \<noteq> length nm" using hi nm(2) by linarith
  have "ent_ino ?b (Suc k) = of_nat (unat (nm ! 210) + 256 * unat (nm ! 211))"
    using c(2) by (simp add: ent_ino_def u16_at_def DIRENT_SIZE_def add.commute)
  then show ?thesis using run ne by (auto simp: ent_is_def)
qed

lemma long_name_overwrites_witness:
  "\<exists>buf'. fill_ent zeros 0 5 (replicate 212 97) = Some buf' \<and> \<not> ent_is buf' (replicate 212 97) 0 \<and> ent_ino buf' 1 = 24929"
proof -
  have "Suc 0 < DIRENTS_PER_BLOCK" by (simp add: fs_consts)
  from long_name_overwrites [OF _ this, of zeros "replicate 212 97" 5] show ?thesis
    by auto
qed

section \<open>A read beyond the bounds\<close>

text \<open>
  C38. An offset of 16 TiB makes \<open>rufs_read\<close> write past the buffer of the caller: only the low 32 bits of
  the offset are compared with the size of the file, the number of bytes to read becomes the size
  less the whole offset, which wraps to almost \<open>2^64\<close>, and the block index wraps to 0, so that a whole
  block is copied whatever the size asked for.
\<close>

theorem read_overflows_buffer:
  assumes inv: "fs_inv s" and p: "path_to s ts i" "itype (inodes (view s) i) = S_IFREG"
    and f: "0 < isize (inodes (view s) i)" "direct_ptr (inodes (view s) i) ! 0 \<noteq> 0" and sz: "sz < 4096"
  shows "rufs_read at (abs_path ts) sz 17592186044416 s = None"
proof -
  let ?n = "inodes (view s) i" and ?o = "17592186044416 :: u64"
  note node = file_node [OF inv p]
  have o: "(17592186044416 :: u32) = 0" by simp
  have szn: "unat sz < 4096" using sz by (simp add: word_less_nat_alt)
  have "sint (?o + sz) = 17592186044416 + int (unat sz)"
  proof -
    have "?o + sz = of_nat (17592186044416 + unat sz)" by simp
    moreover have "17592186044416 + unat sz < 2 ^ 63" using szn by simp
    ultimately show ?thesis using sint_of_nat_u64 [of "17592186044416 + unat sz"] by (simp only: of_nat_add of_nat_numeral)
  qed
  moreover have "unat (isize ?n) < 4294967296" using unsigned_less [of "isize ?n"] by simp
  ultimately have big: "int (unat (isize ?n)) < sint (?o + sz)" by linarith
  define l where "l = (ucast (isize ?n) - ?o :: u64)"
  have "unat (ucast (isize ?n) :: u64) = unat (isize ?n)" by simp
  then have "unat l = unat (isize ?n) + 2 ^ 64 - 17592186044416"
    using \<open>unat (isize ?n) < 4294967296\<close> by (simp add: l_def unat_sub_if')
  then have l: "4096 \<le> unat l" by simp
  then have "0 < l" by (simp add: word_less_nat_alt)
  have "file_blk_idx (?o + 0) = 0" "blk_off (?o + 0) = 0" by (simp_all add: file_blk_idx_def blk_off_def BLOCK_SIZE_def)
  moreover have "round_len (?o + 0) (l - 0) = 4096"
    using l by (simp add: round_len_def blk_off_def BLOCK_SIZE_def)
  ultimately have "read_loop s ?n ?o l (unat sz) 0 [] = None"
    using \<open>0 < l\<close> f(2) szn by (simp add: read_loop.simps [of s ?n ?o] Let_def)
  then show ?thesis using node(1) p(2) f(1) big
    by (simp add: rufs_read_def l_def [symmetric] not_le o)
qed

lemma read_overflows_buffer_witness:
  "\<exists>s i. fs_inv s \<and> path_to s [[97]] i \<and> rufs_read 9 (abs_path [[97]]) 10 17592186044416 s = None"
proof -
  obtain s i where s: "fs_inv s" "path_to s [[97]] i" "inodes (view s) i = new_file_inode (of_nat i) 5 6"
    "17 \<le> card ({b. data_blk b} - bused (view s))" using one_file_exists by blast
  then have t: "itype (inodes (view s) i) = S_IFREG" by simp
  note n = file_node [OF s(1,2) t]
  have fit: "unat (0 :: u64) + unat (3 :: u64) < 2 ^ 43" "unat (3 :: u64) \<le> length [1, 2, 3 :: u8]" by simp_all
  obtain s' where s': "fs_inv s'" "file_written (view s) i 0 3 [1, 2, 3] (view s')"
  proof (cases rule: write_cases [OF s(1) n(1,2) t fit, of 7 8])
    case (1 r s')
    then have "bused (view s') = {b. data_blk b}" using cut_short_why [OF 1(4)] by (simp add: fs_consts)
    then have "card ({b. data_blk b} - bused (view s)) \<le> 16" using 1(3) by (simp add: touched_def)
    then show ?thesis using s(4) by simp
  qed (rule that)
  have p: "path_to s' [[97]] i" by (rule written_path [OF s(1) s' n(2,3) s(2)])
  have f: "itype (inodes (view s') i) = S_IFREG" "0 < isize (inodes (view s') i)"
    using s'(2) s(3) by (auto simp: file_written_def)
  have all: "\<forall>p<16 * BLOCK_SIZE. unat (0 :: u64) \<le> p \<and> p < unat (0 :: u64) + unat (3 :: u64) \<longrightarrow>
      direct_ptr (inodes (view s') i) ! (p div BLOCK_SIZE) \<noteq> 0"
    using s'(2) unfolding file_written_def by blast
  have "direct_ptr (inodes (view s') i) ! 0 \<noteq> 0"
    using spec [OF all, of 0] by (simp add: fs_consts)
  from read_overflows_buffer [OF s'(1) p f this, of 10 9] s'(1) p show ?thesis by auto
qed

end
