(* ===== verification/FsCalls.thy ===== *)
theory FsCalls
  imports FsSteps
begin

text \<open>
  The table of operations \<open>rufs_ope\<close> of \<open>project4/rufs.c\<close> as one function, and what runs of any
  of its operations do to the contents of a file that they do not write.
\<close>

section \<open>The table of operations\<close>

text \<open>
  A call with its arguments, and its answer: the code that is returned and what the handler stores
  through a pointer or hands to \<open>filler\<close>. \<open>Remount\<close> is \<open>destroy\<close>, the end of the process, and \<open>init\<close> in
  the next one.
\<close>

datatype fs_call =
    Getattr u32 u32 "u8 list"
  | Readdir "u8 list"
  | Opendir "u8 list"
  | Mkdir u64 u64 "u8 list"
  | Create u64 u64 "u8 list"
  | Open "u8 list"
  | Read u64 "u8 list" u64 u64
  | Write u64 u64 "u8 list" "u8 list" u64 u64
  | Rmdir "u8 list"
  | Releasedir "u8 list"
  | Unlink "u8 list"
  | Truncate "u8 list" u64
  | Flush "u8 list"
  | Utimens "u8 list"
  | Release "u8 list"
  | Remount int int u64 u64 superblock

datatype fs_answer = Code int | Attr int file_stat | Names int "u8 list list" | Bytes int "u8 list"

fun rufs_ope :: "fs_call \<Rightarrow> fs \<Rightarrow> (fs_answer \<times> fs) option" where
  "rufs_ope (Getattr uid gid path) s = do { (r, st) \<leftarrow> rufs_getattr uid gid s path; Some (Attr r st, s) }"
| "rufs_ope (Readdir path) s = do { (r, names) \<leftarrow> rufs_readdir s path; Some (Names r names, s) }"
| "rufs_ope (Opendir path) s = do { r \<leftarrow> rufs_opendir s path; Some (Code r, s) }"
| "rufs_ope (Mkdir m a path) s = do { (r, s) \<leftarrow> rufs_mkdir m a path s; Some (Code r, s) }"
| "rufs_ope (Create m a path) s = do { (r, s) \<leftarrow> rufs_create m a path s; Some (Code r, s) }"
| "rufs_ope (Open path) s = do { r \<leftarrow> rufs_open s path; Some (Code r, s) }"
| "rufs_ope (Read a path sz off) s = do { (r, out, s) \<leftarrow> rufs_read a path sz off s; Some (Bytes r out, s) }"
| "rufs_ope (Write m a path buf sz off) s = do { (r, s) \<leftarrow> rufs_write m a path buf sz off s; Some (Code r, s) }"
| "rufs_ope (Rmdir path) s = (let (r, s) = rufs_rmdir path s in Some (Code r, s))"
| "rufs_ope (Releasedir path) s = (let (r, s) = rufs_releasedir path s in Some (Code r, s))"
| "rufs_ope (Unlink path) s = (let (r, s) = rufs_unlink path s in Some (Code r, s))"
| "rufs_ope (Truncate path sz) s = (let (r, s) = rufs_truncate path sz s in Some (Code r, s))"
| "rufs_ope (Flush path) s = (let (r, s) = rufs_flush path s in Some (Code r, s))"
| "rufs_ope (Utimens path) s = (let (r, s) = rufs_utimens path s in Some (Code r, s))"
| "rufs_ope (Release path) s = (let (r, s) = rufs_release path s in Some (Code r, s))"
| "rufs_ope (Remount fd fd' m a x) s = do { s \<leftarrow> rufs_init fd fd' m a (next_process x s); Some (Code 0, s) }"

text \<open>The arguments the steps of a file system allow.\<close>

fun call_fits :: "fs_call \<Rightarrow> fs \<Rightarrow> bool" where
  "call_fits (Mkdir m a path) s \<longleftrightarrow> name_ok (basename (take (PATH_MAX - 1) path))"
| "call_fits (Create m a path) s \<longleftrightarrow> name_ok (basename (take (PATH_MAX - 1) path))"
| "call_fits (Write m a path buf sz off) s \<longleftrightarrow> unat off + unat sz < 2 ^ 43 \<and> unat sz \<le> length buf"
| "call_fits (Remount fd fd' m a x) s \<longleftrightarrow> disk_exists s \<and> 0 \<le> fd"
| "call_fits _ s \<longleftrightarrow> True"

lemma call_steps:
  assumes "rufs_ope call s = Some (r, s')" "call_fits call s"
  shows "s' = s \<or> fs_step s s'"
proof (cases call)
  case (Mkdir m a path)
  then show ?thesis using assms by (auto intro: fs_step.mkdir split: Option.bind_splits)
next
  case (Create m a path)
  then show ?thesis using assms by (auto intro: fs_step.create split: Option.bind_splits)
next
  case (Read a path sz off)
  then show ?thesis using assms by (auto intro: fs_step.read_file split: Option.bind_splits)
next
  case (Write m a path buf sz off)
  then show ?thesis using assms by (auto intro: fs_step.write_file split: Option.bind_splits)
next
  case (Remount fd fd' m a x)
  then show ?thesis using assms by (auto intro: fs_step.restart split: Option.bind_splits)
qed (use assms in \<open>auto simp: stub_ops split: Option.bind_splits\<close>)

lemma call_kept: "fs_inv s \<Longrightarrow> rufs_ope call s = Some (r, s') \<Longrightarrow> call_fits call s \<Longrightarrow> fs_inv s' \<and> paths_kept s s'"
  using call_steps [of call s r s'] fs_step_kept [of s s'] paths_kept_refl by blast

section \<open>Calls that do not write a file\<close>

fun spares :: "nat \<Rightarrow> fs_call \<Rightarrow> fs \<Rightarrow> bool" where
  "spares i (Write m a path buf sz off) s \<longleftrightarrow> (\<forall>n. node_at s path = Some (Some n) \<longrightarrow> unat (ino n) \<noteq> i)"
| "spares i _ s \<longleftrightarrow> True"

lemma holds_same:
  assumes c: "core v" and h: "file_holds v i off bs"
    and n: "direct_ptr (inodes v' i) = direct_ptr (inodes v i)" "isize (inodes v' i) = isize (inodes v i)"
      "itype (inodes v' i) = itype (inodes v i)" "ivalid (inodes v' i) = ivalid (inodes v i)"
    and b: "\<forall>p < 16 * BLOCK_SIZE. fbyte v' (inodes v' i) p = fbyte v (inodes v i) p"
  shows "file_holds v' i off bs"
proof -
  have "fbytes v' (inodes v' i) off (length bs) = fbytes v (inodes v i) off (length bs)"
    unfolding fbytes_def using b h by (intro map_cong) (auto simp: file_holds_def)
  then show ?thesis using h n by (simp add: file_holds_def alive_def)
qed

lemma files_kept_holds:
  assumes "core (view s)" "files_kept (view s) (view s')" "file_holds (view s) i off bs"
  shows "file_holds (view s') i off bs"
proof -
  have i: "alive (view s) i" "\<not> is_dir (inodes (view s) i)"
    using assms(3) IFREG_not_dir by (simp_all add: file_holds_def is_dir_def)
  then have "inodes (view s') i = inodes (view s) i"
    "\<forall>p < 16 * BLOCK_SIZE. fbyte (view s') (inodes (view s') i) p = fbyte (view s) (inodes (view s) i) p"
    using assms(2) unfolding files_kept_def by blast+
  then show ?thesis by (intro holds_same [OF assms(1,3)]) simp_all
qed

lemma other_write_holds:
  assumes inv: "fs_inv s" and run: "rufs_write m a path dat sz off s = Some (r, s')"
    and fit: "unat off + unat sz < 2 ^ 43" "unat sz \<le> length dat"
    and other: "\<forall>n. node_at s path = Some (Some n) \<longrightarrow> unat (ino n) \<noteq> i" and h: "file_holds (view s) i k bs"
  shows "file_holds (view s') i k bs"
proof (cases rule: write_inode [OF inv run fit])
  case 1
  then show ?thesis using h by simp
next
  case (2 j)
  have c: "core (view s)" and al: "alive (view s) i" using fs_invD(2) [OF inv] h by (simp_all add: file_holds_def)
  have ij: "i \<noteq> j"
  proof
    assume "i = j"
    then have "unat (ino (inodes (view s) j)) = i" using coreD(3) [OF c 2(1)] by simp
    then show False using other 2(3) by simp
  qed
  have t: "inodes (view s') i = inodes (view s) i"
    "\<forall>b \<in> bused (view s). b \<notin> owned (inodes (view s) j) \<longrightarrow> data (view s') b = data (view s) b"
    using 2(5) ij by (auto simp: touched_def file_written_def)
  show ?thesis by (rule holds_same [OF c h]) (use t fbyte_kept [OF c al 2(1) ij _ t(2)] in auto)
qed

lemma read_other_holds:
  assumes inv: "fs_inv s" and run: "rufs_read at path sz offset s = Some (r, out, s')" and h: "file_holds (view s) i k bs"
  shows "file_holds (view s') i k bs"
proof -
  have c: "core (view s)" using fs_invD(2) [OF inv] .
  from read_inode [OF inv run] show ?thesis
  proof
    assume "s' = s"
    then show ?thesis using h by simp
  next
    assume "\<exists>i. alive (view s) i \<and> \<not> is_dir (inodes (view s) i) \<and> fs_inv s' \<and> view s' = with_inode (view s) i (set_atime at (inodes (view s) i))"
    then obtain j where "view s' = with_inode (view s) j (set_atime at (inodes (view s) j))" by blast
    then show ?thesis by (intro holds_same [OF c h]) (auto simp: fbyte_def Let_def cong: if_cong)
  qed
qed

lemma call_holds:
  assumes inv: "fs_inv s" and run: "rufs_ope call s = Some (r, s')" and fit: "call_fits call s"
    and other: "spares i call s" and h: "file_holds (view s) i k bs"
  shows "file_holds (view s') i k bs"
proof -
  have c: "core (view s)" using fs_invD(2) [OF inv] .
  note kept = files_kept_holds [OF c _ h]
  show ?thesis
  proof (cases call)
    case (Mkdir m a path)
    then have nm: "name_ok (basename (take (PATH_MAX - 1) path))" using fit by simp
    obtain q where r: "rufs_mkdir m a path s = Some (q, s')" using run Mkdir by (auto split: Option.bind_splits)
    show ?thesis
      by (cases rule: mkdir_cases [OF inv nm r]) (use kept leaked_kept(2) [OF inv] node_made_kept(2) [OF inv] in blast)+
  next
    case (Create m a path)
    then have nm: "name_ok (basename (take (PATH_MAX - 1) path))" using fit by simp
    obtain q where r: "rufs_create m a path s = Some (q, s')" using run Create by (auto split: Option.bind_splits)
    show ?thesis
      by (cases rule: create_cases [OF inv nm r]) (use kept leaked_kept(2) [OF inv] node_made_kept(2) [OF inv] in blast)+
  next
    case (Read a path sz off)
    then obtain q out where "rufs_read a path sz off s = Some (q, out, s')" using run by (auto split: Option.bind_splits)
    then show ?thesis by (rule read_other_holds [OF inv _ h])
  next
    case (Write m a path buf sz off)
    then obtain q where "rufs_write m a path buf sz off s = Some (q, s')" using run by (auto split: Option.bind_splits)
    from other_write_holds [OF inv this _ _ _ h] show ?thesis using Write fit other by simp
  next
    case (Remount fd fd' m a x)
    then have ex: "disk_exists s" "0 \<le> fd" and r: "rufs_init fd fd' m a (next_process x s) = Some s'"
      using run fit by (auto split: Option.bind_splits)
    obtain t where "rufs_init fd fd' m a (next_process x s) = Some t" "view t = view s"
      by (rule remount [OF inv ex, of fd' m a x])
    then show ?thesis using r h by simp
  qed (use run h in \<open>auto simp: stub_ops split: Option.bind_splits\<close>)
qed

section \<open>Runs of calls\<close>

fun run_calls :: "fs_call list \<Rightarrow> fs \<Rightarrow> fs option" where
  "run_calls [] s = Some s"
| "run_calls (call # calls) s = do {
     (_, s) \<leftarrow> rufs_ope call s;
     run_calls calls s
   }"

text \<open>Every call has arguments that fit and does not write the file \<open>i\<close>.\<close>

fun spared :: "nat \<Rightarrow> fs_call list \<Rightarrow> fs \<Rightarrow> bool" where
  "spared i [] s \<longleftrightarrow> True"
| "spared i (call # calls) s \<longleftrightarrow> call_fits call s \<and> spares i call s \<and>
     (case rufs_ope call s of None \<Rightarrow> True | Some (_, s) \<Rightarrow> spared i calls s)"

lemma run_calls_holds:
  "fs_inv s \<Longrightarrow> path_to s ts i \<Longrightarrow> file_holds (view s) i k bs \<Longrightarrow> spared i calls s \<Longrightarrow> run_calls calls s = Some s' \<Longrightarrow>
    fs_inv s' \<and> path_to s' ts i \<and> file_holds (view s') i k bs"
proof (induction calls arbitrary: s)
  case (Cons call calls)
  obtain r t where t: "rufs_ope call s = Some (r, t)" "run_calls calls t = Some s'"
    using Cons.prems(5) by (auto split: Option.bind_splits)
  have ok: "call_fits call s" "spares i call s" "spared i calls t" using Cons.prems(4) t(1) by simp_all
  have "fs_inv t" "path_to t ts i" using call_kept [OF Cons.prems(1) t(1) ok(1)] Cons.prems(2) by (simp_all add: paths_kept_def)
  then show ?case using Cons.IH [OF _ _ _ ok(3) t(2)] call_holds [OF Cons.prems(1) t(1) ok(1,2) Cons.prems(3)] by blast
qed simp

text \<open>
  C5. What is written to a file lasts: after a write that reports all its bytes, and then any run of
  operations on any paths, creations, removals, reads, writes to other files and remounts by new
  processes, a read through the same path returns exactly the bytes written.
\<close>

theorem contents_last:
  assumes inv: "fs_inv s" and p: "path_to s ts i" "itype (inodes (view s) i) = S_IFREG"
    and len: "length dat = unat sz" "0 < sz" and fit: "unat offset + unat sz < 2 ^ 31"
    and put: "rufs_write mt at (abs_path ts) dat sz offset s = Some (int (unat sz), s1)"
    and run: "run_calls calls s1 = Some s2" and other: "spared i calls s1"
  shows "\<exists>s3. rufs_read at' (abs_path ts) sz offset s2 = Some (int (unat sz), dat, s3) \<and> fs_inv s3"
proof -
  note w = write_holds [OF inv p len fit put]
  have h: "fs_inv s2" "path_to s2 ts i" "file_holds (view s2) i (unat offset) dat"
    using run_calls_holds [OF w(1,2,3) other run] by simp_all
  from read_holds [OF h len fit, of at'] show ?thesis by blast
qed

lemma contents_last_witness:
  "\<exists>s s1 s2 s3. rufs_write 7 8 (abs_path [[97]]) [1, 2, 3] 3 4095 s = Some (3, s1) \<and>
    run_calls [Unlink (abs_path [[97]]), Read 4 (abs_path [[97]]) 3 4095] s1 = Some s2 \<and>
    rufs_read 9 (abs_path [[97]]) 3 4095 s2 = Some (3, [1, 2, 3], s3)"
proof -
  let ?p = "abs_path [[97]]"
  let ?calls = "[Unlink ?p, Read 4 ?p 3 4095]"
  obtain s i s1 where s: "fs_inv s" "path_to s [[97]] i" "itype (inodes (view s) i) = S_IFREG"
    and w: "rufs_write 7 8 ?p [1, 2, 3] 3 4095 s = Some (int (unat (3 :: u64)), s1)" by (rule sample_write)
  have len: "length [1, 2, 3 :: u8] = unat (3 :: u64)" "(0 :: u64) < 3" "unat (4095 :: u64) + unat (3 :: u64) < 2 ^ 31" by simp_all
  note h = write_holds [OF s len w]
  obtain s2 where "rufs_read 4 ?p 3 4095 s1 = Some (int (unat (3 :: u64)), [1, 2, 3], s2)"
    by (rule read_holds [OF h(1,2,3) len])
  then have run: "run_calls ?calls s1 = Some s2" by (simp add: rufs_unlink_def)
  have "spared i ?calls s1" by (simp split: option.split prod.split)
  from contents_last [OF s len w run this, of 9] run w show ?thesis by auto
qed

end
