(* ===== verification/FsList.thy ===== *)
theory FsList
  imports FsSteps
begin

text \<open>
  \<open>rufs_readdir\<close>: the names it gives to \<open>filler\<close> are the names the directory binds, each once, in the
  order in which they lie on the disk.
\<close>

section \<open>The name of an entry as a C string\<close>

lemma c_string_take: "0 \<notin> set (take n xs) \<Longrightarrow> n < length xs \<Longrightarrow> xs ! n = 0 \<Longrightarrow> c_string xs = Some (take n xs)"
proof (induction xs arbitrary: n)
  case (Cons y ys)
  then show ?case by (cases n) auto
qed simp

text \<open>
  A name of 208 bytes fills its field, and the string that starts there runs on into the length of
  the entry, whose first byte is 208.
\<close>

definition shown :: "u8 list \<Rightarrow> u8 list" where
  "shown nm = (if length nm = NAME_SIZE then nm @ [208] else nm)"

lemma c_string_name:
  assumes ok: "lens_ok buf" and k: "k < DIRENTS_PER_BLOCK" and v: "ent_valid buf k \<noteq> 0"
  shows "c_string (ent_name buf k) = Some (shown (name_of buf k))"
proof -
  let ?n = "unat (ent_len buf k)" and ?xs = "ent_name buf k"
  have nd: "ent_named buf k" and len: "length buf = BLOCK_SIZE" using ok k v by (simp_all add: lens_ok_def)
  have n: "?n \<le> NAME_SIZE" and nul: "0 \<notin> set (name_of buf k)" using nd by (simp_all add: ent_named_def name_of_def)
  have xl: "NAME_SIZE + 2 \<le> length ?xs" using slot_end [OF k] len by (simp add: ent_name_def fs_consts)
  have tk: "take ?n ?xs = name_of buf k" by (simp add: ent_name_def name_of_def chunk_def)
  have nl: "length (name_of buf k) = ?n" using arg_cong [OF tk, of length] xl n by simp
  show ?thesis
  proof (cases "?n = NAME_SIZE")
    case False
    then have "chunk (DIRENT_SIZE * k + 4 + ?n) 1 buf = [0]" using nd n by (simp add: ent_named_def)
    then have "take 1 (drop ?n ?xs) = [0]" by (simp add: chunk_def ent_name_def add_ac)
    moreover have lt: "?n < length ?xs" using xl n False by simp
    ultimately have "?xs ! ?n = 0" by (simp add: Cons_nth_drop_Suc [symmetric])
    with lt show ?thesis using c_string_take [of ?n ?xs] nul nl False by (simp add: tk shown_def)
  next
    case True
    have l: "208 < length ?xs" "209 < length ?xs" using xl by (simp_all add: fs_consts)
    have "chunk (DIRENT_SIZE * k + 212) 2 buf = take 2 (drop 208 ?xs)" by (simp add: chunk_def ent_name_def add_ac)
    also have "\<dots> = [?xs ! 208, ?xs ! 209]"
      using l by (intro nth_equalityI) (auto simp: less_Suc_eq numeral_2_eq_2)
    finally have c: "chunk (DIRENT_SIZE * k + 212) 2 buf = [?xs ! 208, ?xs ! 209]" .
    have bound: "le_dec [?xs ! 208, ?xs ! 209] < 2 ^ 16" using le_dec_bound [of "[?xs ! 208, ?xs ! 209]"] by simp
    have "unat (of_nat (le_dec [?xs ! 208, ?xs ! 209]) :: u16) = 208"
      using True by (simp only: ent_len_def u16_at_def c NAME_SIZE_def)
    then have "le_dec [?xs ! 208, ?xs ! 209] = 208" using bound by (simp only: unat_of_nat) simp
    then have "unat (?xs ! 208) + 256 * unat (?xs ! 209) = 208" by simp
    then have "unat (?xs ! 209) = 0 \<and> unat (?xs ! 208) = 208" by arith
    moreover have "unat (0 :: u8) = 0" "unat (208 :: u8) = 208" by simp_all
    ultimately have bytes: "?xs ! 209 = 0" "?xs ! 208 = 208" by (simp_all only: word_unat_eq_iff simp_thms)
    have "take 209 ?xs = take 208 ?xs @ [?xs ! 208]" using l take_Suc_conv_app_nth [of 208 ?xs] by simp
    then have "take 209 ?xs = name_of buf k @ [208]" using tk True bytes(2) by (simp add: NAME_SIZE_def)
    then show ?thesis using c_string_take [of 209 ?xs] nul l(2) bytes(1) nl True by (simp add: shown_def)
  qed
qed

section \<open>The entries of a directory\<close>

definition dots :: "u8 list set" where
  "dots = {[DOT], [DOT, DOT]}"

lemma shown_dots: "shown nm \<in> dots \<longleftrightarrow> nm \<in> dots"
  by (auto simp: shown_def dots_def NAME_SIZE_def)

text \<open>\<open>list_dir\<close> gives the names as they lie on the disk, all but . and .., each as shown.\<close>

abbreviation listed :: "u8 list list \<Rightarrow> u8 list list" where
  "listed nms \<equiv> map shown (filter (\<lambda>nm. nm \<notin> dots) nms)"

lemma list_block_names:
  assumes ok: "lens_ok buf"
  shows "list_block buf i = Some (listed (map (name_of buf) (filter (\<lambda>k. ent_valid buf k \<noteq> 0) [i..<DIRENTS_PER_BLOCK])))"
proof (induction "DIRENTS_PER_BLOCK - i" arbitrary: i)
  case 0
  then show ?case by (simp add: list_block.simps [of buf i])
next
  case (Suc n)
  have i: "i < DIRENTS_PER_BLOCK" using Suc(2) by simp
  have "n = DIRENTS_PER_BLOCK - Suc i" using Suc(2) by simp
  note IH = Suc(1) [OF this]
  have up: "[i..<DIRENTS_PER_BLOCK] = i # [Suc i..<DIRENTS_PER_BLOCK]" using i by (rule upt_conv_Cons)
  show ?case
  proof (cases "ent_valid buf i = 0")
    case True
    then show ?thesis using i IH by (simp add: list_block.simps [of buf i] up)
  next
    case False
    have "shown (name_of buf i) \<in> {[DOT], [DOT, DOT]} \<longleftrightarrow> name_of buf i \<in> dots" using shown_dots by (simp add: dots_def)
    then show ?thesis
      using False i IH c_string_name [OF ok i False] by (simp add: list_block.simps [of buf i] up) 
  qed
qed

lemma list_dir_names:
  assumes "\<forall>b \<in> set bs. b \<noteq> 0 \<longrightarrow> lens_ok (bio_read s b)"
  shows "list_dir s bs = Some (listed (concat (map (\<lambda>b. if b = 0 then [] else block_names (bio_read s b)) bs)))"
  using assms
proof (induction bs)
  case (Cons b bs)
  then show ?case
    using list_block_names [of "bio_read s b" 0] by (cases "b = 0") (simp_all add: block_names_def)
qed simp

lemma readdir_listing:
  assumes inv: "fs_inv s" and p: "path_to s ts d" "is_dir (inodes (view s) d)"
  shows "rufs_readdir s (abs_path ts) = Some (0, [DOT] # [DOT, DOT] # listed (entry_names (view s) d))"
proof -
  let ?n = "inodes (view s) d"
  note i = fs_invD [OF inv] and node = path_to_node [OF inv p(1)]
  note dv = dir_view [OF i(2,3) node(1) p(2)]
  have "\<forall>b \<in> set (direct_ptr ?n). b \<noteq> 0 \<longrightarrow> lens_ok (bio_read s b)"
    using dv(2,3) by (simp add: block_ents_def)
  note ns = list_dir_names [OF this]
  have "map (\<lambda>b. if b = 0 then [] else block_names (bio_read s b)) (direct_ptr ?n) =
      map (\<lambda>b. if b = 0 then [] else block_names (rd (view s) b)) (direct_ptr ?n)"
    using dv(2) by simp
  then have "list_dir s (direct_ptr ?n) = Some (listed (entry_names (view s) d))"
    using ns by (simp only: entry_names_def)
  moreover have "length (direct_ptr ?n) = 16" using coreD(1) [OF i(2), of d] by (simp add: inode_shape_def)
  ultimately show ?thesis using node(2) p(2) by (simp add: rufs_readdir_def is_dir_def)
qed

section \<open>No name stands twice\<close>

lemma names_once_kept:
  assumes n: "names_once v"
    and same: "\<And>j. alive v' j \<Longrightarrow> is_dir (inodes v' j) \<Longrightarrow> alive v j \<and> is_dir (inodes v j) \<and>
      direct_ptr (inodes v' j) = direct_ptr (inodes v j) \<and> (\<forall>b \<in> owned (inodes v j). data v' b = data v b)"
  shows "names_once v'"
  unfolding names_once_def
proof (intro allI impI)
  fix j assume j: "alive v' j \<and> is_dir (inodes v' j)"
  then have s: "alive v j" "is_dir (inodes v j)" "direct_ptr (inodes v' j) = direct_ptr (inodes v j)"
    "\<forall>b \<in> owned (inodes v j). data v' b = data v b" using same [of j] by blast+
  then show "distinct (entry_names v' j)" using n entry_names_cong [OF s(3,4)] by (simp add: names_once_def)
qed

lemma names_once_leaked:
  assumes c: "core v" and l: "leaked v v'" and n: "names_once v"
  shows "names_once v'"
  unfolding names_once_def
proof (intro allI impI)
  fix j assume "alive v' j \<and> is_dir (inodes v' j)"
  then have "alive v j" "is_dir (inodes v j)" using l leaked_alive [OF l] by (simp_all add: leaked_def)
  then show "distinct (entry_names v' j)" using leaked_entry_names [OF c l] n by (simp add: names_once_def)
qed

lemma names_once_made:
  assumes c: "core v" "dirs L v" and m: "node_made v d nm i node v'" and n: "names_once v"
    and new: "is_dir node \<Longrightarrow> distinct (entry_names v' i)"
  shows "names_once v'"
  unfolding names_once_def
proof (intro allI impI)
  fix j assume j: "alive v' j \<and> is_dir (inodes v' j)"
  have m': "alive v d" "is_dir (inodes v d)" "dmap v d nm = None" "inodes v' i = node"
    "mset (entry_names v' d) = add_mset nm (mset (entry_names v d))"
    "\<And>j. j \<noteq> i \<Longrightarrow> j \<noteq> d \<Longrightarrow> inodes v' j = inodes v j"
    "\<And>j. alive v j \<Longrightarrow> j \<noteq> d \<Longrightarrow> \<forall>b \<in> owned (inodes v j). data v' b = data v b"
    using m by (auto simp: node_made_def)
  consider "j = i" | "j = d" | "j \<noteq> i" "j \<noteq> d" by blast
  then show "distinct (entry_names v' j)"
  proof cases
    case 1
    then show ?thesis using new j m'(4) by simp
  next
    case 2
    have "nm \<notin> set (entry_names v d)" using set_entry_names [OF c(2) m'(1,2)] m'(3) by (simp add: domIff)
    moreover have "distinct (entry_names v d)" using n m'(1,2) by (simp add: names_once_def)
    ultimately show ?thesis using distinct_added m'(5) 2 by metis
  next
    case 3
    then have a: "alive v j" "is_dir (inodes v j)" using j node_made_alive [OF m, of j] m'(6) [OF 3] by simp_all
    then have "entry_names v' j = entry_names v j" using m'(6,7) 3 by (intro entry_names_cong) simp_all
    then show ?thesis using n a by (simp add: names_once_def)
  qed
qed

lemma names_once_read: "names_once v \<Longrightarrow> names_once (with_inode v i (set_atime at (inodes v i)))"
  by (erule names_once_kept) (auto simp: alive_def is_dir_def split: if_splits)

lemma names_once_file:
  assumes c: "core v" and i: "alive v i" "\<not> is_dir (inodes v i)" and n: "names_once v"
    and w: "touched v i v' \<or> file_written v i offset sz dat v'"
  shows "names_once v'"
proof (rule names_once_kept [OF n])
  fix j assume j: "alive v' j" "is_dir (inodes v' j)"
  obtain n where e: "inodes v' = (inodes v)(i := n)" "itype n = itype (inodes v i)" "ivalid n = ivalid (inodes v i)"
    and d: "\<forall>b \<in> bused v. b \<notin> owned (inodes v i) \<longrightarrow> data v' b = data v b"
    using w by (auto simp: touched_def file_written_def intro: that [of "inodes v i"])
  have ne: "j \<noteq> i" using j i(2) e by (auto simp: is_dir_def)
  have a: "alive v j" using j e ne by (simp add: alive_def)
  have "b \<in> bused v \<and> b \<notin> owned (inodes v i)" if "b \<in> owned (inodes v j)" for b
    using coreD(4) [OF c a] coreD(8) [OF c a i(1) ne that] that by blast
  then show "alive v j \<and> is_dir (inodes v j) \<and> direct_ptr (inodes v' j) = direct_ptr (inodes v j) \<and>
      (\<forall>b \<in> owned (inodes v j). data v' b = data v b)"
    using a j ne e d by simp
qed

lemma fs_step_names_once:
  assumes "fs_step s s'" "fs_inv s" "names_once (view s)"
  shows "names_once (view s')"
  using assms
proof (induction rule: fs_step.induct)
  case (mkdir path m a s r s')
  note c = fs_invD(2,3) [OF mkdir.prems(1)]
  from mkdir_cases [OF mkdir.prems(1) mkdir.hyps] show ?case
  proof cases
    case 1
    then show ?thesis using names_once_leaked [OF c(1)] mkdir.prems(2) by simp
  next
    case (2 d i b)
    then show ?thesis using names_once_made [OF c _ mkdir.prems(2)] by (simp add: DOT_def)
  qed
next
  case (create path m a s r s')
  note c = fs_invD(2,3) [OF create.prems(1)]
  from create_cases [OF create.prems(1) create.hyps] show ?case
  proof cases
    case 1
    then show ?thesis using names_once_leaked [OF c(1)] create.prems(2) by simp
  next
    case (2 d i)
    have "\<not> is_dir (new_file_inode (of_nat i) m a)" using IFREG_not_dir by (simp add: is_dir_def)
    then show ?thesis using names_once_made [OF c 2(3) create.prems(2)] by blast
  qed
next
  case (read_file a path sz offset s r out s')
  from read_inode [OF read_file.prems(1) read_file.hyps] show ?case
    using names_once_read read_file.prems(2) by auto
next
  case (write_file offset sz dat m a path s r s')
  note c = fs_invD(2) [OF write_file.prems(1)]
  show ?case
  proof (cases rule: write_inode [OF write_file.prems(1) write_file.hyps(3,1,2)])
    case 1
    then show ?thesis using write_file.prems(2) by simp
  next
    case (2 i)
    then show ?thesis using names_once_file [OF c 2(1,2) write_file.prems(2)] by blast
  qed
next
  case (restart s fd fd' m a x s')
  from remount [OF restart.prems(1) restart.hyps(1,2)]
  obtain t where "rufs_init fd fd' m a (next_process x s) = Some t" "view t = view s" by metis
  then show ?case using restart.hyps(3) restart.prems(2) by simp
qed (simp_all add: stub_ops)

lemma formatted_names_once: "fs_inv s \<Longrightarrow> formatted m a (view s) \<Longrightarrow> names_once (view s)"
proof -
  assume inv: "fs_inv s" and f: "formatted m a (view s)"
  have "i = 0" if "alive (view s) i" for i
    using coreD(2) [OF fs_invD(2) [OF inv] that] f by (simp add: formatted_def)
  then show ?thesis using f by (auto simp: names_once_def formatted_def DOT_def)
qed

lemma reachable_names_once: "fs_reachable s \<Longrightarrow> names_once (view s)"
proof (induction rule: fs_reachable.induct)
  case (format fd s m a r s')
  from mkfs_formats [OF format.hyps(1), of m a] format.hyps(2) have "fs_inv s'" "formatted m a (view s')" by auto
  then show ?case by (rule formatted_names_once)
next
  case (step s s')
  then show ?case using fs_step_names_once reachable_fs_inv by blast
qed

section \<open>The listing\<close>

text \<open>A name fits its field, and two names that fit are shown differently.\<close>

lemma dmap_name_fits:
  assumes "dirs L v" "alive v i" "is_dir (inodes v i)" "nm \<in> dom (dmap v i)"
  shows "length nm \<le> NAME_SIZE"
proof -
  obtain b k where b: "b \<in> set (direct_ptr (inodes v i))" "b \<noteq> 0" "k < DIRENTS_PER_BLOCK" "ent_is (rd v b) nm k"
    using assms(4) unfolding dom_dmap by blast
  have "lens_ok (rd v b)" using dirsD [OF assms(1-3) owned_ptr [OF b(1,2)]] by (simp add: block_ents_def rd_def)
  then show ?thesis using ent_is_long [OF _ b(3)] b(4) not_less by blast
qed

lemma shown_inj: "inj_on shown {nm. length nm \<le> NAME_SIZE}"
proof (rule inj_onI)
  fix x y :: "u8 list"
  assume l: "x \<in> {nm. length nm \<le> NAME_SIZE}" "y \<in> {nm. length nm \<le> NAME_SIZE}" and e: "shown x = shown y"
  then show "x = y" using arg_cong [OF e, of length] by (auto simp: shown_def split: if_splits)
qed

lemma readdir_names:
  assumes inv: "fs_inv s" and n: "names_once (view s)" and p: "path_to s ts d" "is_dir (inodes (view s) d)"
  shows "\<exists>names. rufs_readdir s (abs_path ts) = Some (0, [DOT] # [DOT, DOT] # map shown names) \<and>
    set names = dom (dmap (view s) d) - dots \<and> distinct names \<and> distinct (map shown names)"
proof -
  let ?e = "entry_names (view s) d" and ?names = "filter (\<lambda>nm. nm \<notin> dots) (entry_names (view s) d)"
  note a = path_to_node(1) [OF inv p(1)] and i = fs_invD(3) [OF inv]
  have e: "set ?e = dom (dmap (view s) d)" by (rule set_entry_names [OF i a p(2)])
  have d: "distinct ?names" using n a p(2) by (simp add: names_once_def)
  have "set ?names \<subseteq> {nm. length nm \<le> NAME_SIZE}" using dmap_name_fits [OF i a p(2)] e by auto
  then have "inj_on shown (set ?names)" by (rule inj_on_subset [OF shown_inj])
  then have "distinct (map shown ?names)" using d by (simp add: distinct_map)
  moreover have "set ?names = dom (dmap (view s) d) - dots" using e by auto
  ultimately show ?thesis using readdir_listing [OF inv p] d by blast
qed

text \<open>
  C15. On a file system used within the bounds of \<open>fs_step\<close>, \<open>rufs_readdir\<close> on a directory answers 0
  and lists . and .. first and then every other name the directory binds, each once and nothing else. A name of
  less than 208 bytes is listed as it is; one of 208 bytes, which fills its field, with one byte too many,
  the length of the entry. No two names are listed alike.
\<close>

theorem readdir_lists:
  assumes "fs_reachable s" "path_to s ts d" "is_dir (inodes (view s) d)"
  shows "\<exists>names. rufs_readdir s (abs_path ts) = Some (0, [DOT] # [DOT, DOT] # map shown names) \<and>
    set names = dom (dmap (view s) d) - dots \<and> distinct names \<and> distinct (map shown names)"
  by (rule readdir_names [OF reachable_fs_inv [OF assms(1)] reachable_names_once [OF assms(1)] assms(2,3)])

text \<open>The root after one file was made in it.\<close>

lemma readdir_lists_witness:
  "\<exists>s. fs_reachable s \<and> rufs_readdir s (abs_path []) = Some (0, [[DOT], [DOT, DOT], [97]])"
proof -
  obtain s where s: "rufs_mkfs 3 0 0 blank_disk = Some (0, s)" "fs_inv s" "formatted 0 0 (view s)"
    using fresh_exists by blast
  have "openable 3 blank_disk" by (simp add: openable_def blank_disk_def)
  then have r: "fs_reachable s" using s(1) by (rule fs_reachable.format)
  obtain i s' where c: "rufs_create 5 6 (abs_path [[97]]) s = Some (0, s')" "fs_inv s'"
    "dmap (view s') 0 = (dmap (view s) 0)([97] \<mapsto> of_nat i)" using create_fresh [OF s(2,3)] by metis
  have "name_ok (basename (take (PATH_MAX - 1) (abs_path [[97]])))"
    using name_at [OF one_name(1-3)] by (simp only: append_Nil)
  then have "fs_step s s'" using c(1) by (rule fs_step.create)
  then have r': "fs_reachable s'" by (rule fs_reachable.step [OF r])
  have root: "path_to s' [] 0" "is_dir (inodes (view s') 0)"
    using fs_invD(5) [OF c(2)] by (simp_all add: path_to_def abs_path_def PATH_MAX_def)
  obtain names where n: "rufs_readdir s' (abs_path []) = Some (0, [DOT] # [DOT, DOT] # map shown names)"
    "set names = dom (dmap (view s') 0) - dots" "distinct names" using readdir_lists [OF r' root] by blast
  have "dmap (view s) 0 t = (if t \<in> dots then Some 0 else None)" for t
    using formatted_root(3) [OF s(2,3)] by (simp add: dots_def)
  then have "dom (dmap (view s') 0) - dots = {[97]}"
    using one_name(4,5) by (auto simp: c(3) dots_def split: if_splits)
  then have "set names = {[97]}" using n(2) by simp
  moreover from this have "length names = 1" using distinct_card [OF n(3)] by simp
  ultimately have "names = [[97]]" by (cases names) simp_all
  then show ?thesis using n(1) r' by (auto simp: shown_def NAME_SIZE_def)
qed

end
