(* ===== verification/FsSpec.thy ===== *)
theory FsSpec
  imports FsCalls FsList
begin

text \<open>
  What \<open>project4/rufs.c\<close> promises as a whole: an abstract file system of directories and files, and
  every operation of \<open>rufs_ope\<close> as a step of it. Blocks, bitmaps, inode numbers on the disk, and what
  a failed call leaks are not seen in it.
\<close>

section \<open>The abstract file system\<close>

text \<open>
  A directory maps names to nodes; a file has a size and bytes, and holes where no block is. Node 0 is
  the root.
\<close>

datatype node = Dir "u8 list \<Rightarrow> nat option" | File nat "nat \<Rightarrow> u8 option"

type_synonym tree = "nat \<Rightarrow> node option"

definition bytes_of :: "store \<Rightarrow> inode \<Rightarrow> nat \<Rightarrow> u8 option" where
  "bytes_of v n p =
     (if p < 16 * BLOCK_SIZE \<and> direct_ptr n ! (p div BLOCK_SIZE) \<noteq> 0 then Some (fbyte v n p) else None)"

definition tree_of :: "store \<Rightarrow> tree" where
  "tree_of v i =
     (if \<not> alive v i then None
      else if is_dir (inodes v i) then Some (Dir (\<lambda>t. map_option unat (dmap v i t)))
      else Some (File (unat (isize (inodes v i))) (bytes_of v (inodes v i))))"

text \<open>
  Whatever is not a directory is a regular file. With that, and no name twice in a directory, the state on
  the disk implements its tree.
\<close>

definition typed :: "store \<Rightarrow> bool" where
  "typed v \<longleftrightarrow> (\<forall>i. alive v i \<and> \<not> is_dir (inodes v i) \<longrightarrow> itype (inodes v i) = S_IFREG)"

definition implements :: "fs \<Rightarrow> tree \<Rightarrow> bool" where
  "implements s a \<longleftrightarrow> fs_inv s \<and> typed (view s) \<and> names_once (view s) \<and> a = tree_of (view s)"

section \<open>Paths\<close>

fun awalk :: "tree \<Rightarrow> nat \<Rightarrow> u8 list list \<Rightarrow> nat option" where
  "awalk a i [] = Some i"
| "awalk a i (t # ts) =
     (case a i of Some (Dir m) \<Rightarrow> (case m t of None \<Rightarrow> None | Some j \<Rightarrow> awalk a j ts) | _ \<Rightarrow> None)"

text \<open>No node on the way, where the path still goes on, is a file.\<close>

fun passes_dirs :: "tree \<Rightarrow> nat \<Rightarrow> u8 list list \<Rightarrow> bool" where
  "passes_dirs a i [] \<longleftrightarrow> True"
| "passes_dirs a i (t # ts) \<longleftrightarrow>
     (case a i of Some (Dir m) \<Rightarrow> (case m t of None \<Rightarrow> True | Some j \<Rightarrow> passes_dirs a j ts) | _ \<Rightarrow> False)"

definition plain_path :: "u8 list \<Rightarrow> bool" where
  "plain_path path \<longleftrightarrow> (\<forall>t \<in> set (tokens path). component t) \<and> path = abs_path (tokens path) \<and> length path < PATH_MAX"

definition target :: "tree \<Rightarrow> u8 list \<Rightarrow> nat option" where
  "target a path = awalk a 0 (tokens path)"

lemma awalk_vwalk:
  assumes d: "dirs {j. alive v j} v"
  shows "alive v i \<Longrightarrow> passes_dirs (tree_of v) i ts \<Longrightarrow> through_dirs v i ts \<and> awalk (tree_of v) i ts = vwalk v i ts"
proof (induction ts arbitrary: i)
  case (Cons t ts)
  then have i: "is_dir (inodes v i)" by (cases "is_dir (inodes v i)") (simp_all add: tree_of_def)
  then have m: "tree_of v i = Some (Dir (\<lambda>t. map_option unat (dmap v i t)))" using Cons.prems(1) by (simp add: tree_of_def)
  show ?case
  proof (cases "dmap v i t")
    case None
    then show ?thesis using i m by simp
  next
    case (Some j)
    have "alive v (unat j)" using dmap_target [OF d Cons.prems(1) i Some] by simp
    then show ?thesis using Cons.IH [of "unat j"] Cons.prems(2) i m Some by simp
  qed
qed simp

section \<open>What each operation does\<close>

text \<open>
  The requests considered: absolute paths through directories, new names of at most 208 bytes, reads that
  end below \<open>2 ^ 31\<close>, non-empty writes that end below \<open>2 ^ 43\<close>. FUSE may make others; \<open>FsLimits\<close> shows
  some of what they do.
\<close>

definition old_path :: "tree \<Rightarrow> u8 list \<Rightarrow> bool" where
  "old_path a path \<longleftrightarrow> plain_path path \<and> passes_dirs a 0 (tokens path)"

definition new_path :: "tree \<Rightarrow> u8 list \<Rightarrow> bool" where
  "new_path a path \<longleftrightarrow> plain_path path \<and> tokens path \<noteq> [] \<and> passes_dirs a 0 (butlast (tokens path)) \<and>
     length (last (tokens path)) \<le> NAME_SIZE"

fun call_allowed :: "fs_call \<Rightarrow> tree \<Rightarrow> bool" where
  "call_allowed (Getattr uid gid path) a \<longleftrightarrow> old_path a path"
| "call_allowed (Readdir path) a \<longleftrightarrow> old_path a path"
| "call_allowed (Opendir path) a \<longleftrightarrow> old_path a path"
| "call_allowed (Open path) a \<longleftrightarrow> old_path a path"
| "call_allowed (Mkdir m t path) a \<longleftrightarrow> new_path a path"
| "call_allowed (Create m t path) a \<longleftrightarrow> new_path a path"
| "call_allowed (Read t path sz off) a \<longleftrightarrow> old_path a path \<and> unat off + unat sz < 2 ^ 31"
| "call_allowed (Write m t path buf sz off) a \<longleftrightarrow> old_path a path \<and> 0 < sz \<and> unat sz \<le> length buf \<and> unat off + unat sz < 2 ^ 43"
| "call_allowed (Remount fd fd' m t x) a \<longleftrightarrow> 0 \<le> fd"
| "call_allowed _ a \<longleftrightarrow> True"

text \<open>A new node under the last name of the path, unless the name is there or space runs out.\<close>

definition new_node :: "tree \<Rightarrow> u8 list \<Rightarrow> (nat \<Rightarrow> nat \<Rightarrow> node) \<Rightarrow> fs_answer \<Rightarrow> tree \<Rightarrow> bool" where
  "new_node a path node r a' \<longleftrightarrow>
     (let name = last (tokens path) in
      case awalk a 0 (butlast (tokens path)) of
        None \<Rightarrow> r = Code (-ENOENT) \<and> a' = a
      | Some d \<Rightarrow>
          (case a d of
             Some (Dir m) \<Rightarrow>
               if m name \<noteq> None then r = Code (-EEXIST) \<and> a' = a
               else r = Code (-ENOSPC) \<and> a' = a \<or>
                 r = Code 0 \<and> (\<exists>i. a i = None \<and> a' = a(d \<mapsto> Dir (m(name \<mapsto> i)), i \<mapsto> node d i))
           | _ \<Rightarrow> r = Code (-ENOTDIR) \<and> a' = a))"

text \<open>
  The bytes of a file after all of \<open>bs\<close> went to \<open>off\<close>: a hole elsewhere may have got a block of zeros.
  When the write stops after \<open>k\<close> bytes, holes stay holes, and with them what was written there.
\<close>

definition overwritten :: "(nat \<Rightarrow> u8 option) \<Rightarrow> nat \<Rightarrow> u8 list \<Rightarrow> (nat \<Rightarrow> u8 option) \<Rightarrow> bool" where
  "overwritten c off bs c' \<longleftrightarrow> (\<forall>p.
     if off \<le> p \<and> p < off + length bs then c' p = Some (bs ! (p - off))
     else c' p = c p \<or> c p = None \<and> c' p = Some 0)"

definition partly_written :: "(nat \<Rightarrow> u8 option) \<Rightarrow> nat \<Rightarrow> u8 list \<Rightarrow> nat \<Rightarrow> nat \<Rightarrow> u8 option" where
  "partly_written c off bs k p =
     (if c p \<noteq> None \<and> off \<le> p \<and> p < off + k then Some (bs ! (p - off)) else c p)"

fun fs_spec :: "fs_call \<Rightarrow> tree \<Rightarrow> fs_answer \<Rightarrow> tree \<Rightarrow> bool" where
  "fs_spec (Getattr uid gid path) a r a' \<longleftrightarrow> a' = a \<and>
     (case target a path of
        None \<Rightarrow> r = Attr (-ENOENT) zero_stat
      | Some i \<Rightarrow> (\<exists>st. r = Attr 0 st \<and> st_uid st = uid \<and> st_gid st = gid \<and>
          (case a i of
             Some (Dir m) \<Rightarrow> st_mode st = DIR_MODE
           | Some (File n c) \<Rightarrow> st_mode st = REG_MODE \<and> st_size st = of_nat n
           | None \<Rightarrow> False)))"
| "fs_spec (Readdir path) a r a' \<longleftrightarrow> a' = a \<and>
     (case target a path of
        None \<Rightarrow> r = Names (-ENOENT) []
      | Some i \<Rightarrow>
          (case a i of
             Some (Dir m) \<Rightarrow> (\<exists>ns. r = Names 0 ([DOT] # [DOT, DOT] # map shown ns) \<and> distinct ns \<and> set ns = dom m - dots)
           | _ \<Rightarrow> r = Names (-ENOTDIR) []))"
| "fs_spec (Opendir path) a r a' \<longleftrightarrow> a' = a \<and>
     (case target a path of
        None \<Rightarrow> r = Code (-ENOENT)
      | Some i \<Rightarrow> (case a i of Some (Dir m) \<Rightarrow> r = Code 0 | _ \<Rightarrow> r = Code (-ENOTDIR)))"
| "fs_spec (Open path) a r a' \<longleftrightarrow> a' = a \<and> r = Code (if target a path = None then -ENOENT else 0)"
| "fs_spec (Mkdir m t path) a r a' \<longleftrightarrow> new_node a path (\<lambda>d i. Dir [[DOT] \<mapsto> i, [DOT, DOT] \<mapsto> d]) r a'"
| "fs_spec (Create m t path) a r a' \<longleftrightarrow> new_node a path (\<lambda>d i. File 0 (\<lambda>_. None)) r a'"
| "fs_spec (Read t path sz off) a r a' \<longleftrightarrow> a' = a \<and>
     (case target a path of
        None \<Rightarrow> r = Bytes (-ENOENT) []
      | Some i \<Rightarrow>
          (case a i of
             Some (File n c) \<Rightarrow> (\<exists>bs. r = Bytes (int (length bs)) bs \<and> length bs \<le> min (unat sz) (n - unat off) \<and>
               (\<forall>j < length bs. c (unat off + j) = Some (bs ! j)) \<and>
               (length bs = min (unat sz) (n - unat off) \<or> c (unat off + length bs) = None))
           | _ \<Rightarrow> r = Bytes (-EISDIR) []))"
| "fs_spec (Write m t path buf sz off) a r a' \<longleftrightarrow>
     (case target a path of
        None \<Rightarrow> r = Code (-ENOENT) \<and> a' = a
      | Some i \<Rightarrow>
          (case a i of
             Some (File n c) \<Rightarrow>
               r = Code (int (unat sz)) \<and> (\<exists>c'. overwritten c (unat off) (take (unat sz) buf) c' \<and>
                 a' = a(i \<mapsto> File (max n (unat off + unat sz)) c')) \<or>
               (\<exists>k < int (unat sz). r = Code k \<and> (0 < k \<and> unat off + nat k \<le> 16 * BLOCK_SIZE \<or> k = -ENOSPC \<or> k = -EFBIG \<and> 16 * BLOCK_SIZE \<le> unat off) \<and>
                 a' = a(i \<mapsto> File n (partly_written c (unat off) buf (nat k))))
           | _ \<Rightarrow> r = Code (-EISDIR) \<and> a' = a))"
| "fs_spec (Remount fd fd' m t x) a r a' \<longleftrightarrow> r = Code 0 \<and> a' = a"
| "fs_spec _ a r a' \<longleftrightarrow> r = Code 0 \<and> a' = a"

section \<open>The tree of updated states\<close>

lemma tree_same:
  assumes c: "core v" and n: "direct_ptr (inodes v' j) = direct_ptr (inodes v j)" "isize (inodes v' j) = isize (inodes v j)"
      "itype (inodes v' j) = itype (inodes v j)" "ivalid (inodes v' j) = ivalid (inodes v j)"
    and d: "alive v j \<Longrightarrow> \<forall>b \<in> owned (inodes v j). data v' b = data v b"
  shows "tree_of v' j = tree_of v j"
proof (cases "alive v j")
  case False
  then show ?thesis using n(4) by (simp add: tree_of_def alive_def)
next
  case True
  have e: "alive v' j" "is_dir (inodes v' j) \<longleftrightarrow> is_dir (inodes v j)" using True n by (simp_all add: alive_def is_dir_def)
  have l: "length (direct_ptr (inodes v j)) = 16" using coreD(1) [OF c, of j] by (simp add: inode_shape_def)
  have "bytes_of v' (inodes v' j) p = bytes_of v (inodes v j) p" for p
  proof (cases "p < 16 * BLOCK_SIZE \<and> direct_ptr (inodes v j) ! (p div BLOCK_SIZE) \<noteq> 0")
    case True
    have "p div BLOCK_SIZE < 16" using conjunct1 [OF True] by (simp add: fs_consts)
    then have "direct_ptr (inodes v j) ! (p div BLOCK_SIZE) \<in> set (direct_ptr (inodes v j))"
      using l by (intro nth_mem) simp
    then have "unat (direct_ptr (inodes v j) ! (p div BLOCK_SIZE)) \<in> owned (inodes v j)" using True by (intro owned_ptr) simp_all
    then show ?thesis using d \<open>alive v j\<close> by (simp add: bytes_of_def fbyte_def n(1))
  qed (auto simp: bytes_of_def n(1))
  then have "bytes_of v' (inodes v' j) = bytes_of v (inodes v j)" by (rule ext)
  moreover have "dmap v' j = dmap v j" using d [OF True] n(1) by (intro dmap_cong) simp_all
  ultimately show ?thesis using True e n(2) by (simp add: tree_of_def)
qed

lemma tree_leaked:
  assumes c: "core v" and l: "leaked v v'"
  shows "tree_of v' = tree_of v" "typed v' = typed v"
proof -
  have e: "inodes v' = inodes v" using l by (simp add: leaked_def)
  show "tree_of v' = tree_of v"
  proof (rule ext, rule tree_same [OF c])
    fix j assume "alive v j"
    from coreD(4) [OF c this] l show "\<forall>b \<in> owned (inodes v j). data v' b = data v b" by (auto simp: leaked_def)
  qed (simp_all add: e)
  show "typed v' = typed v" using leaked_alive [OF l] by (simp add: typed_def e)
qed

lemma tree_made:
  assumes c: "core v" and m: "node_made v d nm i node v'" and x: "tree_of v' i = Some x" "is_dir node \<or> itype node = S_IFREG"
  shows "tree_of v' = (tree_of v)(d \<mapsto> Dir ((\<lambda>t. map_option unat (dmap v d t))(nm \<mapsto> i)), i \<mapsto> x)" "typed v \<Longrightarrow> typed v'"
    "tree_of v i = None" "tree_of v d = Some (Dir (\<lambda>t. map_option unat (dmap v d t)))"
proof -
  have m': "alive v d" "is_dir (inodes v d)" "\<not> alive v i" "i < 1024" "i \<noteq> d" "inodes v' i = node"
      "ivalid (inodes v' d) = ivalid (inodes v d)" "itype (inodes v' d) = itype (inodes v d)"
      "dmap v' d = (dmap v d)(nm \<mapsto> of_nat i)"
      "\<And>j. j \<noteq> i \<Longrightarrow> j \<noteq> d \<Longrightarrow> inodes v' j = inodes v j"
      "\<And>j. alive v j \<Longrightarrow> j \<noteq> d \<Longrightarrow> \<forall>b \<in> owned (inodes v j). data v' b = data v b"
    using m by (auto simp: node_made_def)
  show "tree_of v i = None" "tree_of v d = Some (Dir (\<lambda>t. map_option unat (dmap v d t)))"
    using m'(1-3) by (simp_all add: tree_of_def)
  have "(\<lambda>t. map_option unat (dmap v' d t)) = (\<lambda>t. map_option unat (dmap v d t))(nm \<mapsto> i)"
    using m'(9) unat_u16 [OF m'(4)] by (auto simp: fun_eq_iff)
  then have "tree_of v' d = Some (Dir ((\<lambda>t. map_option unat (dmap v d t))(nm \<mapsto> i)))"
    using m'(1,2,5,7,8) by (simp add: tree_of_def alive_def is_dir_def)
  moreover have "tree_of v' j = tree_of v j" if "j \<noteq> i" "j \<noteq> d" for j
    using m'(10,11) that by (intro tree_same [OF c]) simp_all
  ultimately show "tree_of v' = (tree_of v)(d \<mapsto> Dir ((\<lambda>t. map_option unat (dmap v d t))(nm \<mapsto> i)), i \<mapsto> x)"
    using x(1) by (auto simp: fun_eq_iff)
  show "typed v'" if "typed v"
    unfolding typed_def
  proof (intro allI impI)
    fix j assume j: "alive v' j \<and> \<not> is_dir (inodes v' j)"
    have "alive v j" if "j \<noteq> i" using j node_made_alive [OF m, of j] that by simp
    then show "itype (inodes v' j) = S_IFREG"
      using j \<open>typed v\<close> x(2) m'(2,6,8,10) by (cases "j = i"; cases "j = d") (auto simp: typed_def is_dir_def)
  qed
qed

lemma tree_read:
  assumes c: "core v"
  shows "tree_of (with_inode v i (set_atime at (inodes v i))) = tree_of v" "typed (with_inode v i (set_atime at (inodes v i))) = typed v"
proof -
  let ?w = "with_inode v i (set_atime at (inodes v i))"
  have f: "direct_ptr (inodes ?w j) = direct_ptr (inodes v j)" "isize (inodes ?w j) = isize (inodes v j)"
    "itype (inodes ?w j) = itype (inodes v j)" "ivalid (inodes ?w j) = ivalid (inodes v j)" for j by simp_all
  have d: "data ?w = data v" by simp
  have "tree_of ?w j = tree_of v j" for j by (rule tree_same [OF c f]) (simp only: d, blast)
  then show "tree_of ?w = tree_of v" by (rule ext)
  show "typed ?w = typed v" by (simp only: typed_def alive_def is_dir_def f)
qed

lemma other_data:
  assumes c: "core v" and a: "alive v i" "alive v j" "j \<noteq> i" and d: "\<forall>b \<in> bused v. b \<notin> owned (inodes v i) \<longrightarrow> data v' b = data v b"
  shows "\<forall>b \<in> owned (inodes v j). data v' b = data v b"
  using coreD(4) [OF c a(2)] coreD(8) [OF c a(2,1,3)] d by blast

lemma tree_partly:
  assumes c: "core v" and a: "alive v i" "\<not> is_dir (inodes v i)" and t: "touched v i v'" and p: "partly v i off dat r v'"
  shows "tree_of v' = (tree_of v)(i \<mapsto> File (unat (isize (inodes v i))) (partly_written (bytes_of v (inodes v i)) off dat (nat r)))"
    "typed v' = typed v"
proof -
  have e: "inodes v' = inodes v" "\<forall>b \<in> bused v. b \<notin> owned (inodes v i) \<longrightarrow> data v' b = data v b" using t by (simp_all add: touched_def)
  have al: "alive v' = alive v" by (simp add: alive_def e(1) fun_eq_iff)
  have "bytes_of v' (inodes v i) = partly_written (bytes_of v (inodes v i)) off dat (nat r)"
    using p by (auto simp: fun_eq_iff bytes_of_def partly_written_def partly_def)
  then have "tree_of v' i = Some (File (unat (isize (inodes v i))) (partly_written (bytes_of v (inodes v i)) off dat (nat r)))"
    using a al by (simp add: tree_of_def e(1))
  moreover have "tree_of v' j = tree_of v j" if "j \<noteq> i" for j
    by (rule tree_same [OF c]) (use e(1) other_data [OF c a(1) _ that e(2)] in simp_all)
  ultimately show "tree_of v' = (tree_of v)(i \<mapsto> File (unat (isize (inodes v i))) (partly_written (bytes_of v (inodes v i)) off dat (nat r)))"
    by (auto simp: fun_eq_iff)
  show "typed v' = typed v" by (simp add: typed_def e(1) al)
qed

lemma tree_written:
  assumes c: "core v" and a: "alive v i" "\<not> is_dir (inodes v i)" and w: "file_written v i offset sz dat v'"
    and sz: "0 < sz" "unat sz \<le> length dat"
  shows "\<exists>c'. overwritten (bytes_of v (inodes v i)) (unat offset) (take (unat sz) dat) c' \<and>
    tree_of v' = (tree_of v)(i \<mapsto> File (max (unat (isize (inodes v i))) (unat offset + unat sz)) c')" "typed v' = typed v"
proof -
  let ?m = "inodes v i" and ?n = "inodes v' i"
  have end16: "unat offset + unat sz \<le> 16 * BLOCK_SIZE" using w sz(1) by (auto simp: file_written_def)
  have eo: "unat (ucast (offset + sz) :: u32) = unat offset + unat sz"
  proof -
    have lt: "unat offset + unat sz < 2 ^ 32" using end16 by (simp add: fs_consts)
    then have "unat (offset + sz) = unat offset + unat sz" using unat_add_lem [of offset sz] by simp
    then show ?thesis using lt by (simp add: unsigned_ucast_eq take_bit_nat_eq_self)
  qed
  obtain n where n: "inodes v' = (inodes v)(i := n)" "itype n = itype ?m" "ivalid n = ivalid ?m"
    "isize n = (if isize ?m < ucast (offset + sz) then ucast (offset + sz) else isize ?m)"
    using w by (auto simp: file_written_def)
  have ni: "?n = n" using n(1) by simp
  have size: "unat (isize ?n) = max (unat (isize ?m)) (unat offset + unat sz)"
    using eo by (simp add: ni n(4) word_less_nat_alt)
  have al: "alive v' j \<longleftrightarrow> alive v j" for j using n by (simp add: alive_def)
  have "overwritten (bytes_of v ?m) (unat offset) (take (unat sz) dat) (bytes_of v' ?n)"
    unfolding overwritten_def
  proof (intro allI)
    fix p
    have b: "fbyte v' ?n p = (if unat offset \<le> p \<and> p < unat offset + unat sz then dat ! (p - unat offset) else fbyte v ?m p)"
      "unat offset \<le> p \<and> p < unat offset + unat sz \<Longrightarrow> direct_ptr ?n ! (p div BLOCK_SIZE) \<noteq> 0"
      "direct_ptr ?m ! (p div BLOCK_SIZE) \<noteq> 0 \<Longrightarrow> direct_ptr ?n ! (p div BLOCK_SIZE) = direct_ptr ?m ! (p div BLOCK_SIZE)"
      if "p < 16 * BLOCK_SIZE"
      using w that by (simp_all add: file_written_def)
    have hole: "fbyte v ?m p = 0" if "direct_ptr ?m ! (p div BLOCK_SIZE) = 0" using that by (simp add: fbyte_def)
    show "if unat offset \<le> p \<and> p < unat offset + length (take (unat sz) dat) then bytes_of v' ?n p = Some (take (unat sz) dat ! (p - unat offset))
        else bytes_of v' ?n p = bytes_of v ?m p \<or> bytes_of v ?m p = None \<and> bytes_of v' ?n p = Some 0"
      using b hole end16 sz(2) by (cases "p < 16 * BLOCK_SIZE") (auto simp: bytes_of_def)
  qed
  moreover have "tree_of v' i = Some (File (max (unat (isize ?m)) (unat offset + unat sz)) (bytes_of v' ?n))"
    using a al size n(2) ni by (simp add: tree_of_def is_dir_def)
  moreover have "tree_of v' j = tree_of v j" if "j \<noteq> i" for j
  proof (rule tree_same [OF c])
    assume "alive v j"
    then show "\<forall>b \<in> owned (inodes v j). data v' b = data v b"
      using w by (intro other_data [OF c a(1) _ that]) (simp_all add: file_written_def)
  qed (use n(1) that in simp_all)
  then have "tree_of v' = (tree_of v)(i := tree_of v' i)" by (auto simp: fun_eq_iff)
  ultimately show "\<exists>c'. overwritten (bytes_of v ?m) (unat offset) (take (unat sz) dat) c' \<and>
      tree_of v' = (tree_of v)(i \<mapsto> File (max (unat (isize ?m)) (unat offset + unat sz)) c')" by metis
  show "typed v' = typed v" using n(1,2) al by (auto simp: typed_def is_dir_def)
qed

section \<open>Every operation is a step of the tree\<close>

text \<open>The inode the code finds is the node the path leads to.\<close>

lemma old_path_node:
  assumes inv: "fs_inv s" and p: "old_path (tree_of (view s)) path"
  obtains (none) "target (tree_of (view s)) path = None" "node_at s path = Some None"
  | (here) i where "target (tree_of (view s)) path = Some i" "path_to s (tokens path) i" "alive (view s) i"
      "node_at s path = Some (Some (inodes (view s) i))" "abs_path (tokens path) = path"
proof -
  let ?ts = "tokens path"
  have t: "\<forall>t \<in> set ?ts. component t" "abs_path ?ts = path" "length (abs_path ?ts) < PATH_MAX"
    and d: "passes_dirs (tree_of (view s)) 0 ?ts" using p by (simp_all add: old_path_def plain_path_def)
  note w = awalk_vwalk [OF fs_invD(3,4) [OF inv] d]
  show ?thesis
  proof (cases "vwalk (view s) 0 ?ts")
    case None
    then have "node_at s path = Some None" using get_node_walks [OF inv t(1,3)] w t(2) by (simp add: node_at_def)
    then show ?thesis using None w by (intro none) (simp_all add: target_def)
  next
    case (Some i)
    then have "path_to s ?ts i" using t w by (simp add: path_to_def)
    from path_to_node [OF inv this] this show ?thesis using Some w t(2) by (intro here) (simp_all add: target_def)
  qed
qed

lemma tree_node:
  assumes "alive v i"
  obtains (dir) "is_dir (inodes v i)" "tree_of v i = Some (Dir (\<lambda>t. map_option unat (dmap v i t)))"
  | (regular) "\<not> is_dir (inodes v i)" "tree_of v i = Some (File (unat (isize (inodes v i))) (bytes_of v (inodes v i)))"
  using assms by (cases "is_dir (inodes v i)") (simp_all add: tree_of_def)

lemma lookup_steps:
  assumes inv: "fs_inv s" and once: "names_once (view s)" and p: "old_path (tree_of (view s)) path"
  shows "\<exists>r. rufs_ope (Getattr uid gid path) s = Some (r, s) \<and> fs_spec (Getattr uid gid path) (tree_of (view s)) r (tree_of (view s))"
    "\<exists>r. rufs_ope (Opendir path) s = Some (r, s) \<and> fs_spec (Opendir path) (tree_of (view s)) r (tree_of (view s))"
    "\<exists>r. rufs_ope (Open path) s = Some (r, s) \<and> fs_spec (Open path) (tree_of (view s)) r (tree_of (view s))"
    "\<exists>r. rufs_ope (Readdir path) s = Some (r, s) \<and> fs_spec (Readdir path) (tree_of (view s)) r (tree_of (view s))"
proof -
  let ?a = "tree_of (view s)"
  have "(\<exists>r. rufs_ope (Getattr uid gid path) s = Some (r, s) \<and> fs_spec (Getattr uid gid path) ?a r ?a) \<and>
    (\<exists>r. rufs_ope (Opendir path) s = Some (r, s) \<and> fs_spec (Opendir path) ?a r ?a) \<and>
    (\<exists>r. rufs_ope (Open path) s = Some (r, s) \<and> fs_spec (Open path) ?a r ?a) \<and>
    (\<exists>r. rufs_ope (Readdir path) s = Some (r, s) \<and> fs_spec (Readdir path) ?a r ?a)"
  proof (cases rule: old_path_node [OF inv p])
    case 1
    then show ?thesis by (simp add: rufs_getattr_def rufs_opendir_def rufs_open_def rufs_readdir_def)
  next
    case i: (2 i)
    show ?thesis
    proof (cases rule: tree_node [OF i(3)])
      case 1
      obtain ns where ns: "rufs_readdir s path = Some (0, [DOT] # [DOT, DOT] # map shown ns)" "distinct ns"
        "set ns = dom (dmap (view s) i) - dots"
        using readdir_names [OF inv once i(2) 1(1)] i(5) by auto
      have "dom (\<lambda>t. map_option unat (dmap (view s) i t)) = dom (dmap (view s) i)" by (auto simp: dom_def)
      moreover have "fs_spec (Readdir path) ?a (Names 0 ([DOT] # [DOT, DOT] # map shown ns)) ?a"
        using i(1) 1(2) ns(2,3) \<open>dom _ = _\<close> by auto
      ultimately show ?thesis using i(1,4) 1 ns(1)
        by (simp add: rufs_getattr_def rufs_opendir_def rufs_open_def is_dir_def)
    next
      case 2
      have "(ucast (isize (inodes (view s) i)) :: u64) = of_nat (unat (isize (inodes (view s) i)))" by simp
      then show ?thesis using i(1,4) 2
        by (simp add: rufs_getattr_def rufs_opendir_def rufs_open_def rufs_readdir_def is_dir_def del: of_nat_unat)
    qed
  qed
  then show "\<exists>r. rufs_ope (Getattr uid gid path) s = Some (r, s) \<and> fs_spec (Getattr uid gid path) ?a r ?a"
    "\<exists>r. rufs_ope (Opendir path) s = Some (r, s) \<and> fs_spec (Opendir path) ?a r ?a"
    "\<exists>r. rufs_ope (Open path) s = Some (r, s) \<and> fs_spec (Open path) ?a r ?a"
    "\<exists>r. rufs_ope (Readdir path) s = Some (r, s) \<and> fs_spec (Readdir path) ?a r ?a" by blast+
qed

lemma read_steps:
  assumes s: "implements s a" and p: "old_path a path" "unat off + unat sz < 2 ^ 31"
  shows "\<exists>r s'. rufs_ope (Read at path sz off) s = Some (r, s') \<and> implements s' a \<and> fs_spec (Read at path sz off) a r a"
proof -
  have inv: "fs_inv s" and ty: "typed (view s)" "names_once (view s)" and a: "a = tree_of (view s)"
    using s by (simp_all add: implements_def)
  note p' = p(1) [unfolded a]
  show ?thesis
  proof (cases rule: old_path_node [OF inv p'])
    case 1
    then show ?thesis using s by (simp add: rufs_read_def a)
  next
    case i: (2 i)
    show ?thesis
    proof (cases rule: tree_node [OF i(3)])
      case 1
      then have "itype (inodes (view s) i) \<noteq> S_IFREG" using IFREG_not_dir by (auto simp: is_dir_def)
      then show ?thesis using i(1,4) 1 s by (simp add: rufs_read_def a)
    next
      case f: 2
      have reg: "itype (inodes (view s) i) = S_IFREG" using ty i(3) f(1) by (simp add: typed_def)
      show ?thesis
      proof (cases rule: read_cases [OF inv i(4,3) reg p(2), of at])
        case 1
        then show ?thesis using i(1) f(2) s by (simp add: a)
      next
        case (2 k t)
        let ?n = "inodes (view s) i"
        let ?bs = "fbytes (view s) ?n (unat off) k"
        have len: "length ?bs = k" by (simp add: fbytes_def)
        have "bytes_of (view s) ?n (unat off + j) = Some (?bs ! j)" if "j < k" for j
          using 2(7) that by (simp add: bytes_of_def backed_def fbytes_def)
        moreover have "k = min (unat sz) (unat (isize ?n) - unat off) \<or> bytes_of (view s) ?n (unat off + k) = None"
          using 2(6) by (auto simp: bytes_of_def)
        ultimately have "fs_spec (Read at path sz off) a (Bytes (int k) ?bs) a"
          using i(1) f(2) 2(5) len by (auto simp: a)
        moreover have "implements t a"
          using 2(2,3) ty names_once_read tree_read [OF fs_invD(2) [OF inv]] by (simp add: implements_def a)
        ultimately show ?thesis using 2(1) by auto
      qed
    qed
  qed
qed

lemma write_steps:
  assumes s: "implements s a" and p: "call_allowed (Write mt at path buf sz off) a"
  shows "\<exists>r s'. rufs_ope (Write mt at path buf sz off) s = Some (r, s') \<and> implements s' (tree_of (view s')) \<and>
    fs_spec (Write mt at path buf sz off) a r (tree_of (view s'))"
proof -
  have inv: "fs_inv s" and ty: "typed (view s)" "names_once (view s)" and a: "a = tree_of (view s)"
    using s by (simp_all add: implements_def)
  have p': "old_path (tree_of (view s)) path" and sz: "0 < sz" and len: "unat sz \<le> length buf"
    and fit: "unat off + unat sz < 2 ^ 43" using p a by simp_all
  show ?thesis
  proof (cases rule: old_path_node [OF inv p'])
    case 1
    then show ?thesis using s by (simp add: rufs_write_def a implements_def)
  next
    case i: (2 i)
    show ?thesis
    proof (cases rule: tree_node [OF i(3)])
      case 1
      then have "itype (inodes (view s) i) \<noteq> S_IFREG" using IFREG_not_dir by (auto simp: is_dir_def)
      then show ?thesis using i(1,4) 1 s by (simp add: rufs_write_def a implements_def)
    next
      case f: 2
      let ?n = "inodes (view s) i"
      have c: "core (view s)" using fs_invD(2) [OF inv] .
      have reg: "itype ?n = S_IFREG" using ty i(3) f(1) by (simp add: typed_def)
      show ?thesis
      proof (cases rule: write_cases [OF inv i(4,3) reg fit len, of mt at])
        case (1 r t)
        note t = tree_partly [OF c i(3) f(1) 1(3,5)]
        have lift: "r < int n" if "nat r < n" for n using that by arith
        have "nat r < unat sz" using 1(4) sz by (auto simp: cut_short_def EFBIG_def ENOSPC_def word_less_nat_alt)
        then have "r < int (unat sz)" by (rule lift)
        moreover have "0 < r \<and> unat off + nat r \<le> 16 * BLOCK_SIZE \<or> r = -ENOSPC \<or> r = -EFBIG \<and> 16 * BLOCK_SIZE \<le> unat off"
          using 1(4) by (auto simp: cut_short_def)
        ultimately have "fs_spec (Write mt at path buf sz off) a (Code r) (tree_of (view t))"
          using i(1) f(2) t(1) by (simp add: a)
        moreover have "names_once (view t)" using names_once_file [OF c i(3) f(1) ty(2)] 1(3) by blast
        ultimately show ?thesis using 1(1,2) t(2) ty by (simp add: implements_def)
      next
        case (2 t)
        note t = tree_written [OF c i(3) f(1) 2(3) sz len]
        have "unat off + unat sz \<le> 16 * BLOCK_SIZE" using 2(3) sz by (auto simp: file_written_def)
        then have "sint (ucast sz :: u32) = int (unat sz)" by (intro sint_done) (simp add: fs_consts)
        moreover have "fs_spec (Write mt at path buf sz off) a (Code (int (unat sz))) (tree_of (view t))"
          using i(1) f(2) t(1) by (simp add: a)
        moreover have "names_once (view t)" using names_once_file [OF c i(3) f(1) ty(2)] 2(3) by blast
        ultimately show ?thesis using 2(1,2) t(2) ty by (simp add: implements_def)
      qed
    qed
  qed
qed

text \<open>The parent of a new name.\<close>

lemma new_path_parent:
  assumes inv: "fs_inv s" and p: "new_path (tree_of (view s)) path"
  obtains (missing) "awalk (tree_of (view s)) 0 (butlast (tokens path)) = None"
      "new_entry_parent s path = Some (Inl (-ENOENT))"
  | (regular) d n c where "awalk (tree_of (view s)) 0 (butlast (tokens path)) = Some d" "tree_of (view s) d = Some (File n c)"
      "new_entry_parent s path = Some (Inl (-ENOTDIR))"
  | (exists) d k where "awalk (tree_of (view s)) 0 (butlast (tokens path)) = Some d" "alive (view s) d" "is_dir (inodes (view s) d)"
      "dmap (view s) d (last (tokens path)) = Some k" "new_entry_parent s path = Some (Inl (-EEXIST))"
  | (absent) d where "awalk (tree_of (view s)) 0 (butlast (tokens path)) = Some d" "alive (view s) d" "is_dir (inodes (view s) d)"
      "dmap (view s) d (last (tokens path)) = None" "new_entry_parent s path = Some (Inr (inodes (view s) d))"
      "basename (take (PATH_MAX - 1) path) = last (tokens path)" "name_ok (last (tokens path))"
proof -
  let ?ts = "butlast (tokens path)" and ?t = "last (tokens path)"
  have ne: "tokens path \<noteq> []" and comp: "\<forall>t \<in> set (tokens path). component t" and len: "length path < PATH_MAX"
    and d: "passes_dirs (tree_of (view s)) 0 ?ts" and sz: "length ?t \<le> NAME_SIZE" and path: "abs_path (tokens path) = path"
    using p by (simp_all add: new_path_def plain_path_def)
  have e: "abs_path (?ts @ [?t]) = path" using ne path by simp
  have ts: "\<forall>t \<in> set ?ts. component t" "component ?t" using comp ne by (auto dest: in_set_butlastD)
  have lt: "length (abs_path (?ts @ [?t])) < PATH_MAX" using len e by simp
  then have short: "length (abs_path ?ts) < PATH_MAX" by (simp add: abs_path_def split: if_splits)
  note w = awalk_vwalk [OF fs_invD(3,4) [OF inv] d]
  note nm = name_at [OF ts(2) sz lt, unfolded e]
  have dn: "dirname (take (PATH_MAX - 1) path) = abs_path ?ts"
    using dirname_abs_path [OF ts(2,1)] abs_path_fits [OF lt] e by simp
  note g = get_node_walks [OF inv ts(1) short]
  show ?thesis
  proof (cases "vwalk (view s) 0 ?ts")
    case None
    then have "new_entry_parent s path = Some (Inl (-ENOENT))" unfolding new_entry_parent_def dn using g w by simp
    then show ?thesis using None w by (intro missing) simp_all
  next
    case (Some d)
    then have pt: "path_to s ?ts d" using ts(1) short w by (simp add: path_to_def)
    have aw: "awalk (tree_of (view s)) 0 ?ts = Some d" using Some w by simp
    note al = path_to_node(1) [OF inv pt]
    show ?thesis
    proof (cases rule: tree_node [OF al])
      case dir: 1
      show ?thesis
      proof (cases rule: new_entry_at [OF inv pt dir(1) ts(2) lt, unfolded e])
        case (1 k)
        then show ?thesis by (intro exists [OF aw al dir(1)])
      next
        case 2
        then show ?thesis by (intro absent [OF aw al dir(1)] nm)
      qed
    next
      case 2
      then have "new_entry_parent s path = Some (Inl (-ENOTDIR))"
        unfolding new_entry_parent_def dn using g w Some by (simp add: is_dir_def)
      then show ?thesis by (intro regular [OF aw 2(2)])
    qed
  qed
qed

text \<open>The calls that fail leave the tree; those that make a node add it under its name.\<close>

lemma new_path_cases:
  assumes inv: "fs_inv s" and p: "new_path (tree_of (view s)) path"
  obtains (refused) e where "new_entry_parent s path = Some (Inl e)"
      "\<forall>mk. new_node (tree_of (view s)) path mk (Code e) (tree_of (view s))"
  | (absent) d where "awalk (tree_of (view s)) 0 (butlast (tokens path)) = Some d" "alive (view s) d" "is_dir (inodes (view s) d)"
      "dmap (view s) d (basename (take (PATH_MAX - 1) path)) = None" "new_entry_parent s path = Some (Inr (inodes (view s) d))"
      "basename (take (PATH_MAX - 1) path) = last (tokens path)" "name_ok (basename (take (PATH_MAX - 1) path))"
      "\<forall>mk. new_node (tree_of (view s)) path mk (Code (-ENOSPC)) (tree_of (view s))"
proof (cases rule: new_path_parent [OF inv p])
  case 1
  then show ?thesis by (intro refused [of "-ENOENT"]) (simp_all add: new_node_def)
next
  case (2 d n c)
  then show ?thesis by (intro refused [of "-ENOTDIR"]) (simp_all add: new_node_def)
next
  case (3 d k)
  then show ?thesis by (intro refused [of "-EEXIST"]) (simp_all add: new_node_def tree_of_def)
next
  case (4 d)
  then show ?thesis by (intro absent [of d]) (simp_all add: new_node_def tree_of_def)
qed

lemma not_made:
  assumes s: "implements s a" and "disk_ok s'" "leaked (view s) (view s')"
  shows "implements s' a" "tree_of (view s') = a"
proof -
  have inv: "fs_inv s" using s by (simp add: implements_def)
  show "implements s' a" "tree_of (view s') = a"
    using s leaked_fs_inv [OF inv assms(2,3)] tree_leaked [OF fs_invD(2) [OF inv] assms(3)]
      names_once_leaked [OF fs_invD(2) [OF inv] assms(3)] by (simp_all add: implements_def)
qed

lemma made:
  assumes s: "implements s a" and inv': "fs_inv s'" and m: "node_made (view s) d (last (tokens path)) i n (view s')"
    and x: "tree_of (view s') i = Some (mk d i)" "is_dir n \<or> itype n = S_IFREG"
    and w: "awalk a 0 (butlast (tokens path)) = Some d" and new: "is_dir n \<Longrightarrow> distinct (entry_names (view s') i)"
  shows "implements s' (tree_of (view s')) \<and> new_node a path mk (Code 0) (tree_of (view s'))"
proof -
  have inv: "fs_inv s" and ty: "typed (view s)" and once: "names_once (view s)" and a: "a = tree_of (view s)"
    using s by (simp_all add: implements_def)
  note t = tree_made [OF fs_invD(2) [OF inv] m x]
  have "dmap (view s) d (last (tokens path)) = None" using m by (simp add: node_made_def)
  then have "new_node a path mk (Code 0) (tree_of (view s'))"
    using w t(1,3,4) by (simp add: new_node_def a Let_def) blast
  then show ?thesis using inv' t(2) [OF ty] names_once_made [OF fs_invD(2,3) [OF inv] m once new] by (simp add: implements_def)
qed

lemma create_steps:
  assumes s: "implements s a" and p: "new_path a path"
  shows "\<exists>r s'. rufs_ope (Create m at path) s = Some (r, s') \<and> implements s' (tree_of (view s')) \<and>
    fs_spec (Create m at path) a r (tree_of (view s'))"
proof -
  have inv: "fs_inv s" and a: "a = tree_of (view s)" using s by (simp_all add: implements_def)
  note p' = p [unfolded a]
  show ?thesis
  proof (cases rule: new_path_cases [OF inv p'])
    case (1 e)
    then show ?thesis using s by (simp add: rufs_create_def a implements_def)
  next
    case d: (2 d)
    show ?thesis
    proof (cases rule: create_at [OF inv d(7,5,2,3,4), of m at])
      case (1 t)
      then show ?thesis using d(8) not_made [OF s 1(2,3)] by (simp add: a)
    next
      case (2 i t)
      have md: "node_made (view s) d (last (tokens path)) i (new_file_inode (of_nat i) m at) (view t)"
        using 2(3) by (simp only: d(6))
      then have i: "inodes (view t) i = new_file_inode (of_nat i) m at" "i < 1024" by (simp_all add: node_made_def)
      have "bytes_of (view t) (new_file_inode (of_nat i) m at) = (\<lambda>_. None)"
        by (auto simp: bytes_of_def fun_eq_iff fs_consts less_mult_imp_div_less)
      then have "tree_of (view t) i = Some (File 0 (\<lambda>_. None))"
        using i IFREG_not_dir by (simp add: tree_of_def alive_def is_dir_def)
      moreover have "\<not> is_dir (new_file_inode (of_nat i) m at)" using IFREG_not_dir by (simp add: is_dir_def)
      ultimately show ?thesis
        using made [OF s 2(2) md, of "\<lambda>d i. File 0 (\<lambda>_. None)", OF _ _ d(1) [folded a]] 2(1) by simp
    qed
  qed
qed

lemma mkdir_steps:
  assumes s: "implements s a" and p: "new_path a path"
  shows "\<exists>r s'. rufs_ope (Mkdir m at path) s = Some (r, s') \<and> implements s' (tree_of (view s')) \<and>
    fs_spec (Mkdir m at path) a r (tree_of (view s'))"
proof -
  have inv: "fs_inv s" and a: "a = tree_of (view s)" using s by (simp_all add: implements_def)
  note p' = p [unfolded a]
  show ?thesis
  proof (cases rule: new_path_cases [OF inv p'])
    case (1 e)
    then show ?thesis using s by (simp add: rufs_mkdir_def a implements_def)
  next
    case d: (2 d)
    show ?thesis
    proof (cases rule: mkdir_at [OF inv d(7,5,2,3,4), of m at])
      case (1 t)
      then show ?thesis using d(8) not_made [OF s 1(2,3)] by (simp add: a)
    next
      case (2 i b t)
      have md: "node_made (view s) d (last (tokens path)) i (new_dir_inode (of_nat i) b m at) (view t)"
        using 2(4) by (simp only: d(6))
      then have i: "inodes (view t) i = new_dir_inode (of_nat i) b m at" "i < 1024" by (simp_all add: node_made_def)
      have dl: "d < 1024" using d(2) by (simp add: alive_def)
      have dir: "is_dir (new_dir_inode (of_nat i) b m at)" by (rule is_dir_new_dir)
      have "(\<lambda>u. map_option unat (dmap (view t) i u)) = [[DOT] \<mapsto> i, [DOT, DOT] \<mapsto> d]"
        using unat_u16 [OF i(2)] unat_u16 [OF dl] by (auto simp: 2(5) fun_eq_iff)
      then have "tree_of (view t) i = Some (Dir [[DOT] \<mapsto> i, [DOT, DOT] \<mapsto> d])"
        using i dir by (simp add: tree_of_def alive_def)
      from made [OF s 2(2) md, of "\<lambda>d i. Dir [[DOT] \<mapsto> i, [DOT, DOT] \<mapsto> d]", OF this _ d(1) [folded a]] show ?thesis
        using 2(1,6) dir by (simp add: DOT_def)
    qed
  qed
qed

lemma remount_steps:
  assumes s: "implements s a" and p: "0 \<le> fd" "disk_exists s"
  shows "\<exists>r s'. rufs_ope (Remount fd fd' m at x) s = Some (r, s') \<and> implements s' (tree_of (view s')) \<and>
    fs_spec (Remount fd fd' m at x) a r (tree_of (view s'))"
proof -
  have inv: "fs_inv s" using s by (simp add: implements_def)
  obtain t where "rufs_init fd fd' m at (next_process x s) = Some t" "fs_inv t" "view t = view s"
    by (rule remount [OF inv p(2,1), of fd' m at x])
  then show ?thesis using s by (simp add: implements_def)
qed

lemma formatted_tree:
  assumes "fs_inv s" "formatted m at (view s)"
  shows "implements s [0 \<mapsto> Dir [[DOT] \<mapsto> 0, [DOT, DOT] \<mapsto> 0]]"
proof -
  let ?v = "view s"
  have al: "alive ?v i \<longleftrightarrow> i = 0" for i
  proof -
    have "iused ?v = {0}" using assms(2) by (simp add: formatted_def)
    then show ?thesis using coreD(2) [OF fs_invD(2) [OF assms(1)], of i] fs_invD(4) [OF assms(1)] by auto
  qed
  note r = formatted_root [OF assms]
  have "(\<lambda>t. map_option unat (dmap ?v 0 t)) = [[DOT] \<mapsto> 0, [DOT, DOT] \<mapsto> 0]" using r(3) by (auto simp: fun_eq_iff)
  then have "tree_of ?v = [0 \<mapsto> Dir [[DOT] \<mapsto> 0, [DOT, DOT] \<mapsto> 0]]"
    using al r(2) by (auto simp: fun_eq_iff tree_of_def)
  moreover have "typed ?v" using al r(2) by (simp add: typed_def)
  ultimately show ?thesis using assms(1) formatted_names_once [OF assms] by (simp add: implements_def)
qed

text \<open>Every state that formatting and any steps lead to implements its tree.\<close>

lemma made_typed:
  assumes c: "core v" and m: "node_made v d nm i n v'" and n: "is_dir n \<or> itype n = S_IFREG" "ivalid n \<noteq> 0" and t: "typed v"
  shows "typed v'"
proof -
  have "alive v' i" using node_made_alive [OF m, of i] n(2) by simp
  then obtain x where "tree_of v' i = Some x" by (rule tree_node) metis+
  from tree_made(2) [OF c m this n(1) t] show ?thesis .
qed

lemma fs_step_typed:
  assumes "fs_step s s'" "fs_inv s" "typed (view s)"
  shows "typed (view s')"
  using assms
proof (induction rule: fs_step.induct)
  case (mkdir path m a s r s')
  note c = fs_invD(2) [OF mkdir.prems(1)]
  from mkdir_cases [OF mkdir.prems(1) mkdir.hyps] show ?case
  proof cases
    case 1
    then show ?thesis using tree_leaked(2) [OF c] mkdir.prems(2) by simp
  next
    case (2 d i b)
    then show ?thesis using made_typed [OF c _ _ _ mkdir.prems(2)] is_dir_new_dir by auto
  qed
next
  case (create path m a s r s')
  note c = fs_invD(2) [OF create.prems(1)]
  from create_cases [OF create.prems(1) create.hyps] show ?case
  proof cases
    case 1
    then show ?thesis using tree_leaked(2) [OF c] create.prems(2) by simp
  next
    case (2 d i)
    then show ?thesis using made_typed [OF c _ _ _ create.prems(2)] by auto
  qed
next
  case (read_file a path sz offset s r out s')
  from read_inode [OF read_file.prems(1) read_file.hyps] show ?case
    using tree_read(2) [OF fs_invD(2) [OF read_file.prems(1)]] read_file.prems(2) by auto
next
  case (write_file offset sz dat m a path s r s')
  note c = fs_invD(2) [OF write_file.prems(1)]
  show ?case
  proof (cases rule: write_inode [OF write_file.prems(1) write_file.hyps(3,1,2)])
    case 1
    then show ?thesis using write_file.prems(2) by simp
  next
    case (2 i)
    then obtain n where "inodes (view s') = (inodes (view s))(i := n)" "itype n = itype (inodes (view s) i)"
      "ivalid n = ivalid (inodes (view s) i)" by (auto simp: file_written_def touched_def intro: that [of "inodes (view s) i"])
    then show ?thesis using write_file.prems(2) by (auto simp: typed_def alive_def is_dir_def)
  qed
next
  case (restart s fd fd' m a x s')
  from remount [OF restart.prems(1) restart.hyps(1,2)]
  obtain t where "rufs_init fd fd' m a (next_process x s) = Some t" "view t = view s" by metis
  then show ?case using restart.hyps(3) restart.prems(2) by simp
qed (simp_all add: stub_ops)

lemma reachable_implements:
  assumes "fs_reachable s"
  shows "implements s (tree_of (view s))"
proof -
  have "typed (view s)"
    using assms
  proof (induction rule: fs_reachable.induct)
    case (format fd s m a r s')
    from mkfs_formats [OF format.hyps(1), of m a] format.hyps(2) have "fs_inv s'" "formatted m a (view s')" by auto
    then show ?case using formatted_tree by (simp add: implements_def)
  next
    case (step s s')
    then show ?case using fs_step_typed reachable_fs_inv by blast
  qed
  then show ?thesis using reachable_fs_inv [OF assms] reachable_names_once [OF assms] by (simp add: implements_def)
qed

text \<open>
  C1. The file system is a refinement of the tree, for requests within the bounds of \<open>call_allowed\<close>:
  paths through directories, new names of at most 208 bytes, reads that end below \<open>2 ^ 31\<close> and non-empty
  writes that end below \<open>2 ^ 43\<close>. Every such operation of \<open>rufs_ope\<close> returns, without a
  fault, and its answer and the new tree are those of \<open>fs_spec\<close>: lookups
  and listings answer for the node of the path, a creation adds one empty node under the last name or
  changes nothing, a read returns the bytes from the offset to the end or the first hole, a write puts
  its bytes there and changes no other node, and a remount keeps everything.
\<close>

theorem fs_calls_refine:
  assumes "implements s a" "call_allowed call a" "disk_exists s"
  shows "\<exists>r s' a'. rufs_ope call s = Some (r, s') \<and> implements s' a' \<and> fs_spec call a r a'"
proof -
  have inv: "fs_inv s" and once: "names_once (view s)" and a: "a = tree_of (view s)"
    using assms(1) by (simp_all add: implements_def)
  have ok: "old_path (tree_of (view s)) path" if "old_path a path" for path using that a by simp
  note stay = lookup_steps [OF inv once ok, folded a]
  have "\<exists>r s'. rufs_ope call s = Some (r, s') \<and> implements s' (tree_of (view s')) \<and> fs_spec call a r (tree_of (view s'))"
  proof (cases call)
    case (Getattr uid gid path)
    then show ?thesis using stay(1) [of path uid gid] assms(1,2) unfolding Getattr by (auto simp: a simp del: rufs_ope.simps fs_spec.simps)
  next
    case (Readdir path)
    then show ?thesis using stay(4) [of path] assms(1,2) unfolding Readdir by (auto simp: a simp del: rufs_ope.simps fs_spec.simps)
  next
    case (Opendir path)
    then show ?thesis using stay(2) [of path] assms(1,2) unfolding Opendir by (auto simp: a simp del: rufs_ope.simps fs_spec.simps)
  next
    case (Open path)
    then show ?thesis using stay(3) [of path] assms(1,2) unfolding Open by (auto simp: a simp del: rufs_ope.simps fs_spec.simps)
  next
    case (Mkdir m at path)
    then show ?thesis using mkdir_steps [OF assms(1), of path m at] assms(2) by simp
  next
    case (Create m at path)
    then show ?thesis using create_steps [OF assms(1), of path m at] assms(2) by simp
  next
    case (Read at path sz off)
    then have "old_path a path" "unat off + unat sz < 2 ^ 31" using assms(2) by simp_all
    from read_steps [OF assms(1) this, of at] obtain r s' where
      "rufs_ope call s = Some (r, s')" "implements s' a" "fs_spec call a r a" unfolding Read by blast
    then show ?thesis by (auto simp: implements_def)
  next
    case (Write m at path buf sz off)
    then show ?thesis using write_steps [OF assms(1), of m at path buf sz off] assms(2) by simp
  next
    case (Remount fd fd' m at x)
    then show ?thesis using remount_steps [OF assms(1), of fd fd' m at x] assms(2,3) by simp
  qed (use assms(1) a in \<open>simp_all add: stub_ops\<close>)
  then show ?thesis by blast
qed

lemma fresh_on_disk: "\<exists>s. fs_inv s \<and> formatted 0 0 (view s) \<and> disk_exists s"
proof -
  obtain s where s: "fs_inv s" "formatted 0 0 (view s)" using fresh_exists by blast
  let ?s = "s\<lparr>disk_exists := True\<rparr>"
  have ok: "disk_ok s" "disk_ok ?s" using fs_invD(1) [OF s(1)] by (simp_all add: disk_ok_def dev_ok_def)
  then have "view ?s = view s" using view_same_disk [of s ?s] by (simp add: disk_ok_def)
  then have "fs_inv ?s" "formatted 0 0 (view ?s)" using s ok by (simp_all add: fs_inv_def)
  then show ?thesis by (intro exI [of _ ?s]) simp
qed

lemma fs_calls_refine_witness:
  "\<exists>s s' i. rufs_ope (Create 5 6 (abs_path [[97]])) s = Some (Code 0, s') \<and>
    implements s [0 \<mapsto> Dir [[DOT] \<mapsto> 0, [DOT, DOT] \<mapsto> 0]] \<and>
    implements s' [0 \<mapsto> Dir [[DOT] \<mapsto> 0, [DOT, DOT] \<mapsto> 0, [97] \<mapsto> i], i \<mapsto> File 0 (\<lambda>_. None)]"
proof -
  let ?call = "Create 5 6 (abs_path [[97]])" and ?a = "[0 \<mapsto> Dir [[DOT] \<mapsto> 0, [DOT, DOT] \<mapsto> 0]] :: tree"
  obtain s where s: "fs_inv s" "formatted 0 0 (view s)" "disk_exists s" using fresh_on_disk by blast
  note im = formatted_tree [OF s(1,2)]
  have "\<forall>t \<in> set [[97]]. component t" using one_name(1) by simp
  note tk = tokens_abs_path [OF this]
  have "call_allowed ?call ?a" using one_name by (simp add: new_path_def plain_path_def tk)
  from fs_calls_refine [OF im this s(3)] obtain r s' a' where
    r: "rufs_ope ?call s = Some (r, s')" "implements s' a'" "fs_spec ?call ?a r a'" by blast
  obtain i t where "rufs_create 5 6 (abs_path [[97]]) s = Some (0, t)" using create_fresh [OF s(1,2)] by metis
  then have "r = Code 0" using r(1) by simp
  then obtain i where "a' = ?a(0 \<mapsto> Dir [[DOT] \<mapsto> 0, [DOT, DOT] \<mapsto> 0, [97] \<mapsto> i], i \<mapsto> File 0 (\<lambda>_. None))"
    using r(3) one_name(4,5) by (auto simp: new_node_def tk ENOSPC_def)
  then have "a' = [0 \<mapsto> Dir [[DOT] \<mapsto> 0, [DOT, DOT] \<mapsto> 0, [97] \<mapsto> i], i \<mapsto> File 0 (\<lambda>_. None)]" by simp
  then show ?thesis using r(1,2) im \<open>r = Code 0\<close> by blast
qed

end
