(* ===== verification/Counter.thy ===== *)
theory Counter
  imports Prelude
begin

text \<open>
  \<open>proj1-submit/thread.c\<close>: four threads that each add 1 to the shared \<open>x\<close>, \<open>loop\<close> times, under one
  mutex. \<open>x = x + 1\<close> is a load and a store, and the threads and \<open>main\<close> interleave in any order;
  \<open>pthread_mutex_lock\<close> and \<open>pthread_join\<close> wait, \<open>pthread_create\<close> starts its thread.
\<close>

section \<open>The program\<close>

datatype pc = Idle | Test | Lock | Load | Store | Unlock | Done

record thr =
  tpc :: pc
  ti :: int
  treg :: int

text \<open>
  \<open>mpc\<close> counts the calls of \<open>main\<close> that have returned: four creations, four joins and the
  destruction of the mutex. \<open>ub\<close> records an overflow of an int, which C leaves undefined.
\<close>

record prog =
  shared_x :: int
  owner :: "nat option"
  thrs :: "nat \<Rightarrow> thr"
  mpc :: nat
  ub :: bool

definition counter_boot :: prog where
  "counter_boot = \<lparr>shared_x = 0, owner = None, thrs = (\<lambda>_. \<lparr>tpc = Idle, ti = 0, treg = 0\<rparr>), mpc = 0, ub = False\<rparr>"

text \<open>One step of thread \<open>t\<close> in \<open>add_counter\<close>; none when it waits, has not started or has returned.\<close>

definition goto :: "nat \<Rightarrow> pc \<Rightarrow> prog \<Rightarrow> prog" where
  "goto t p s = s\<lparr>thrs := (thrs s)(t := (thrs s t)\<lparr>tpc := p\<rparr>)\<rparr>"

definition add_counter :: "int \<Rightarrow> nat \<Rightarrow> prog \<Rightarrow> prog option" where
  "add_counter loop t s =
     (case tpc (thrs s t) of
        Idle \<Rightarrow> None
      | Test \<Rightarrow> Some (goto t (if ti (thrs s t) < loop then Lock else Done) s)
      | Lock \<Rightarrow> (case owner s of None \<Rightarrow> Some (goto t Load (s\<lparr>owner := Some t\<rparr>)) | Some _ \<Rightarrow> None)
      | Load \<Rightarrow> Some (goto t Store (s\<lparr>thrs := (thrs s)(t := (thrs s t)\<lparr>treg := shared_x s\<rparr>)\<rparr>))
      | Store \<Rightarrow>
          (if \<not> int_ok (treg (thrs s t) + 1) then Some (s\<lparr>ub := True\<rparr>)
           else Some (goto t Unlock (s\<lparr>shared_x := treg (thrs s t) + 1\<rparr>)))
      | Unlock \<Rightarrow>
          Some (goto t Test (s\<lparr>owner := None, thrs := (thrs s)(t := (thrs s t)\<lparr>ti := ti (thrs s t) + 1\<rparr>)\<rparr>))
      | Done \<Rightarrow> None)"

text \<open>
  The calls of \<open>main\<close>: the creations, the joins, the destruction. Every \<open>pthread_create\<close> starts its thread; the
  code does not look whether it does.
\<close>

definition main_step :: "prog \<Rightarrow> prog option" where
  "main_step s =
     (if mpc s < 4 then Some (goto (mpc s) Test (s\<lparr>mpc := Suc (mpc s)\<rparr>))
      else if mpc s < 8 then
        if tpc (thrs s (mpc s - 4)) = Done then Some (s\<lparr>mpc := Suc (mpc s)\<rparr>) else None
      else if mpc s = 8 then Some (s\<lparr>mpc := 9\<rparr>)
      else None)"

inductive counter_step :: "int \<Rightarrow> prog \<Rightarrow> prog \<Rightarrow> bool" for loop where
  thread: "t < 4 \<Longrightarrow> add_counter loop t s = Some s' \<Longrightarrow> counter_step loop s s'"
| main: "main_step s = Some s' \<Longrightarrow> counter_step loop s s'"

inductive counter_reach :: "int \<Rightarrow> prog \<Rightarrow> bool" for loop where
  boot: "counter_reach loop counter_boot"
| step: "counter_reach loop s \<Longrightarrow> counter_step loop s s' \<Longrightarrow> counter_reach loop s'"

text \<open>
  \<open>main\<close> up to its first call: the exit code on a bad usage, or the number it announces; an
  overflow of \<open>4 * loop\<close> is undefined.
\<close>

definition counter_main :: "nat \<Rightarrow> int \<Rightarrow> (int + int) option" where
  "counter_main argc loop =
     (if argc \<noteq> 2 then Some (Inl 1)
      else if int_ok (4 * loop) then Some (Inr (4 * loop))
      else None)"

text \<open>The number \<open>main\<close> prints at the end.\<close>

definition counter_result :: "prog \<Rightarrow> int option" where
  "counter_result s = (if mpc s = 9 then Some (shared_x s) else None)"

section \<open>The invariant\<close>

text \<open>The threads between lock and unlock, and the increments thread \<open>t\<close> has stored.\<close>

definition critical :: "pc \<Rightarrow> bool" where
  "critical p \<longleftrightarrow> p = Load \<or> p = Store \<or> p = Unlock"

definition stored_by :: "thr \<Rightarrow> int" where
  "stored_by h = ti h + (if tpc h = Unlock then 1 else 0)"

definition thr_ok :: "int \<Rightarrow> thr \<Rightarrow> bool" where
  "thr_ok loop h \<longleftrightarrow> 0 \<le> ti h \<and> ti h \<le> max 0 loop \<and>
     (tpc h = Idle \<longrightarrow> ti h = 0) \<and> (tpc h = Lock \<or> critical (tpc h) \<longrightarrow> ti h < loop) \<and>
     (tpc h = Done \<longrightarrow> ti h = max 0 loop)"

definition counter_inv :: "int \<Rightarrow> prog \<Rightarrow> bool" where
  "counter_inv loop s \<longleftrightarrow>
     (\<forall>t<4. thr_ok loop (thrs s t)) \<and>
     (\<forall>t<4. critical (tpc (thrs s t)) \<longleftrightarrow> owner s = Some t) \<and>
     (\<forall>t<4. tpc (thrs s t) = Store \<longrightarrow> treg (thrs s t) = shared_x s) \<and>
     shared_x s = (\<Sum>t<4. stored_by (thrs s t)) \<and>
     (\<forall>t<4. tpc (thrs s t) = Idle \<longleftrightarrow> mpc s \<le> t) \<and> mpc s \<le> 9 \<and>
     (\<forall>t<4. t + 4 < mpc s \<longrightarrow> tpc (thrs s t) = Done) \<and>
     (\<forall>t. owner s = Some t \<longrightarrow> t < 4) \<and> \<not> ub s"

lemma sum_upd: "t < (n :: nat) \<Longrightarrow> (\<Sum>u<n. f ((h(t := a)) u)) = (\<Sum>u<n. f (h u)) - f (h t) + (f a :: int)"
proof -
  assume t: "t < n"
  then have "(\<Sum>u<n. f ((h(t := a)) u)) = f a + (\<Sum>u \<in> {..<n} - {t}. f ((h(t := a)) u))"
    by (subst sum.remove [of _ t]) auto
  also have "(\<Sum>u \<in> {..<n} - {t}. f ((h(t := a)) u)) = (\<Sum>u \<in> {..<n} - {t}. f (h u))"
    by (intro sum.cong) auto
  also have "\<dots> = (\<Sum>u<n. f (h u)) - f (h t)" using t by (subst sum_diff1) auto
  finally show ?thesis by simp
qed

lemma counter_boot_inv: "counter_inv loop counter_boot"
  by (simp add: counter_inv_def counter_boot_def thr_ok_def critical_def stored_by_def)

text \<open>A step of thread \<open>t\<close>, by what it does to the thread, to the mutex and to \<open>shared_x\<close>.\<close>

lemma thread_inv:
  assumes inv: "counter_inv loop s" and t: "t < 4" and live: "tpc (thrs s t) \<noteq> Idle" "tpc (thrs s t) \<noteq> Done"
    and h: "thr_ok loop h" "tpc h \<noteq> Idle" "tpc h = Store \<Longrightarrow> treg h = v"
    and own: "critical (tpc h) \<longleftrightarrow> w = Some t" "\<And>u. u \<noteq> t \<Longrightarrow> w = Some u \<longleftrightarrow> owner s = Some u"
    and v: "v = shared_x s - stored_by (thrs s t) + stored_by h" "v = shared_x s \<or> owner s = Some t"
  shows "counter_inv loop (s\<lparr>shared_x := v, owner := w, thrs := (thrs s)(t := h)\<rparr>)"
proof -
  let ?s = "s\<lparr>shared_x := v, owner := w, thrs := (thrs s)(t := h)\<rparr>"
  have i: "\<And>u. u < 4 \<Longrightarrow> thr_ok loop (thrs s u)" "\<And>u. u < 4 \<Longrightarrow> critical (tpc (thrs s u)) \<longleftrightarrow> owner s = Some u"
    "\<And>u. u < 4 \<Longrightarrow> tpc (thrs s u) = Store \<Longrightarrow> treg (thrs s u) = shared_x s"
    "shared_x s = (\<Sum>t<4. stored_by (thrs s t))"
    "\<And>u. u < 4 \<Longrightarrow> tpc (thrs s u) = Idle \<longleftrightarrow> mpc s \<le> u" "mpc s \<le> 9"
    "\<And>u. u < 4 \<Longrightarrow> u + 4 < mpc s \<Longrightarrow> tpc (thrs s u) = Done" "\<And>u. owner s = Some u \<Longrightarrow> u < 4" "\<not> ub s"
    using inv by (simp_all add: counter_inv_def)
  have "treg (thrs s u) = v" if u: "u < 4" "u \<noteq> t" "tpc (thrs s u) = Store" for u
  proof -
    have "owner s = Some u" using i(2) [OF u(1)] u(3) by (simp add: critical_def)
    then show ?thesis using i(3) [OF u(1,3)] v(2) u(2) by auto
  qed
  moreover have "v = (\<Sum>u<4. stored_by (((thrs s)(t := h)) u))" using v(1) i(4) t by (simp only: sum_upd)
  moreover have "\<not> t + 4 < mpc s" using i(7) [OF t] live(2) by blast
  moreover have "\<not> mpc s \<le> t" using i(5) [OF t] live(1) by blast
  moreover have "u < 4" if "w = Some u" for u using that own(2) [of u] i(8) [of u] t by (cases "u = t") auto
  ultimately show ?thesis
    using i(1,2,5,6,7,9) t h own live by (auto simp: counter_inv_def)
qed

lemma sum_4: "(\<Sum>u<(4 :: nat). f u) = f 0 + f 1 + f 2 + (f 3 :: int)"
  by (simp add: eval_nat_numeral)

lemma counter_room:
  assumes inv: "counter_inv loop s" and fit: "int_ok (4 * max 0 loop)" and t: "t < 4" "tpc (thrs s t) = Store"
  shows "int_ok (shared_x s + 1)"
proof -
  let ?b = "\<lambda>u. stored_by (thrs s u)"
  have ok: "\<And>u. u < 4 \<Longrightarrow> thr_ok loop (thrs s u)" using inv by (simp add: counter_inv_def)
  have b: "0 \<le> ?b u \<and> ?b u \<le> max 0 loop" if "u < 4" for u
    using ok [OF that] by (auto simp: thr_ok_def stored_by_def critical_def)
  have "?b t < max 0 loop" using ok [OF t(1)] t(2) by (auto simp: thr_ok_def stored_by_def critical_def)
  moreover have "t = 0 \<or> t = 1 \<or> t = 2 \<or> t = 3" using t(1) by auto
  ultimately have "shared_x s < 4 * max 0 loop" "0 \<le> shared_x s"
    using inv b [of 0] b [of 1] b [of 2] b [of 3] by (auto simp: counter_inv_def sum_4)
  then show ?thesis using fit unfolding int_ok_def by linarith
qed

lemma add_counter_inv:
  assumes inv: "counter_inv loop s" and fit: "int_ok (4 * max 0 loop)" and t: "t < 4"
    and run: "add_counter loop t s = Some s'"
  shows "counter_inv loop s'"
proof -
  let ?h = "thrs s t"
  have ok: "thr_ok loop ?h" and cr: "critical (tpc ?h) \<longleftrightarrow> owner s = Some t"
    and reg: "tpc ?h = Store \<Longrightarrow> treg ?h = shared_x s"
    using inv t by (simp_all add: counter_inv_def)
  have live: "tpc ?h \<noteq> Idle" "tpc ?h \<noteq> Done" using run by (auto simp: add_counter_def)
  note step = thread_inv [OF inv t live]
  show ?thesis
  proof (cases "tpc ?h")
    case Test
    let ?p = "if ti ?h < loop then Lock else Done"
    have s': "s' = s\<lparr>shared_x := shared_x s, owner := owner s, thrs := (thrs s)(t := ?h\<lparr>tpc := ?p\<rparr>)\<rparr>"
      using run Test by (simp add: add_counter_def goto_def)
    show ?thesis unfolding s'
      by (rule step) (use ok cr Test in \<open>auto simp: thr_ok_def critical_def stored_by_def split: if_splits\<close>)
  next
    case Lock
    then have free: "owner s = None" using run by (auto simp: add_counter_def split: option.splits)
    have s': "s' = s\<lparr>shared_x := shared_x s, owner := Some t, thrs := (thrs s)(t := ?h\<lparr>tpc := Load\<rparr>)\<rparr>"
      using run Lock free by (simp add: add_counter_def goto_def)
    show ?thesis unfolding s'
      by (rule step) (use ok cr Lock free in \<open>auto simp: thr_ok_def critical_def stored_by_def\<close>)
  next
    case Load
    have s': "s' = s\<lparr>shared_x := shared_x s, owner := owner s, thrs := (thrs s)(t := ?h\<lparr>treg := shared_x s, tpc := Store\<rparr>)\<rparr>"
      using run Load by (simp add: add_counter_def goto_def)
    show ?thesis unfolding s'
      by (rule step) (use ok cr Load in \<open>auto simp: thr_ok_def critical_def stored_by_def\<close>)
  next
    case Store
    have "int_ok (treg ?h + 1)" using counter_room [OF inv fit t Store] reg [OF Store] by simp
    then have s': "s' = s\<lparr>shared_x := shared_x s + 1, owner := owner s, thrs := (thrs s)(t := ?h\<lparr>tpc := Unlock\<rparr>)\<rparr>"
      using run Store reg by (simp add: add_counter_def goto_def)
    show ?thesis unfolding s'
      by (rule step) (use ok cr Store in \<open>auto simp: thr_ok_def critical_def stored_by_def\<close>)
  next
    case Unlock
    have s': "s' = s\<lparr>shared_x := shared_x s, owner := None, thrs := (thrs s)(t := ?h\<lparr>ti := ti ?h + 1, tpc := Test\<rparr>)\<rparr>"
      using run Unlock by (simp add: add_counter_def goto_def)
    show ?thesis unfolding s'
      by (rule step) (use ok cr Unlock in \<open>auto simp: thr_ok_def critical_def stored_by_def\<close>)
  qed (use live in simp_all)
qed

lemma main_step_inv:
  assumes inv: "counter_inv loop s" and run: "main_step s = Some s'"
  shows "counter_inv loop s'"
proof (cases "mpc s < 4")
  case True
  let ?h = "thrs s (mpc s)"
  have idle: "tpc ?h = Idle" "thr_ok loop ?h" using inv True by (simp_all add: counter_inv_def)
  have "critical (tpc ?h) \<longleftrightarrow> owner s = Some (mpc s)" using inv True by (simp add: counter_inv_def)
  then have no: "owner s \<noteq> Some (mpc s)" using idle(1) by (auto simp: critical_def)
  from idle have ok: "thr_ok loop (?h\<lparr>tpc := Test\<rparr>)" "stored_by (?h\<lparr>tpc := Test\<rparr>) = stored_by ?h"
    by (auto simp: thr_ok_def critical_def stored_by_def)
  have s': "s' = s\<lparr>mpc := Suc (mpc s), thrs := (thrs s)(mpc s := ?h\<lparr>tpc := Test\<rparr>)\<rparr>"
    using run True by (simp add: main_step_def goto_def)
  have "(\<Sum>u<4. stored_by (((thrs s)(mpc s := ?h\<lparr>tpc := Test\<rparr>)) u)) = (\<Sum>u<4. stored_by (thrs s u))"
    using True ok(2) by (simp only: sum_upd)
  moreover have "\<not> critical Test" by (simp add: critical_def)
  moreover have "Suc (mpc s) \<le> t \<longleftrightarrow> mpc s \<le> t \<and> t \<noteq> mpc s" for t by auto
  ultimately show ?thesis
    using inv True ok(1) no unfolding s' counter_inv_def
    by (intro conjI) (simp_all add: fun_upd_def)
next
  case False
  then have s': "s' = s\<lparr>mpc := Suc (mpc s)\<rparr>" and m: "4 \<le> mpc s" "mpc s < 9"
    and d: "mpc s < 8 \<Longrightarrow> tpc (thrs s (mpc s - 4)) = Done"
    using run by (auto simp: main_step_def split: if_splits)
  have "tpc (thrs s t) = Done" if t: "t < 4" "t + 4 < Suc (mpc s)" for t
  proof (cases "t + 4 = mpc s")
    case True
    then have "t = mpc s - 4" "mpc s < 8" using t(1) by simp_all
    then show ?thesis using d by simp
  next
    case False
    then show ?thesis using inv t by (simp add: counter_inv_def)
  qed
  then show ?thesis using inv m unfolding s' by (simp add: counter_inv_def)
qed

lemma int_ok_max: "int_ok (4 * loop) \<Longrightarrow> int_ok (4 * max 0 loop)"
  by (auto simp: int_ok_def)

lemma counter_reach_inv:
  assumes "counter_reach loop s" "int_ok (4 * loop)"
  shows "counter_inv loop s"
  using assms
proof (induction rule: counter_reach.induct)
  case boot
  show ?case by (rule counter_boot_inv)
next
  case (step s s')
  then have inv: "counter_inv loop s" by blast
  from step.hyps(2) show ?case
  proof cases
    case thread
    then show ?thesis using add_counter_inv [OF inv int_ok_max [OF step.prems]] by blast
  next
    case main
    then show ?thesis using main_step_inv [OF inv] by blast
  qed
qed

section \<open>Every run ends\<close>

definition thr_left :: "int \<Rightarrow> thr \<Rightarrow> nat" where
  "thr_left loop h =
     (let r = 5 * nat (loop - ti h)
      in case tpc h of Idle \<Rightarrow> r + 2 | Test \<Rightarrow> r + 1 | Lock \<Rightarrow> r | Load \<Rightarrow> r - 1 | Store \<Rightarrow> r - 2
         | Unlock \<Rightarrow> r - 3 | Done \<Rightarrow> 0)"

definition counter_left :: "int \<Rightarrow> prog \<Rightarrow> nat" where
  "counter_left loop s = (9 - mpc s) + (\<Sum>t<4. thr_left loop (thrs s t))"

lemma sum_upd_less: "t < (n :: nat) \<Longrightarrow> f a < f (h t) \<Longrightarrow> (\<Sum>u<n. f ((h(t := a)) u)) < (\<Sum>u<n. f (h u) :: nat)"
  by (rule sum_strict_mono_ex1) auto

lemma thread_decreases:
  assumes inv: "counter_inv loop s" and fit: "int_ok (4 * max 0 loop)" and t: "t < 4"
    and run: "add_counter loop t s = Some s'"
  shows "counter_left loop s' < counter_left loop s"
proof -
  let ?h = "thrs s t"
  have ok: "thr_ok loop ?h" and reg: "tpc ?h = Store \<Longrightarrow> treg ?h = shared_x s"
    using inv t by (simp_all add: counter_inv_def)
  have "\<exists>h. thrs s' = (thrs s)(t := h) \<and> mpc s' = mpc s \<and> thr_left loop h < thr_left loop ?h"
  proof (cases "tpc ?h")
    case Store
    then have "int_ok (treg ?h + 1)" using counter_room [OF inv fit t] reg by simp
    then show ?thesis using run Store ok
      by (auto simp: add_counter_def goto_def thr_left_def thr_ok_def critical_def intro!: exI [of _ "?h\<lparr>tpc := Unlock\<rparr>"])
  next
    case Unlock
    moreover from this have "nat (loop - ti ?h) = Suc (nat (loop - (ti ?h + 1)))"
      using ok by (auto simp: thr_ok_def critical_def)
    ultimately show ?thesis using run
      by (auto simp: add_counter_def goto_def thr_left_def intro!: exI [of _ "?h\<lparr>ti := ti ?h + 1, tpc := Test\<rparr>"])
  qed (use run ok in \<open>auto simp: add_counter_def goto_def thr_left_def thr_ok_def critical_def Let_def
      split: option.splits if_splits\<close>)
  then obtain h where "thrs s' = (thrs s)(t := h)" "mpc s' = mpc s" "thr_left loop h < thr_left loop ?h" by blast
  then show ?thesis
    using sum_upd_less [where f = "thr_left loop" and a = h and h = "thrs s", OF t] by (simp add: counter_left_def)
qed

lemma main_decreases:
  assumes inv: "counter_inv loop s" and run: "main_step s = Some s'"
  shows "counter_left loop s' < counter_left loop s"
proof (cases "mpc s < 4")
  case True
  let ?h = "thrs s (mpc s)"
  have "tpc ?h = Idle" using inv True by (simp add: counter_inv_def)
  then have "thr_left loop (?h\<lparr>tpc := Test\<rparr>) < thr_left loop ?h" by (simp add: thr_left_def)
  from sum_upd_less [where f = "thr_left loop" and h = "thrs s", OF True this] show ?thesis
    using run True by (auto simp: main_step_def goto_def counter_left_def)
next
  case False
  then show ?thesis using run by (auto simp: main_step_def counter_left_def split: if_splits)
qed

lemma step_decreases:
  assumes "counter_inv loop s" "int_ok (4 * loop)" "counter_step loop s s'"
  shows "counter_left loop s' < counter_left loop s"
  using assms(3)
proof cases
  case thread
  then show ?thesis using thread_decreases [OF assms(1) int_ok_max [OF assms(2)]] by blast
next
  case main
  then show ?thesis using main_decreases [OF assms(1)] by blast
qed

lemma counter_progress:
  assumes inv: "counter_inv loop s" and run: "mpc s < 9"
  shows "\<exists>s'. counter_step loop s s'"
proof -
  have main: ?thesis if "main_step s \<noteq> None" using that counter_step.main by blast
  have thr: ?thesis if "t < 4" "add_counter loop t s \<noteq> None" for t using that counter_step.thread by blast
  show ?thesis
  proof (cases "4 \<le> mpc s \<and> mpc s < 8 \<and> tpc (thrs s (mpc s - 4)) \<noteq> Done")
    case False
    then show ?thesis using run by (intro main) (auto simp: main_step_def)
  next
    case True
    let ?k = "mpc s - 4"
    have k: "?k < 4" "tpc (thrs s ?k) \<noteq> Idle" using True inv by (auto simp: counter_inv_def)
    show ?thesis
    proof (cases "owner s")
      case None
      then show ?thesis using True k
        by (intro thr [of ?k]) (auto simp: add_counter_def split: pc.splits)
    next
      case (Some t)
      then have "t < 4" "critical (tpc (thrs s t))" using inv by (auto simp: counter_inv_def)
      then show ?thesis by (intro thr [of t]) (auto simp: add_counter_def critical_def)
    qed
  qed
qed

section \<open>The result\<close>

text \<open>
  C25. The lock does its work: when \<open>4 * loop\<close> is an int, at most one thread is between lock and
  unlock in every state that any interleaving reaches, no addition overflows, and the number \<open>main\<close>
  prints at the end is the one it announced, or 0 when \<open>loop\<close> is negative.
\<close>

theorem counter_total:
  assumes start: "counter_main argc loop = Some (Inr goal)" and reach: "counter_reach loop s"
  shows "\<not> ub s \<and> (\<forall>t<4. \<forall>u<4. critical (tpc (thrs s t)) \<and> critical (tpc (thrs s u)) \<longrightarrow> t = u) \<and>
    (case counter_result s of None \<Rightarrow> mpc s < 9 | Some v \<Rightarrow> v = max 0 goal)"
proof -
  have fit: "int_ok (4 * loop)" and goal: "goal = 4 * loop"
    using start by (auto simp: counter_main_def split: if_splits)
  have inv: "counter_inv loop s" by (rule counter_reach_inv [OF reach fit])
  have "shared_x s = 4 * max 0 loop" if "mpc s = 9"
  proof -
    have "stored_by (thrs s t) = max 0 loop" if "t < 4" for t
      using inv that \<open>mpc s = 9\<close> by (simp add: counter_inv_def thr_ok_def stored_by_def)
    then show ?thesis using inv by (simp add: counter_inv_def sum_4)
  qed
  then have "case counter_result s of None \<Rightarrow> mpc s < 9 | Some v \<Rightarrow> v = max 0 goal"
    using inv goal by (auto simp: counter_result_def counter_inv_def max_def)
  moreover have "\<forall>t<4. \<forall>u<4. critical (tpc (thrs s t)) \<and> critical (tpc (thrs s u)) \<longrightarrow> t = u"
    using inv by (auto simp: counter_inv_def)
  ultimately show ?thesis using inv by (simp add: counter_inv_def)
qed

text \<open>A schedule: which thread moves, 4 for \<open>main\<close>.\<close>

fun counter_run :: "int \<Rightarrow> nat list \<Rightarrow> prog \<Rightarrow> prog option" where
  "counter_run loop [] s = Some s"
| "counter_run loop (t # ts) s = do {
     s \<leftarrow> (if t < 4 then add_counter loop t s else main_step s);
     counter_run loop ts s
   }"

lemma counter_run_reach: "counter_run loop ts s = Some s' \<Longrightarrow> counter_reach loop s \<Longrightarrow> counter_reach loop s'"
proof (induction ts arbitrary: s)
  case (Cons t ts)
  then obtain u where u: "(if t < 4 then add_counter loop t s else main_step s) = Some u" "counter_run loop ts u = Some s'"
    by (auto simp: bind_eq_Some_conv)
  then have "counter_step loop s u" by (auto split: if_splits intro: counter_step.intros)
  then show ?case using Cons.IH [OF u(2)] counter_reach.step [OF Cons.prems(2)] by blast
qed simp

text \<open>Two of the threads wait for the lock while a third holds it.\<close>

definition one_schedule :: "nat list" where
  "one_schedule = [4, 4, 0, 0, 0, 4, 1, 4, 2, 0, 0, 1, 1, 1, 1, 2, 2, 2, 2, 0, 3, 3, 3, 3, 3, 3, 1, 2, 4, 4, 4, 4, 4]"

lemma one_schedule_ends: "\<exists>s. counter_run 1 one_schedule counter_boot = Some s \<and> counter_result s = Some 4"
  by (simp add: one_schedule_def counter_boot_def add_counter_def main_step_def goto_def int_ok_def counter_result_def)

lemma counter_total_witness: "\<exists>s. counter_reach 1 s \<and> counter_result s = Some 4 \<and> \<not> ub s"
proof -
  obtain s where s: "counter_run 1 one_schedule counter_boot = Some s" "counter_result s = Some 4"
    using one_schedule_ends by blast
  have r: "counter_reach 1 s" by (rule counter_run_reach [OF s(1) counter_reach.boot])
  have "counter_main 2 1 = Some (Inr 4)" by (simp add: counter_main_def int_ok_def)
  from counter_total [OF this r] r s(2) show ?thesis by auto
qed

text \<open>
  C26. Every run of the program ends, and none gets stuck: there is no infinite sequence of steps, and
  a state from which no thread and not \<open>main\<close> can move has printed its result.
\<close>

theorem counter_terminates:
  assumes fit: "int_ok (4 * loop)"
  shows "(\<nexists>f. f 0 = counter_boot \<and> (\<forall>n. counter_step loop (f n) (f (Suc n)))) \<and>
    (\<forall>s. counter_reach loop s \<longrightarrow> (\<exists>s'. counter_step loop s s') \<or> counter_result s = Some (4 * max 0 loop))"
proof (intro conjI notI allI impI)
  assume "\<exists>f. f 0 = counter_boot \<and> (\<forall>n. counter_step loop (f n) (f (Suc n)))"
  then obtain f where f: "f 0 = counter_boot" "\<And>n. counter_step loop (f n) (f (Suc n))" by blast
  have "counter_reach loop (f n)" for n
    by (induction n) (use f counter_reach.intros in \<open>auto\<close>)
  then have less: "counter_left loop (f (Suc n)) < counter_left loop (f n)" for n
    using counter_reach_inv [OF _ fit] step_decreases [OF _ fit f(2)] by blast
  have "counter_left loop (f n) + n \<le> counter_left loop (f 0)" for n
  proof (induction n)
    case (Suc n)
    then show ?case using less [of n] by linarith
  qed simp
  from this [of "Suc (counter_left loop (f 0))"] show False by simp
next
  fix s assume r: "counter_reach loop s"
  have inv: "counter_inv loop s" by (rule counter_reach_inv [OF r fit])
  show "(\<exists>s'. counter_step loop s s') \<or> counter_result s = Some (4 * max 0 loop)"
  proof (cases "mpc s < 9")
    case True
    then show ?thesis using counter_progress [OF inv] by blast
  next
    case False
    then have m: "mpc s = 9" using inv by (simp add: counter_inv_def)
    then have "stored_by (thrs s t) = max 0 loop" if "t < 4" for t
      using inv that by (simp add: counter_inv_def thr_ok_def stored_by_def)
    then show ?thesis using inv m by (simp add: counter_inv_def sum_4 counter_result_def)
  qed
qed

lemma counter_terminates_witness: "(\<exists>s'. counter_step 1 counter_boot s') \<and> counter_result counter_boot = None"
proof -
  have "int_ok (4 * 1)" by (simp add: int_ok_def)
  from counter_terminates [OF this] counter_reach.boot [of 1] show ?thesis
    by (auto simp: counter_result_def counter_boot_def)
qed

end
