(* ===== verification/Contexts.thy ===== *)
theory Contexts
  imports Prelude
begin

text \<open>
  The programs that switch user contexts: \<open>proj1-submit/ucontext.c\<close> and the three samples of
  \<open>project2-release/sample-code\<close>. A context is the place where control goes on when it is set, with
  the context it is linked to; a program is a step function on the place of control, the contexts
  and what was printed. \<open>ans k\<close> says whether the call number \<open>k\<close> that can fail, of \<open>getcontext\<close>,
  \<open>malloc\<close>, \<open>setcontext\<close> and \<open>swapcontext\<close>, succeeds. \<open>out\<close> holds the lines of the standard
  output, without their newlines; what \<open>perror\<close> writes is left out.
\<close>

section \<open>Contexts\<close>

text \<open>
  Control is at a label or the process has ended with a status. \<open>cur\<close> is the context whose function
  runs; when that function returns, its link is resumed, and without a link the process ends.
  \<open>stacks\<close> counts the stacks allocated, \<open>resumed_to_main\<close> is the flag of \<open>ucontext.c\<close>.
\<close>

record 'l machine =
  control :: "'l + int"
  ctxs :: "nat \<Rightarrow> 'l option"
  links :: "nat \<Rightarrow> nat option"
  cur :: "nat option"
  stacks :: nat
  calls :: nat
  resumed_to_main :: bool
  out :: "string list"

definition boot :: "'l \<Rightarrow> 'l machine" where
  "boot l = \<lparr>control = Inl l, ctxs = (\<lambda>_. None), links = (\<lambda>_. None), cur = None, stacks = 0, calls = 0, resumed_to_main = False, out = []\<rparr>"

definition goto_label :: "'l \<Rightarrow> 'l machine \<Rightarrow> 'l machine" where "goto_label l s = s\<lparr>control := Inl l\<rparr>"
definition end_with :: "int \<Rightarrow> 'l machine \<Rightarrow> 'l machine" where "end_with r s = s\<lparr>control := Inr r\<rparr>"
definition puts :: "string \<Rightarrow> 'l machine \<Rightarrow> 'l machine" where "puts t s = s\<lparr>out := out s @ [t]\<rparr>"
definition called :: "'l machine \<Rightarrow> 'l machine" where "called s = s\<lparr>calls := Suc (calls s)\<rparr>"

text \<open>The context \<open>c\<close> resumes where the saving call returns, at \<open>l\<close>.\<close>

definition save_context :: "nat \<Rightarrow> 'l \<Rightarrow> 'l machine \<Rightarrow> 'l machine" where
  "save_context c l s = s\<lparr>ctxs := (ctxs s)(c := Some l)\<rparr>"

definition make_context :: "nat \<Rightarrow> 'l \<Rightarrow> nat option \<Rightarrow> 'l machine \<Rightarrow> 'l machine" where
  "make_context c f d s = s\<lparr>ctxs := (ctxs s)(c := Some f), links := (links s)(c := d)\<rparr>"

definition set_context :: "nat \<Rightarrow> 'l machine \<Rightarrow> 'l machine option" where
  "set_context c s = do {
     l \<leftarrow> ctxs s c;
     Some (s\<lparr>control := Inl l, cur := Some c\<rparr>)
   }"

definition return_from :: "'l machine \<Rightarrow> 'l machine option" where
  "return_from s =
     (case cur s of
        None \<Rightarrow> Some (end_with 0 s)
      | Some c \<Rightarrow> (case links s c of None \<Rightarrow> Some (end_with 0 s) | Some d \<Rightarrow> set_context d s))"

text \<open>
  The run of a program: \<open>Inr\<close> the machine in which it ended, \<open>Inl\<close> the machine after the given
  number of steps, none when a context that was never saved is set.
\<close>

fun run :: "('l \<Rightarrow> 'l machine \<Rightarrow> 'l machine option) \<Rightarrow> nat \<Rightarrow> 'l machine \<Rightarrow> ('l machine + 'l machine) option" where
  "run step fuel s =
     (case control s of
        Inr r \<Rightarrow> Some (Inr s)
      | Inl l \<Rightarrow> (case fuel of 0 \<Rightarrow> Some (Inl s) | Suc n \<Rightarrow> do { s \<leftarrow> step l s; run step n s }))"

declare run.simps [simp del]

lemmas machine_defs = goto_label_def end_with_def puts_def called_def save_context_def make_context_def
  set_context_def return_from_def boot_def

section \<open>ucontext.c\<close>

datatype uc_label = Start | Resumed | Transfer | Worker1

text \<open>The lines it prints.\<close>

definition saving_line :: string where "saving_line = ''In main: saving main context with getcontext''"
definition transfer_line :: string where "transfer_line = ''In main: transferring control to worker using setcontext''"
definition started_line :: string where "started_line = ''In worker: started''"
definition returning_line :: string where "returning_line = ''In worker: returning (uc_link will switch back to main)''"
definition unreachable_line :: string where "unreachable_line = ''In main: unreachable after setcontext''"

definition main_ctx :: nat where "main_ctx = 0"
definition worker1_ctx :: nat where "worker1_ctx = 1"

definition worker1 :: "'l machine \<Rightarrow> 'l machine option" where
  "worker1 s =
     return_from (puts returning_line
       (puts started_line s))"

text \<open>Initialising a context; \<open>here\<close> is where its \<open>getcontext\<close> returns. \<open>Inl\<close>: the process has exited.\<close>

definition init_context :: "(nat \<Rightarrow> bool) \<Rightarrow> nat \<Rightarrow> 'l \<Rightarrow> nat option \<Rightarrow> 'l \<Rightarrow> 'l machine \<Rightarrow> 'l machine + 'l machine" where
  "init_context ans ctx fn link_ctx here s =
     (if \<not> ans (calls s) then Inl (end_with 1 (called s))
      else
        let s = save_context ctx here (called s) in
        if \<not> ans (calls s) then Inl (end_with 1 (called s))
        else Inr (make_context ctx fn link_ctx (s\<lparr>calls := Suc (calls s), stacks := Suc (stacks s)\<rparr>)))"

definition ucontext_main :: "(nat \<Rightarrow> bool) \<Rightarrow> uc_label \<Rightarrow> uc_label machine \<Rightarrow> uc_label machine option" where
  "ucontext_main ans l s =
     (case l of
        Start \<Rightarrow>
          let s = puts saving_line s in
          if \<not> ans (calls s) then Some (end_with 1 (called s))
          else Some (goto_label Resumed (save_context main_ctx Resumed (called s)))
      | Resumed \<Rightarrow>
          (case init_context ans worker1_ctx Worker1 (Some main_ctx) Resumed s of
             Inl s \<Rightarrow> Some s
           | Inr s \<Rightarrow>
               if \<not> resumed_to_main s then
                 Some (goto_label Transfer
                   (puts transfer_line (s\<lparr>resumed_to_main := True\<rparr>)))
               else Some (end_with 0 (puts unreachable_line s)))
      | Transfer \<Rightarrow>
          if \<not> ans (calls s) then Some (end_with 1 (called s))
          else set_context worker1_ctx (called s)
      | Worker1 \<Rightarrow> worker1 s)"

section \<open>The samples\<close>

text \<open>
  \<open>getcontext.c\<close>, \<open>makecontext.c\<close> and \<open>swapcontext.c\<close>, from the first line of \<open>main\<close> on; the check
  of \<open>argc\<close> is the first argument. \<open>cctx\<close> and \<open>nctx\<close> are their contexts.
\<close>

definition again_line :: string where "again_line = ''I am going again and again with no context ''"
definition about_line :: string where "about_line = '' about to call make  context''"
definition modified_line :: string where "modified_line = ''Successfully modified context''"
definition threaded_line :: string where "threaded_line = ''Donald- you are threaded''"
definition allocate_line :: string where "allocate_line = ''allocate stack, attach func, with 1 parameter''"
definition swapped_line :: string where "swapped_line = ''swap  context executed correctly ''"

definition cctx :: nat where "cctx = 0"
definition nctx :: nat where "nctx = 1"

datatype sample_label = Begin | After | Entry | Swapped

definition getcontext_main :: "nat \<Rightarrow> (nat \<Rightarrow> bool) \<Rightarrow> sample_label \<Rightarrow> sample_label machine \<Rightarrow> sample_label machine option" where
  "getcontext_main argc ans l s =
     (case l of
        Begin \<Rightarrow>
          if argc \<noteq> 1 then Some (end_with 1 (puts '': USAGE Program Name and No  Arguments expected'' s))
          else if \<not> ans (calls s) then Some (end_with 1 (called s))
          else Some (goto_label After (save_context cctx After (called s)))
      | _ \<Rightarrow>
          let s = puts again_line s in
          if \<not> ans (calls s) then Some (end_with 1 (called s))
          else set_context cctx (called s))"

definition simplef :: "'l machine \<Rightarrow> 'l machine option" where
  "simplef s = return_from (puts threaded_line s)"

text \<open>A \<open>setcontext\<close> that fails goes on with the next statement.\<close>

definition makecontext_main :: "nat \<Rightarrow> (nat \<Rightarrow> bool) \<Rightarrow> sample_label \<Rightarrow> sample_label machine \<Rightarrow> sample_label machine option" where
  "makecontext_main argc ans l s =
     (case l of
        Begin \<Rightarrow>
          if argc \<noteq> 1 then Some (end_with 1 (puts '': USAGE Program Name and no Arguments expected'' s))
          else (case init_context ans cctx Entry None After s of
             Inl s \<Rightarrow> Some s
           | Inr s \<Rightarrow>
               let s = puts modified_line (puts about_line s) in
               if \<not> ans (calls s) then Some (end_with 0 (puts ''make  context executed correctly '' (called s)))
               else set_context cctx (called s))
      | Entry \<Rightarrow> simplef s
      | _ \<Rightarrow> None)"

definition f1withparam :: "(nat \<Rightarrow> bool) \<Rightarrow> 'l machine \<Rightarrow> 'l machine option" where
  "f1withparam ans s =
     (let s = puts threaded_line s in
      if \<not> ans (calls s) then return_from (called s) else set_context nctx (called s))"

definition swapcontext_main :: "nat \<Rightarrow> (nat \<Rightarrow> bool) \<Rightarrow> sample_label \<Rightarrow> sample_label machine \<Rightarrow> sample_label machine option" where
  "swapcontext_main argc ans l s =
     (case l of
        Begin \<Rightarrow>
          if argc \<noteq> 1 then Some (end_with 1 (puts '': USAGE Program Name and no Arguments expected'' s))
          else (case init_context ans cctx Entry None After s of
             Inl s \<Rightarrow> Some s
           | Inr s \<Rightarrow>
               let s = puts modified_line
                   (puts allocate_line s) in
               if \<not> ans (calls s) then Some (goto_label Swapped (called s))
               else set_context cctx (save_context nctx Swapped (called s)))
      | Entry \<Rightarrow> f1withparam ans s
      | Swapped \<Rightarrow> Some (end_with 0 (puts swapped_line s))
      | After \<Rightarrow> None)"

section \<open>What they do\<close>

lemma run_next: "control s = Inl l \<Longrightarrow> step l s = Some s' \<Longrightarrow> run step (Suc n) s = run step n s'"
  by (simp add: run.simps [of step "Suc n" s])

lemma run_ended: "control s = Inr r \<Longrightarrow> run step n s = Some (Inr s)"
  by (simp add: run.simps [of step n s])

lemma run_stopped: "control s = Inl l \<Longrightarrow> run step 0 s = Some (Inl s)"
  by (simp add: run.simps [of step 0 s])

lemma other_lines: "saving_line \<noteq> unreachable_line" "transfer_line \<noteq> unreachable_line"
  "started_line \<noteq> unreachable_line" "returning_line \<noteq> unreachable_line"
  by (simp_all add: saving_line_def transfer_line_def started_line_def returning_line_def unreachable_line_def)

text \<open>
  C39. The first program ends after at most five switches of control, whatever the library answers.
  When no call fails, control comes back to \<open>main\<close> through \<open>uc_link\<close>, behind the first \<open>getcontext\<close>: the
  worker is initialised again, a second stack is allocated and the pointer to the first is lost, and
  the line that is said to be unreachable is printed. When a call fails, the status is 1 and that line
  is not printed.
\<close>

theorem ucontext_comes_back:
  "\<exists>s. run (ucontext_main ans) 5 (boot Start) = Some (Inr s) \<and>
    (if \<forall>k<6. ans k
     then control s = Inr 0 \<and> stacks s = 2 \<and>
       out s = [saving_line, transfer_line, started_line, returning_line, unreachable_line]
     else control s = Inr 1 \<and> unreachable_line \<notin> set (out s))"
proof -
  note defs = ucontext_main_def init_context_def worker1_def machine_defs main_ctx_def worker1_ctx_def
  note run = run_next run_ended
  have all: "(\<forall>k<6. ans k) \<longleftrightarrow> ans 0 \<and> ans 1 \<and> ans 2 \<and> ans 3 \<and> ans 4 \<and> ans 5"
    by (simp add: All_less_Suc eval_nat_numeral) blast
  consider "\<not> ans 0" | "ans 0" "\<not> ans 1" | "ans 0" "ans 1" "\<not> ans 2" | "ans 0" "ans 1" "ans 2" "\<not> ans 3"
    | "ans 0" "ans 1" "ans 2" "ans 3" "\<not> ans 4" | "ans 0" "ans 1" "ans 2" "ans 3" "ans 4" "\<not> ans 5"
    | "ans 0" "ans 1" "ans 2" "ans 3" "ans 4" "ans 5" by blast
  then show ?thesis unfolding all
    by cases (simp_all add: defs run other_lines [symmetric] Let_def eval_nat_numeral)
qed

lemma ucontext_comes_back_witness:
  "\<exists>s. run (ucontext_main (\<lambda>_. True)) 5 (boot Start) = Some (Inr s) \<and> stacks s = 2 \<and> last (out s) = unreachable_line"
  using ucontext_comes_back [of "\<lambda>_. True"] by auto

text \<open>
  The samples: \<open>getcontext.c\<close> never ends while \<open>setcontext\<close> succeeds, and prints its line at every
  turn; \<open>makecontext.c\<close> ends inside the function it switched to, without its last line;
  \<open>swapcontext.c\<close> comes back behind \<open>swapcontext\<close>, prints its last line and returns 0.
\<close>

lemma samples_run:
  assumes ok: "\<forall>k. ans k"
  shows "(\<exists>s. run (getcontext_main 1 ans) (Suc n) (boot Begin) = Some (Inl s) \<and> out s = replicate n again_line) \<and>
    (\<exists>s. run (makecontext_main 1 ans) 2 (boot Begin) = Some (Inr s) \<and> control s = Inr 0 \<and>
      out s = [about_line, modified_line, threaded_line]) \<and>
    (\<exists>s. run (swapcontext_main 1 ans) 3 (boot Begin) = Some (Inr s) \<and> control s = Inr 0 \<and>
      out s = [allocate_line, modified_line, threaded_line, swapped_line])"
proof (intro conjI)
  note defs = init_context_def machine_defs cctx_def nctx_def run_next run_ended run_stopped Let_def eval_nat_numeral
  have turn: "\<exists>t. run (getcontext_main 1 ans) n s = Some (Inl t) \<and> out t = out s @ replicate n again_line"
    if "control s = Inl After" "ctxs s cctx = Some After" for s :: "sample_label machine" and n
    using that
  proof (induction n arbitrary: s)
    case 0
    then show ?case by (simp add: run_stopped)
  next
    case (Suc n)
    let ?s = "called (puts again_line s)\<lparr>control := Inl After, cur := Some cctx\<rparr>"
    have "getcontext_main 1 ans After s = Some ?s"
      using Suc.prems ok by (simp add: getcontext_main_def machine_defs)
    then have "run (getcontext_main 1 ans) (Suc n) s = run (getcontext_main 1 ans) n ?s"
      by (rule run_next [OF Suc.prems(1)])
    moreover have "ctxs ?s cctx = Some After" using Suc.prems(2) by (simp add: machine_defs)
    ultimately show ?case using Suc.IH [of ?s] by (auto simp: machine_defs)
  qed
  let ?b = "goto_label After (save_context cctx After (called (boot Begin)))"
  have "run (getcontext_main 1 ans) (Suc n) (boot Begin) = run (getcontext_main 1 ans) n ?b"
    by (rule run_next [where l = Begin]) (use ok in \<open>simp_all add: getcontext_main_def machine_defs\<close>)
  moreover have "control ?b = Inl After" "ctxs ?b cctx = Some After" "out ?b = []" by (simp_all add: machine_defs)
  ultimately show "\<exists>s. run (getcontext_main 1 ans) (Suc n) (boot Begin) = Some (Inl s) \<and> out s = replicate n again_line"
    using turn [of ?b n] by simp
  show "\<exists>s. run (makecontext_main 1 ans) 2 (boot Begin) = Some (Inr s) \<and> control s = Inr 0 \<and>
      out s = [about_line, modified_line, threaded_line]"
    using ok by (simp add: makecontext_main_def simplef_def defs)
  show "\<exists>s. run (swapcontext_main 1 ans) 3 (boot Begin) = Some (Inr s) \<and> control s = Inr 0 \<and>
      out s = [allocate_line, modified_line, threaded_line, swapped_line]"
    using ok by (simp add: swapcontext_main_def f1withparam_def defs)
qed

lemma samples_run_witness:
  "\<exists>s. run (getcontext_main 1 (\<lambda>_. True)) 4 (boot Begin) = Some (Inl s) \<and> out s = [again_line, again_line, again_line]"
proof -
  have "\<forall>k. (\<lambda>_. True) (k :: nat)" by simp
  from samples_run [OF this, of 3] show ?thesis by (simp add: numeral_3_eq_3 eval_nat_numeral)
qed

end
