(* ===== verification/Timer.thy ===== *)
theory Timer
  imports Prelude
begin

text \<open>
  \<open>project2-release/sample-code/timer.c\<close>: a handler for the profiling signal, a timer that goes off
  once, and a loop without an end. The kernel's part of it, that an armed timer that goes off raises
  the signal and starts again with its interval, is the documented behaviour of \<open>setitimer\<close>.
\<close>

section \<open>The program\<close>

record timeval =
  tv_sec :: nat
  tv_usec :: nat

definition zero_time :: timeval where
  "zero_time = \<lparr>tv_sec = 0, tv_usec = 0\<rparr>"

record itimerval =
  it_interval :: timeval
  it_value :: timeval

text \<open>\<open>sa_handler\<close> says whether \<open>ring\<close> is installed; without it the signal ends the process.\<close>

record timer_process =
  sa_handler :: bool
  itimer :: itimerval
  printed :: "string list"
  alive :: bool

definition timer_boot :: timer_process where
  "timer_boot = \<lparr>sa_handler = False, itimer = \<lparr>it_interval = zero_time, it_value = zero_time\<rparr>, printed = [], alive = True\<rparr>"

definition ring_line :: string where
  "ring_line = ''RING RING! The timer has gone off''"

definition ring :: "timer_process \<Rightarrow> timer_process" where
  "ring s = s\<lparr>printed := printed s @ [ring_line]\<rparr>"

text \<open>\<open>main\<close> up to its loop; the flags say whether \<open>sigaction\<close> and \<open>setitimer\<close> succeed.\<close>

definition timer_main :: "bool \<Rightarrow> bool \<Rightarrow> timer_process \<Rightarrow> timer_process" where
  "timer_main sigaction_ok setitimer_ok s =
     (let s = (if sigaction_ok then s\<lparr>sa_handler := True\<rparr> else s);
          timer = \<lparr>it_interval = \<lparr>tv_sec = 0, tv_usec = 0\<rparr>, it_value = \<lparr>tv_sec = 1, tv_usec = 0\<rparr>\<rparr>
      in if setitimer_ok then s\<lparr>itimer := timer\<rparr> else s)"

text \<open>What happens in the loop: a turn of it, or the timer going off, which only an armed one does.\<close>

datatype timer_event = Turn | Goes_off

definition timer_event :: "timer_event \<Rightarrow> timer_process \<Rightarrow> timer_process option" where
  "timer_event e s =
     (if \<not> alive s then None
      else case e of
        Turn \<Rightarrow> Some s
      | Goes_off \<Rightarrow>
          if it_value (itimer s) = zero_time then None
          else let s = s\<lparr>itimer := (itimer s)\<lparr>it_value := it_interval (itimer s)\<rparr>\<rparr>
               in Some (if sa_handler s then ring s else s\<lparr>alive := False\<rparr>))"

fun timer_run :: "timer_event list \<Rightarrow> timer_process \<Rightarrow> timer_process option" where
  "timer_run [] s = Some s"
| "timer_run (e # es) s = do {
     s \<leftarrow> timer_event e s;
     timer_run es s
   }"

section \<open>It rings once\<close>

lemma disarmed_run:
  "it_value (itimer s) = zero_time \<Longrightarrow> timer_run es s = Some t \<Longrightarrow> t = s \<and> Goes_off \<notin> set es"
  by (induction es arbitrary: s)
    (auto simp: timer_event_def split: if_splits timer_event.splits Option.bind_splits)

lemma armed_run:
  assumes "it_value (itimer s) \<noteq> zero_time" "it_interval (itimer s) = zero_time" "sa_handler s" "timer_run es s = Some t"
  shows "alive t = alive s \<and> printed t = printed s @ replicate (length (filter ((=) Goes_off) es)) ring_line \<and>
    length (filter ((=) Goes_off) es) \<le> 1"
  using assms
proof (induction es arbitrary: s)
  case (Cons e es)
  show ?case
  proof (cases e)
    case Turn
    then have "timer_run es s = Some t" using Cons.prems(4) by (simp add: timer_event_def split: if_splits)
    then show ?thesis using Cons Turn by simp
  next
    case Goes_off
    let ?s = "ring (s\<lparr>itimer := (itimer s)\<lparr>it_value := it_interval (itimer s)\<rparr>\<rparr>)"
    have r: "timer_run es ?s = Some t"
      using Cons.prems Goes_off by (simp add: timer_event_def Let_def split: if_splits)
    have z: "it_value (itimer ?s) = zero_time" using Cons.prems(2) by (simp add: ring_def)
    from disarmed_run [OF z r] have "t = ?s" "Goes_off \<notin> set es" by auto
    then show ?thesis using Goes_off by (auto simp: ring_def filter_empty_conv)
  qed
qed simp

text \<open>
  Whatever the kernel does, the program rings at most once, once when its timer goes off, and it never
  ends: its loop can always take another turn.
\<close>

lemma timer_rings_once:
  assumes "timer_run es (timer_main True True timer_boot) = Some t"
  shows "printed t = replicate (length (filter ((=) Goes_off) es)) ring_line \<and>
    length (filter ((=) Goes_off) es) \<le> 1 \<and> timer_event Turn t = Some t"
proof -
  have "it_value (itimer (timer_main True True timer_boot)) \<noteq> zero_time"
    "it_interval (itimer (timer_main True True timer_boot)) = zero_time" "sa_handler (timer_main True True timer_boot)"
    "alive (timer_main True True timer_boot)" "printed (timer_main True True timer_boot) = []"
    by (simp_all add: timer_main_def timer_boot_def zero_time_def)
  then show ?thesis using armed_run [OF _ _ _ assms] by (simp add: timer_event_def)
qed

text \<open>It does ring, and a program whose \<open>sigaction\<close> failed is ended by the signal instead.\<close>

lemma timer_can_ring:
  "\<exists>t. timer_run [Turn, Goes_off, Turn] (timer_main True True timer_boot) = Some t \<and> printed t = [ring_line]"
  "\<exists>t. timer_run [Turn, Goes_off] (timer_main False True timer_boot) = Some t \<and> \<not> alive t \<and> printed t = []"
  by (simp_all add: timer_main_def timer_boot_def timer_event_def ring_def zero_time_def)

end
