(* ===== verification/Spec2Isabelle.thy ===== *)
theory Spec2Isabelle
  imports Bitmap Threads MatMult VmSteps VmRace FsLimits FsSpec Counter Contexts Timer
begin

text \<open>
  A verification library for the operating-systems projects of this repository. The projects share no
  code, and the library follows that: a prelude, and one group of theories for each project.

  \<^bold>\<open>How the C code is modelled.\<close> A struct is a record, an integer a word of its width (an \<open>int\<close> that the
  code keeps small is an integer), memory a function or a list of bytes. A function that can leave its
  arrays, dereference \<open>NULL\<close>, overflow an \<open>int\<close> or take a lock it holds returns an option, and \<open>None\<close> is
  that fault, so that a theorem that says \<open>Some\<close> says that none of this happens. Every error code and early
  return is a branch. What the code gets from outside is an argument: what \<open>malloc\<close>, \<open>calloc\<close> and \<open>open\<close>
  answer, the clock, the user.

  \<^bold>\<open>Theories.\<close>

  \<^item> \<open>Prelude\<close>: words, the option monad, byte memory and byte lists with their laws, and the
    collections \<open>bit_laws\<close>, \<open>mem_laws\<close> and \<open>monad_laws\<close>.

  \<^item> Project 1. \<open>Bitmap\<close>: \<open>proj1-submit/bitops.c\<close>, with the other two byte bitmaps of the repository
    (\<open>project4/rufs.h\<close>, the macros of \<open>project3/my_vm.c\<close>) under one contract, the locales \<open>bit_store\<close> and
    \<open>bit_pool\<close>. \<open>Counter\<close>: \<open>proj1-submit/thread.c\<close>, every interleaving of its threads with the load and
    the store of the shared variable apart. \<open>Contexts\<close>: \<open>proj1-submit/ucontext.c\<close> and the samples
    \<open>getcontext.c\<close>, \<open>makecontext.c\<close>, \<open>swapcontext.c\<close> of \<open>project2-release/sample-code\<close> on a machine whose
    contexts are labels. \<open>Timer\<close>: the sample \<open>timer.c\<close>.

  \<^item> Project 2, user-level threads. \<open>MinHeap\<close>: the run queue of \<open>thread-worker.h\<close> (\<open>enqueue\<close>,
    \<open>dequeue\<close>, \<open>removeNode\<close>) as an array heap, an interpretation of the locale \<open>prio_queue\<close>. \<open>Worker\<close>: the
    global state of \<open>thread-worker.c\<close> and \<open>worker_create\<close>, \<open>worker_yield\<close>, \<open>worker_exit\<close>, \<open>worker_join\<close>, the
    mutex operations and the statistics; a context switch ends a call and says where control goes, and
    \<open>schedCtx\<close> holds the point behind the last switch of a policy, once.
    \<open>Scheduler\<close>: \<open>sched_psjf\<close>, \<open>sched_mlfq\<close>, \<open>sched_cfs\<close>, \<open>schedule\<close>. \<open>Mutex\<close>: sequences of lock and
    unlock. \<open>Threads\<close>: the calls of the thread in control and those of \<open>schedule\<close>, as a refinement of a
    pool of ready, waiting, running and ended threads, and what the library does as it starts.

  \<^item> Project 3, virtual memory (\<open>my_vm.h\<close>, \<open>my_vm.c\<close>). \<open>VmState\<close>: address macros, the state, the TLB and the
    frames. \<open>PageTable\<close>: \<open>translate\<close>, \<open>map_page\<close> and the invariant \<open>vm_inv\<close>. \<open>VmAlloc\<close>:
    \<open>get_next_avail\<close>, \<open>n_malloc\<close>, \<open>n_free\<close>. \<open>VmData\<close>: \<open>put_data\<close>, \<open>get_data\<close>. \<open>MatMult\<close>: \<open>mat_mult\<close>
    over the locale \<open>int_mem\<close>. \<open>VmSteps\<close>: runs of a client, as a refinement of an abstract memory.
    \<open>VmRace\<close>: \<open>n_free\<close> in the two halves between which another thread can run.

  \<^item> Project 4, the file system (\<open>block.c\<close>, \<open>rufs.h\<close>, \<open>rufs.c\<close>). The model: \<open>FsDisk\<close> (block device, layout,
    bitmaps, inode table; the locale \<open>block_device\<close>), \<open>FsDir\<close> (directories, paths), \<open>FsOps\<close> (the FUSE
    handlers), \<open>FsCalls\<close> (their table \<open>rufs_ope\<close>). The abstract state \<open>store\<close> and its invariant: \<open>FsView\<close>,
    \<open>FsInv\<close>. Lookups and entries: \<open>FsLookup\<close>, \<open>FsEntries\<close>, \<open>FsDirAdd\<close>, \<open>FsPath\<close>. Operations on it: \<open>FsMkfs\<close>, \<open>FsTree\<close>,
    \<open>FsFile\<close>, \<open>FsReadWrite\<close>. What clients see: \<open>FsNames\<close> (names), \<open>FsFiles\<close> (contents), \<open>FsList\<close>
    (listing), \<open>FsSteps\<close> (life of a file system), \<open>FsLimits\<close> and \<open>FsProps\<close> (bounds). \<open>FsSpec\<close>: the
    whole as a refinement of a tree of directories and files.

  \<^bold>\<open>What is shown.\<close>

  \<^item> Virtual memory: from the static state on, bytes written stay until they are written again or
    released, in every run of a client (\<open>written_bytes_stay\<close>); each call does what the abstract memory says
    (\<open>vm_calls_refine\<close>); fresh allocation, exact release of pages, frames and TLB entries, reuse, success while memory is free;
    the TLB changes no translation; the product of two matrices is stored.

  \<^item> File system, for requests within the bounds below: every operation does to a tree of directories
    and files what its specification says (\<open>fs_calls_refine\<close>); every reachable state keeps the invariant; contents last through any run of
    operations and remounts (\<open>contents_last\<close>); paths stay; a new name adds one inode under one name and
    nothing else; a listing gives every name once; lookups, formatting, mounting again.

  \<^item> Threads: every call refines the pool, no thread is lost or in two places, mutual exclusion, the
    order of the queues, which thread each policy runs. As it starts the library never runs one.

  \<^item> The two small programs: mutual exclusion and the printed total of the counter under every
    interleaving, termination of the counter and of the context program.

  \<^item> Faults, proved of the code as it is: \<open>n_malloc_wraps\<close>, \<open>library_never_starts\<close>, \<open>mlfq_never_runs\<close>,
    \<open>join_never_returns\<close>, \<open>free_malloc_race\<close>, \<open>mutex_first_waiter_faults\<close>, \<open>write_past_limit_lost\<close>,
    \<open>write_offset_wraps\<close>, \<open>long_name_overwrites\<close>, \<open>read_overflows_buffer\<close>, \<open>averages_stay_zero\<close> and others.

  \<^bold>\<open>Bounds and assumptions.\<close>

  \<^item> The loops of the models are structural or decrease a measure, and need no fuel. Only \<open>run\<close> of \<open>Contexts\<close> takes a
    number of steps: 5, 2 and 3 of them end \<open>ucontext.c\<close>, \<open>makecontext.c\<close> and \<open>swapcontext.c\<close>, which the
    theorems show, and \<open>getcontext.c\<close> ends for no number.

  \<^item> File system: 1024 inodes, 16 blocks of 4096 bytes a file, data blocks 67 to 8191. The theorems on writes take
    the end of the write to be below \<open>2 ^ 43\<close> and those on reads and answers below \<open>2 ^ 31\<close>, where no
    intermediate \<open>int\<close> wraps; \<open>write_offset_wraps\<close> and \<open>read_overflows_buffer\<close> show what happens beyond.
    New names have at most 208 bytes and no NUL. Paths go through directories: on a path through a
    regular file the code reads the contents of the file as entries. \<open>pread\<close> and \<open>pwrite\<close> on the open
    disk file transfer whole blocks: failures of the host and short transfers are not modelled.

  \<^item> Threads: the theorems on queues take them to be initialised, which the library forgets to do, and memory
    to be there when a queue grows; their capacity stays below \<open>2 ^ 30\<close>. \<open>Threads\<close> takes a caller of
    \<open>schedule\<close> outside the threads, which the repository does not have: a policy saves the point behind
    its \<open>swapcontext\<close> in \<open>schedCtx\<close>, a thread that gives control up goes there, \<open>schedule\<close> returns to that
    caller, and the next thread runs when it calls \<open>schedule\<close> again. \<open>library_never_starts\<close> needs neither
    assumption. A policy whose \<open>swapcontext\<close> fails exits; the switches of the \<open>worker_\<close> functions succeed.
    A thread that was blocked in a lock resumes wherever its context was saved last, so
    the runs let a thread make any call next.

  \<^item> Counter: every \<open>pthread_create\<close> of \<open>main\<close> starts its thread.

  \<^item> Virtual memory: one client thread, except in \<open>VmRace\<close>. The two mutexes are flags; taking one that is held is a
    fault.

  \<^bold>\<open>Not modelled.\<close> \<open>main\<close> of \<open>rufs.c\<close> builds the path of the disk file and hands the table to FUSE. The
  benchmarks drive the libraries with input, output and timing. Of the text printed, only what the
  small programs of project 1 and the samples print is there, without \<open>perror\<close>. Include lines,
  prototypes and the macros that rename \<open>pthread\<close> calls have no meaning of their own. Other interleavings
  of calls of the virtual memory, delivery of timer signals to the thread library (nothing arms the timer) and
  crashes between block writes of the file system are left out.
\<close>

end
